(* ===== verification/Xen_Prelude.thy ===== *)
theory Xen_Prelude
  imports Main "HOL-Library.Word" "HOL-Library.Monad_Syntax"
begin

text \<open>
  What the component theories share: the machine types of the hypervisor, the error
  numbers of \<^verbatim>\<open>xen/include/xen/errno.h\<close>, the reading of a crash as a value, and
  generic facts about lists, options and words.

  A function of the hypervisor that can hit \<^verbatim>\<open>BUG()\<close>, a failing \<^verbatim>\<open>ASSERT\<close> or a
  \<^verbatim>\<open>NULL\<close> dereference returns an \<open>option\<close>: \<open>None\<close> is the crash, \<open>Some\<close> the
  ordinary return.  Error codes are ordinary return values (negative integers).
\<close>

section \<open>Machine types\<close>

type_synonym ulong = "64 word"
type_synonym u16 = "16 word"
type_synonym u32 = "32 word"

section \<open>Error numbers\<close>

definition EPERM :: int where "EPERM = 1"
definition ENOENT :: int where "ENOENT = 2"
definition ESRCH :: int where "ESRCH = 3"
definition ENOMEM :: int where "ENOMEM = 12"
definition EFAULT :: int where "EFAULT = 14"
definition EBUSY :: int where "EBUSY = 16"
definition EEXIST :: int where "EEXIST = 17"
definition EINVAL :: int where "EINVAL = 22"
definition ENOSPC :: int where "ENOSPC = 28"
definition ENOSYS :: int where "ENOSYS = 38"

text \<open>The collection \<open>errno\<close> unfolds the error numbers.\<close>

named_theorems errno

declare EPERM_def [errno] ENOENT_def [errno] ESRCH_def [errno] ENOMEM_def [errno]
  EFAULT_def [errno] EBUSY_def [errno] EEXIST_def [errno] EINVAL_def [errno]
  ENOSPC_def [errno] ENOSYS_def [errno]

section \<open>Crashes as values\<close>

text \<open>\<^verbatim>\<open>BUG_ON(c)\<close> and \<^verbatim>\<open>ASSERT(!c)\<close>.\<close>

definition bug_on :: "bool \<Rightarrow> unit option" where
  "bug_on c = (if c then None else Some ())"

lemma bug_on_simps [simp]:
  "bug_on False = Some ()" "bug_on True = None"
  by (simp_all add: bug_on_def)

lemma bug_on_Some [simp]: "bug_on c = Some u \<longleftrightarrow> \<not> c"
  by (simp add: bug_on_def)

lemma bug_on_bind [simp]: "(bug_on c \<bind> f) = (if c then None else f ())"
  by (simp add: bug_on_def)

section \<open>Arrays\<close>

text \<open>
  A C array is a list.  Reading outside its bounds is a crash; \<open>array_set\<close> is the
  assignment \<^verbatim>\<open>a[i] = x\<close>.
\<close>

definition array_get :: "'a list \<Rightarrow> nat \<Rightarrow> 'a option" where
  "array_get xs i = (if i < length xs then Some (xs ! i) else None)"

definition array_set :: "'a list \<Rightarrow> nat \<Rightarrow> 'a \<Rightarrow> 'a list option" where
  "array_set xs i x = (if i < length xs then Some (xs[i := x]) else None)"

lemma array_get_Some: "array_get xs i = Some x \<longleftrightarrow> i < length xs \<and> xs ! i = x"
  by (auto simp: array_get_def)

lemma array_get_in [simp]: "i < length xs \<Longrightarrow> array_get xs i = Some (xs ! i)"
  by (simp add: array_get_def)

lemma array_set_in [simp]: "i < length xs \<Longrightarrow> array_set xs i x = Some (xs[i := x])"
  by (simp add: array_set_def)

lemma array_set_Some: "array_set xs i x = Some ys \<longleftrightarrow> i < length xs \<and> ys = xs[i := x]"
  by (auto simp: array_set_def)

lemma array_get_update:
  "array_get (xs[i := x]) j = (if j = i \<and> i < length xs then Some x else array_get xs j)"
  by (auto simp: array_get_def)

section \<open>Words\<close>

lemma word_less_inc_le: "a < b \<Longrightarrow> a + 1 \<le> (b :: 'a::len word)"
  by (rule inc_le)

lemma word_less_not_max: "a < b \<Longrightarrow> a \<noteq> (- 1 :: 'a::len word)"
  by (metis word_order.extremum leD)

lemma word_less_inc: "a \<noteq> - 1 \<Longrightarrow> a < a + (1 :: 'a::len word)"
proof -
  assume "a \<noteq> - 1"
  then have "a < - 1"
    by (simp add: word_order.not_eq_extremum)
  then show ?thesis
    by uint_arith
qed

lemma word_dec_less: "(a :: 'a::len word) < b \<Longrightarrow> b - 1 < b"
  by uint_arith

lemma word_le_dec: "(a :: 'a::len word) < b \<Longrightarrow> a \<le> b - 1"
  by uint_arith

text \<open>The simplifier decides a comparison of words from its converse with these.\<close>

lemma less_not_le: "a < b \<Longrightarrow> \<not> b \<le> (a :: 'a::linorder)"
  by simp

lemmas cmp_conv = leD less_not_le less_imp_neq

section \<open>Intervals\<close>

lemma Icc_union_adjacent:
  fixes a b c d :: "'a::linorder"
  assumes "\<And>v. v \<le> b \<or> c \<le> v" "b < c" "a \<le> b" "c \<le> d"
  shows "{a..b} \<union> {c..d} = {a..d}"
proof (rule set_eqI)
  fix v show "v \<in> {a..b} \<union> {c..d} \<longleftrightarrow> v \<in> {a..d}"
    using assms(1) [of v] assms(2-4) by auto
qed

lemma Icc_Diff_upper:
  fixes a b s e :: "'a::linorder"
  assumes "s < a" "a \<le> e"
  shows "{a..b} - {s..e} = {e<..b}"
proof (rule set_eqI)
  fix v show "v \<in> {a..b} - {s..e} \<longleftrightarrow> v \<in> {e<..b}"
    using assms by (cases "v \<le> e"; cases "s \<le> v"; auto)
qed

lemma Icc_Diff_lower:
  fixes a b s e :: "'a::linorder"
  assumes "b \<le> e"
  shows "{a..b} - {s..e} = {a..b} \<inter> {..<s}"
proof (rule set_eqI)
  fix v show "v \<in> {a..b} - {s..e} \<longleftrightarrow> v \<in> {a..b} \<inter> {..<s}"
    using assms by (cases "v \<le> e"; cases "s \<le> v"; auto)
qed

lemma Icc_Diff_middle:
  fixes a b s e :: "'a::linorder"
  assumes "a < s" "e < b" "s \<le> e"
  shows "{a..b} - {s..e} = {a..<s} \<union> {e<..b}"
proof (rule set_eqI)
  fix v show "v \<in> {a..b} - {s..e} \<longleftrightarrow> v \<in> {a..<s} \<union> {e<..b}"
    using assms by (cases "v \<le> e"; cases "s \<le> v"; auto)
qed

lemma Icc_Diff_same: "s \<le> e \<Longrightarrow> {s..b} - {s..e} = {e<..(b :: 'a::linorder)}"
  by auto

lemma Icc_Int_below: "s \<le> b \<Longrightarrow> {a..b} \<inter> {..<s} = {a..<(s :: 'a::linorder)}"
  by auto

lemma word_Ioc_eq: "e \<noteq> - 1 \<Longrightarrow> {e<..b} = {e + 1..(b :: 'a::len word)}"
  by (auto intro: word_less_inc_le less_le_trans [OF word_less_inc])

lemma word_Ico_eq: "a < s \<Longrightarrow> {a..<s} = {a..(s :: 'a::len word) - 1}"
  by (auto intro: word_le_dec le_less_trans [OF _ word_dec_less])

section \<open>Transition systems\<close>

text \<open>
  The contract that several components share: steps that keep an invariant.  What follows for
  every run is proved here once and used through the interpretations of the components.
\<close>

locale invariant_steps =
  fixes step :: "'s \<Rightarrow> 's \<Rightarrow> bool"
    and inv :: "'s \<Rightarrow> bool"
  assumes step_inv: "step s s' \<Longrightarrow> inv s \<Longrightarrow> inv s'"
begin

lemma steps_inv: "step\<^sup>*\<^sup>* s s' \<Longrightarrow> inv s \<Longrightarrow> inv s'"
  by (induction rule: rtranclp_induct) (auto intro: step_inv)

lemma reachable_prop:
  assumes "step\<^sup>*\<^sup>* s s'" "inv s" "\<And>t. inv t \<Longrightarrow> P t"
  shows "P s'"
  using assms steps_inv by blast

end

end
