(* ===== verification/Rangeset.thy ===== *)
theory Rangeset
  imports Xen_Prelude
begin

text \<open>
  \<^verbatim>\<open>xen/common/rangeset.c\<close>: sets of numeric ranges, the representation of the I/O
  capabilities of a domain.  The doubly linked \<^verbatim>\<open>range_list\<close> is a list of
  ranges and a \<^verbatim>\<open>struct range *\<close> is a position in it (\<open>None\<close> for \<^verbatim>\<open>NULL\<close>), so that
  the pointer comparisons of the source are comparisons of positions.
  The result of the XSM hook and of \<^verbatim>\<open>xmalloc\<close> are arguments of the operations.
  The lemmas show the representation invariant (sorted, disjoint, never adjacent), what
  set of numbers every operation yields, and where the set differs from the one
  the operation is meant to compute.
\<close>

unbundle bit_operations_syntax

section \<open>Data\<close>

record range =
  range_s :: ulong
  range_e :: ulong

record rangeset =
  rs_domain :: "nat option"
  range_list :: "range list"
  rs_name :: string
  rs_flags :: u32

section \<open>Private range functions\<close>

fun find_loop :: "range list \<Rightarrow> ulong \<Rightarrow> nat \<Rightarrow> nat option \<Rightarrow> nat option" where
  "find_loop [] s i x = x"
| "find_loop (y # ys) s i x =
     (if range_s y > s then x else find_loop ys s (Suc i) (Some i))"

definition find_range :: "range list \<Rightarrow> ulong \<Rightarrow> nat option" where
  "find_range xs s = find_loop xs s 0 None"

definition first_range :: "range list \<Rightarrow> nat option" where
  "first_range xs = (if xs = [] then None else Some 0)"

definition next_range :: "range list \<Rightarrow> nat \<Rightarrow> nat option" where
  "next_range xs x = (if Suc x < length xs then Some (Suc x) else None)"

text \<open>The inserted range ends up at the position the second component names.\<close>

definition insert_range :: "range list \<Rightarrow> nat option \<Rightarrow> range \<Rightarrow> range list \<times> nat" where
  "insert_range xs x y =
     (let i = (case x of None \<Rightarrow> 0 | Some j \<Rightarrow> Suc j) in (take i xs @ y # drop i xs, i))"

definition destroy_range :: "range list \<Rightarrow> nat \<Rightarrow> range list" where
  "destroy_range xs x = take x xs @ drop (Suc x) xs"

definition set_s :: "range list \<Rightarrow> nat \<Rightarrow> ulong \<Rightarrow> range list" where
  "set_s xs x v = xs[x := (xs ! x)\<lparr>range_s := v\<rparr>]"

definition set_e :: "range list \<Rightarrow> nat \<Rightarrow> ulong \<Rightarrow> range list" where
  "set_e xs x v = xs[x := (xs ! x)\<lparr>range_e := v\<rparr>]"

section \<open>Adding a range\<close>

text \<open>The loop that destroys the ranges swallowed by the range at \<open>x\<close>.\<close>

function absorb_loop :: "range list \<Rightarrow> nat \<Rightarrow> range list" where
  "absorb_loop xs x =
     (case next_range xs x of
        None \<Rightarrow> xs
      | Some y \<Rightarrow> if range_e (xs ! y) > range_e (xs ! x) then xs
                  else absorb_loop (destroy_range xs y) x)"
  by pat_completeness auto
termination
  by (relation "measure (\<lambda>(xs, x). length xs)")
     (auto simp: next_range_def destroy_range_def split: if_splits)

declare absorb_loop.simps [simp del]

text \<open>The last statement: a range that became adjacent to its successor swallows it.\<close>

definition merge_next :: "range list \<Rightarrow> nat \<Rightarrow> range list" where
  "merge_next xs x =
     (case next_range xs x of
        None \<Rightarrow> xs
      | Some y \<Rightarrow> if range_e (xs ! x) + 1 = range_s (xs ! y)
                  then destroy_range (set_e xs x (range_e (xs ! y))) y else xs)"

text \<open>The branch \<^verbatim>\<open>x == y\<close>: no range starts in the interval \<open>(s, e]\<close>.\<close>

definition add_same :: "bool \<Rightarrow> range list \<Rightarrow> nat option \<Rightarrow> ulong \<Rightarrow> ulong \<Rightarrow> range list \<times> int" where
  "add_same mem xs x s e =
     (let fresh = (if \<not> mem then (xs, - ENOMEM)
                   else let (ys, i) = insert_range xs x \<lparr>range_s = s, range_e = e\<rparr>
                        in (merge_next ys i, 0))
      in case x of
           None \<Rightarrow> fresh
         | Some i \<Rightarrow>
             if range_e (xs ! i) < s \<and> range_e (xs ! i) + 1 \<noteq> s then fresh
             else if range_e (xs ! i) < e then (merge_next (set_e xs i e) i, 0)
             else (merge_next xs i, 0))"

text \<open>
  The branch \<^verbatim>\<open>x != y\<close>: the range that is to grow is found, takes the new bounds, and
  swallows its successors.
\<close>

definition add_across ::
    "range list \<Rightarrow> nat option \<Rightarrow> nat option \<Rightarrow> ulong \<Rightarrow> ulong \<Rightarrow> (range list \<times> int) option" where
  "add_across xs x y s e =
     do {
       j \<leftarrow> y;
       let hi = (if range_e (xs ! j) > e then range_e (xs ! j) else e);
       (ys, i) \<leftarrow> (case x of
           None \<Rightarrow> do { i \<leftarrow> first_range xs; Some (set_s xs i s, i) }
         | Some i \<Rightarrow>
             if range_e (xs ! i) < s \<and> range_e (xs ! i) + 1 \<noteq> s
             then do { i' \<leftarrow> next_range xs i; Some (set_s xs i' s, i') }
             else Some (xs, i));
       Some (merge_next (absorb_loop (set_e ys i hi) i) i, 0)
     }"

definition rangeset_add_range ::
    "int \<Rightarrow> bool \<Rightarrow> rangeset \<Rightarrow> ulong \<Rightarrow> ulong \<Rightarrow> (rangeset \<times> int) option" where
  "rangeset_add_range xsm mem r s e =
     (if xsm \<noteq> 0 then Some (r, xsm)
      else do {
        bug_on (\<not> s \<le> e);
        let xs = range_list r;
        let x = find_range xs s;
        let y = find_range xs e;
        (ys, rc) \<leftarrow> (if x = y then Some (add_same mem xs x s e) else add_across xs x y s e);
        Some (r\<lparr>range_list := ys\<rparr>, rc)
      })"

section \<open>Removing a range\<close>

definition remove_same :: "bool \<Rightarrow> range list \<Rightarrow> nat option \<Rightarrow> ulong \<Rightarrow> ulong \<Rightarrow> range list \<times> int" where
  "remove_same mem xs x s e =
     (case x of
        None \<Rightarrow> (xs, 0)
      | Some i \<Rightarrow>
          if range_e (xs ! i) < s then (xs, 0)
          else if range_s (xs ! i) < s \<and> range_e (xs ! i) > e then
            (if \<not> mem then (xs, - ENOMEM)
             else (fst (insert_range (set_e xs i (s - 1)) (Some i)
                     \<lparr>range_s = e + 1, range_e = range_e (xs ! i)\<rparr>), 0))
          else if range_s (xs ! i) = s \<and> range_e (xs ! i) \<le> e then (destroy_range xs i, 0)
          else if range_s (xs ! i) = s then (set_s xs i (e + 1), 0)
          else if range_e (xs ! i) \<le> e then (set_e xs i (s - 1), 0)
          else (xs, 0))"

text \<open>
  \<^verbatim>\<open>while (x != y)\<close>: destroying the range at \<open>x\<close> moves the range at \<open>y\<close> down by one.
  Started behind \<open>y\<close>, the loop would run off the end of the list and dereference \<^verbatim>\<open>NULL\<close>.
\<close>

fun destroy_between :: "range list \<Rightarrow> nat \<Rightarrow> nat \<Rightarrow> range list option" where
  "destroy_between xs x 0 = Some xs"
| "destroy_between xs x (Suc n) =
     do { t \<leftarrow> next_range xs x; destroy_between (destroy_range xs x) x n }"

definition remove_across ::
    "range list \<Rightarrow> nat option \<Rightarrow> nat option \<Rightarrow> ulong \<Rightarrow> ulong \<Rightarrow> (range list \<times> int) option" where
  "remove_across xs x y s e =
     do {
       j \<leftarrow> y;
       i \<leftarrow> (case x of None \<Rightarrow> first_range xs | Some i \<Rightarrow> Some i);
       (ys, i) \<leftarrow> (if range_s (xs ! i) < s
                    then do { i' \<leftarrow> next_range xs i; Some (set_e xs i (s - 1), i') }
                    else Some (xs, i));
       bug_on (j < i);
       zs \<leftarrow> destroy_between ys i (j - i);
       let ws = set_s zs i (e + 1);
       Some (if range_s (ws ! i) > range_e (ws ! i) then destroy_range ws i else ws, 0)
     }"

definition rangeset_remove_range ::
    "int \<Rightarrow> bool \<Rightarrow> rangeset \<Rightarrow> ulong \<Rightarrow> ulong \<Rightarrow> (rangeset \<times> int) option" where
  "rangeset_remove_range xsm mem r s e =
     (if xsm \<noteq> 0 then Some (r, xsm)
      else do {
        bug_on (\<not> s \<le> e);
        let xs = range_list r;
        let x = find_range xs s;
        let y = find_range xs e;
        (ys, rc) \<leftarrow> (if x = y then Some (remove_same mem xs x s e)
                      else remove_across xs x y s e);
        Some (r\<lparr>range_list := ys\<rparr>, rc)
      })"

section \<open>Queries\<close>

definition rangeset_contains_range :: "rangeset \<Rightarrow> ulong \<Rightarrow> ulong \<Rightarrow> bool option" where
  "rangeset_contains_range r s e =
     do {
       bug_on (\<not> s \<le> e);
       Some (case find_range (range_list r) s of
               None \<Rightarrow> False
             | Some x \<Rightarrow> range_e (range_list r ! x) \<ge> e)
     }"

text \<open>The callback threads its context and stops the walk with a non-zero result.\<close>

function report_loop ::
    "range list \<Rightarrow> nat option \<Rightarrow> ulong \<Rightarrow> ulong \<Rightarrow> (ulong \<Rightarrow> ulong \<Rightarrow> 'c \<Rightarrow> int \<times> 'c)
      \<Rightarrow> int \<Rightarrow> 'c \<Rightarrow> int \<times> 'c" where
  "report_loop xs None s e cb rc ctxt = (rc, ctxt)"
| "report_loop xs (Some x) s e cb rc ctxt =
     (if range_s (xs ! x) \<le> e \<and> rc = 0 then
        let (rc', ctxt') = (if range_e (xs ! x) \<ge> s
                            then cb (max (range_s (xs ! x)) s) (min (range_e (xs ! x)) e) ctxt
                            else (rc, ctxt))
        in report_loop xs (next_range xs x) s e cb rc' ctxt'
      else (rc, ctxt))"
  by pat_completeness auto
termination
  by (relation "measure (\<lambda>(xs, x, s, e, cb, rc, c).
        case x of None \<Rightarrow> 0 | Some i \<Rightarrow> Suc (length xs - i))")
     (auto simp: next_range_def)

declare report_loop.simps(2) [simp del]

definition rangeset_report_ranges ::
    "rangeset \<Rightarrow> ulong \<Rightarrow> ulong \<Rightarrow> (ulong \<Rightarrow> ulong \<Rightarrow> 'c \<Rightarrow> int \<times> 'c) \<Rightarrow> 'c \<Rightarrow> int \<times> 'c" where
  "rangeset_report_ranges r s e cb ctxt =
     report_loop (range_list r) (find_range (range_list r) s) s e cb 0 ctxt"

definition rangeset_add_singleton :: "int \<Rightarrow> bool \<Rightarrow> rangeset \<Rightarrow> ulong \<Rightarrow> (rangeset \<times> int) option" where
  "rangeset_add_singleton xsm mem r s = rangeset_add_range xsm mem r s s"

definition rangeset_remove_singleton :: "int \<Rightarrow> bool \<Rightarrow> rangeset \<Rightarrow> ulong \<Rightarrow> (rangeset \<times> int) option" where
  "rangeset_remove_singleton xsm mem r s = rangeset_remove_range xsm mem r s s"

definition rangeset_contains_singleton :: "rangeset \<Rightarrow> ulong \<Rightarrow> bool option" where
  "rangeset_contains_singleton r s = rangeset_contains_range r s s"

definition rangeset_is_empty :: "rangeset option \<Rightarrow> bool" where
  "rangeset_is_empty r = (case r of None \<Rightarrow> True | Some r \<Rightarrow> range_list r = [])"

section \<open>Interrupt capabilities\<close>

text \<open>The macros of \<^verbatim>\<open>xen/include/xen/iocap.h\<close>, on the rangeset \<^verbatim>\<open>d->irq_caps\<close>.\<close>

definition irq_permit_access :: "int \<Rightarrow> bool \<Rightarrow> rangeset \<Rightarrow> ulong \<Rightarrow> (rangeset \<times> int) option" where
  "irq_permit_access xsm mem caps i = rangeset_add_singleton xsm mem caps i"

definition irq_deny_access :: "int \<Rightarrow> bool \<Rightarrow> rangeset \<Rightarrow> ulong \<Rightarrow> (rangeset \<times> int) option" where
  "irq_deny_access xsm mem caps i = rangeset_remove_singleton xsm mem caps i"

definition irq_access_permitted :: "rangeset \<Rightarrow> ulong \<Rightarrow> bool option" where
  "irq_access_permitted caps i = rangeset_contains_singleton caps i"

section \<open>Specification\<close>

text \<open>
  The representation invariant: every range is non-empty, and each range ends at least two
  below the start of the next one.  The abstraction is the union of the ranges.
\<close>

definition apart :: "range \<Rightarrow> range \<Rightarrow> bool" where
  "apart a b \<longleftrightarrow> range_e a < range_s b \<and> range_e a + 1 \<noteq> range_s b"

definition ranges_wf :: "range list \<Rightarrow> bool" where
  "ranges_wf xs \<longleftrightarrow> (\<forall>a\<in>set xs. range_s a \<le> range_e a) \<and> sorted_wrt apart xs"

definition ranges_set :: "range list \<Rightarrow> ulong set" where
  "ranges_set xs = (\<Union>a\<in>set xs. {range_s a..range_e a})"

definition rangeset_wf :: "rangeset \<Rightarrow> bool" where
  "rangeset_wf r \<longleftrightarrow> ranges_wf (range_list r)"

definition rangeset_set :: "rangeset \<Rightarrow> ulong set" where
  "rangeset_set r = ranges_set (range_list r)"

text \<open>
  The numbers that \<open>rangeset_remove_range\<close> adds to the set: when the removed interval
  reaches a further range, the last range below \<open>s\<close> is extended up to \<open>s - 1\<close>.
\<close>

definition remove_gap :: "range list \<Rightarrow> ulong \<Rightarrow> ulong \<Rightarrow> ulong set" where
  "remove_gap xs s e =
     (let lo = filter (\<lambda>a. range_s a \<le> s) xs
      in if (\<exists>b\<in>set xs. s < range_s b \<and> range_s b \<le> e) \<and> lo \<noteq> [] \<and> range_s (last lo) < s
         then {range_e (last lo)<..<s} else {})"

text \<open>A callback that collects what is reported, and a range cut down to an interval.\<close>

definition collect :: "ulong \<Rightarrow> ulong \<Rightarrow> (ulong \<times> ulong) list \<Rightarrow> int \<times> (ulong \<times> ulong) list" where
  "collect a b c = (0, c @ [(a, b)])"

definition clip :: "ulong \<Rightarrow> ulong \<Rightarrow> range \<Rightarrow> ulong \<times> ulong" where
  "clip s e a = (max (range_s a) s, min (range_e a) e)"

section \<open>Rangesets of a domain\<close>

text \<open>
  \<^verbatim>\<open>struct rangeset\<close> objects live in a store indexed by their address; a domain threads
  the addresses of its rangesets on the list \<^verbatim>\<open>d->rangesets\<close>.  The address that
  \<^verbatim>\<open>xmalloc\<close> yields (or \<^verbatim>\<open>NULL\<close>) is an argument.
\<close>

record rs_store =
  rs_heap :: "nat \<Rightarrow> rangeset option"
  rs_lists :: "nat \<Rightarrow> nat list"

definition RANGESETF_prettyprint_hex :: u32 where
  "RANGESETF_prettyprint_hex = 1"

definition rangeset_new ::
    "nat option \<Rightarrow> rs_store \<Rightarrow> nat option \<Rightarrow> string option \<Rightarrow> u32 \<Rightarrow> (rs_store \<times> nat option) option" where
  "rangeset_new mem st d name flags =
     (case mem of
        None \<Rightarrow> Some (st, None)
      | Some p \<Rightarrow> do {
          bug_on (flags AND NOT RANGESETF_prettyprint_hex \<noteq> 0);
          let nm = (case name of Some n \<Rightarrow> take 31 n | None \<Rightarrow> ''(no name)'');
          let r = \<lparr>rs_domain = d, range_list = [], rs_name = nm, rs_flags = flags\<rparr>;
          Some (st\<lparr>rs_heap := (rs_heap st)(p \<mapsto> r),
                   rs_lists := (case d of None \<Rightarrow> rs_lists st
                                | Some dm \<Rightarrow> (rs_lists st)(dm := p # rs_lists st dm))\<rparr>, Some p)
        })"

definition rangeset_destroy :: "rs_store \<Rightarrow> nat option \<Rightarrow> rs_store option" where
  "rangeset_destroy st r =
     (case r of
        None \<Rightarrow> Some st
      | Some p \<Rightarrow> do {
          rs \<leftarrow> rs_heap st p;
          let st' = (case rs_domain rs of None \<Rightarrow> st
                     | Some d \<Rightarrow> st\<lparr>rs_lists := (rs_lists st)(d := remove1 p (rs_lists st d))\<rparr>);
          Some (st'\<lparr>rs_heap := (rs_heap st')(p := None)\<rparr>)
        })"

definition rangeset_domain_initialise :: "rs_store \<Rightarrow> nat \<Rightarrow> rs_store" where
  "rangeset_domain_initialise st d = st\<lparr>rs_lists := (rs_lists st)(d := [])\<rparr>"

text \<open>The loop of \<open>rangeset_domain_destroy\<close> over the list of the domain.\<close>

fun domain_destroy_loop :: "nat \<Rightarrow> nat list \<Rightarrow> rs_store \<Rightarrow> rs_store option" where
  "domain_destroy_loop d [] st = Some st"
| "domain_destroy_loop d (p # ps) st =
     do {
       r \<leftarrow> rs_heap st p;
       bug_on (rs_domain r \<noteq> Some d);
       st' \<leftarrow> rangeset_destroy
         (st\<lparr>rs_heap := (rs_heap st)(p \<mapsto> r\<lparr>rs_domain := None\<rparr>),
             rs_lists := (rs_lists st)(d := ps)\<rparr>) (Some p);
       domain_destroy_loop d ps st'
     }"

definition rangeset_domain_destroy :: "rs_store \<Rightarrow> nat \<Rightarrow> rs_store option" where
  "rangeset_domain_destroy st d = domain_destroy_loop d (rs_lists st d) st"

definition rs_store_wf :: "rs_store \<Rightarrow> bool" where
  "rs_store_wf st \<longleftrightarrow>
     (\<forall>d. distinct (rs_lists st d)) \<and>
     (\<forall>d p. p \<in> set (rs_lists st d) \<longleftrightarrow> (\<exists>r. rs_heap st p = Some r \<and> rs_domain r = Some d)) \<and>
     (\<forall>p r. rs_heap st p = Some r \<longrightarrow> rangeset_wf r)"

section \<open>Auxiliary notions of the proofs\<close>

text \<open>The last range of \<open>B\<close> loses what lies below \<open>e + 1\<close>.\<close>

definition cut_last :: "range \<Rightarrow> ulong \<Rightarrow> range list" where
  "cut_last l e = (if e + 1 > range_e l then [] else [l\<lparr>range_s := e + 1\<rparr>])"

text \<open>What becomes of the last range that starts at or below \<open>s\<close>.\<close>

definition cut_first :: "range list \<Rightarrow> ulong \<Rightarrow> range list" where
  "cut_first A s =
     (if A = [] then [] else if range_s (last A) < s
      then butlast A @ [(last A)\<lparr>range_e := s - 1\<rparr>] else butlast A)"

text \<open>A concrete rangeset and a store that holds it.\<close>

definition two_ranges :: rangeset where
  "two_ranges = \<lparr>rs_domain = Some 1, range_list = [\<lparr>range_s = 0, range_e = 1\<rparr>,
     \<lparr>range_s = 5, range_e = 8\<rparr>], rs_name = ''caps'', rs_flags = 0\<rparr>"

definition one_store :: rs_store where
  "one_store = \<lparr>rs_heap = [7 \<mapsto> two_ranges], rs_lists = (\<lambda>d. if d = 1 then [7] else [])\<rparr>"

section \<open>Lemmas\<close>

lemma ranges_set_simps [simp]:
  "ranges_set [] = {}"
  "ranges_set (a # xs) = {range_s a..range_e a} \<union> ranges_set xs"
  "ranges_set (xs @ ys) = ranges_set xs \<union> ranges_set ys"
  by (auto simp: ranges_set_def)

lemma ranges_wf_Nil [simp]: "ranges_wf []"
  by (simp add: ranges_wf_def)

lemma ranges_wf_Cons [simp]:
  "ranges_wf (a # xs) \<longleftrightarrow> range_s a \<le> range_e a \<and> (\<forall>b\<in>set xs. apart a b) \<and> ranges_wf xs"
  by (auto simp: ranges_wf_def)

lemma ranges_wf_append [simp]:
  "ranges_wf (xs @ ys) \<longleftrightarrow> ranges_wf xs \<and> ranges_wf ys \<and> (\<forall>a\<in>set xs. \<forall>b\<in>set ys. apart a b)"
  by (auto simp: ranges_wf_def sorted_wrt_append)

lemma apart_s_less: "apart a b \<Longrightarrow> range_s a \<le> range_e a \<Longrightarrow> range_s a < range_s b"
  by (auto simp: apart_def)

lemma ranges_wf_Cons_less:
  "ranges_wf (a # xs) \<Longrightarrow> b \<in> set xs \<Longrightarrow> range_s a < range_s b"
  by (rule apart_s_less) auto

text \<open>A sorted list splits at a bound.\<close>

lemma ranges_split:
  assumes "ranges_wf xs"
  obtains A D where "xs = A @ D" "\<forall>a\<in>set A. range_s a \<le> s" "\<forall>d\<in>set D. s < range_s d"
proof -
  have "\<exists>A D. xs = A @ D \<and> (\<forall>a\<in>set A. range_s a \<le> s) \<and> (\<forall>d\<in>set D. s < range_s d)"
    using assms
  proof (induction xs)
    case (Cons x xs)
    then obtain A D where AD: "xs = A @ D" "\<forall>a\<in>set A. range_s a \<le> s" "\<forall>d\<in>set D. s < range_s d"
      by auto
    show ?case
    proof (cases "range_s x \<le> s")
      case True
      with AD show ?thesis by (intro exI [of _ "x # A"] exI [of _ D]) auto
    next
      case False
      have "\<forall>b\<in>set xs. range_s x < range_s b"
        using ranges_wf_Cons_less [OF Cons.prems] by blast
      with AD False show ?thesis
        by (intro exI [of _ "[]"] exI [of _ "x # xs"]) fastforce
    qed
  qed simp
  with that show ?thesis by blast
qed

lemma ranges_split3:
  assumes "ranges_wf xs" "s \<le> e"
  obtains A B C where "xs = A @ B @ C" "\<forall>a\<in>set A. range_s a \<le> s"
    "\<forall>b\<in>set B. s < range_s b \<and> range_s b \<le> e" "\<forall>c\<in>set C. e < range_s c"
proof -
  obtain A D where 1: "xs = A @ D" "\<forall>a\<in>set A. range_s a \<le> s" "\<forall>d\<in>set D. s < range_s d"
    using ranges_split [OF assms(1)] .
  have "ranges_wf D" using assms(1) 1(1) by simp
  then obtain B C where "D = B @ C" "\<forall>a\<in>set B. range_s a \<le> e" "\<forall>d\<in>set C. e < range_s d"
    using ranges_split by blast
  with 1 that show ?thesis by auto
qed

lemma find_loop_split:
  "\<forall>a\<in>set A. range_s a \<le> s \<Longrightarrow> \<forall>d\<in>set D. s < range_s d \<Longrightarrow>
   find_loop (A @ D) s i x = (if A = [] then x else Some (i + length A - 1))"
proof (induction A arbitrary: i x)
  case Nil
  then show ?case by (cases D) auto
next
  case (Cons a A)
  then show ?case by (cases A) auto
qed

lemma find_range_split:
  "\<forall>a\<in>set A. range_s a \<le> s \<Longrightarrow> \<forall>d\<in>set D. s < range_s d \<Longrightarrow>
   find_range (A @ D) s = (if A = [] then None else Some (length A - 1))"
  by (simp add: find_range_def find_loop_split)

lemma next_range_append [simp]:
  "next_range (P @ x # ys) (length P) = (if ys = [] then None else Some (Suc (length P)))"
  by (auto simp: next_range_def)

lemma destroy_range_append [simp]: "destroy_range (P @ x # ys) (length P) = P @ ys"
  by (simp add: destroy_range_def)

lemma destroy_range_append2 [simp]:
  "destroy_range (P @ x # y # ys) (Suc (length P)) = P @ x # ys"
  using destroy_range_append [of "P @ [x]" y ys] by simp

lemma set_e_append [simp]: "set_e (P @ x # ys) (length P) v = P @ x\<lparr>range_e := v\<rparr> # ys"
  by (simp add: set_e_def)

lemma set_s_append [simp]: "set_s (P @ x # ys) (length P) v = P @ x\<lparr>range_s := v\<rparr> # ys"
  by (simp add: set_s_def)

lemma nth_append_Suc [simp]: "(P @ x # y # ys) ! Suc (length P) = y"
  by (simp add: nth_append)

lemma absorb_loop_append:
  "\<forall>b\<in>set B. range_e b \<le> range_e x \<Longrightarrow> (\<forall>c\<in>set C. range_e x < range_e c) \<Longrightarrow>
   absorb_loop (P @ x # B @ C) (length P) = P @ x # C"
proof (induction B)
  case Nil
  then show ?case
    by (subst absorb_loop.simps) (cases C; auto)
next
  case (Cons b B)
  then have "\<not> range_e b > range_e x" by auto
  with Cons show ?case
    by (subst absorb_loop.simps) auto
qed

lemma merge_next_append:
  "merge_next (P @ x # C) (length P) =
     (case C of [] \<Rightarrow> P @ [x]
      | c # C' \<Rightarrow> if range_e x + 1 = range_s c then P @ x\<lparr>range_e := range_e c\<rparr> # C' else P @ x # C)"
  by (cases C) (auto simp: merge_next_def)

text \<open>Merging keeps the set and establishes the invariant, whenever the grown range is
  apart from what lies below and does not reach what lies above.\<close>

lemma merge_next_correct:
  assumes "ranges_wf P" "ranges_wf C" "range_s x \<le> range_e x"
    and "\<forall>p\<in>set P. apart p x" and "\<forall>c\<in>set C. range_e x < range_s c"
    and "\<forall>p\<in>set P. \<forall>c\<in>set C. apart p c"
  shows "ranges_wf (merge_next (P @ x # C) (length P)) \<and>
    ranges_set (merge_next (P @ x # C) (length P)) = ranges_set (P @ x # C)"
proof (cases C)
  case Nil
  with assms show ?thesis by (simp add: merge_next_append)
next
  case (Cons c C')
  have c: "range_e x < range_s c" "range_s c \<le> range_e c"
    using assms(2,5) Cons by auto
  have far: "\<forall>c'\<in>set C'. range_s c < range_s c'"
    using assms(2) Cons ranges_wf_Cons_less by blast
  show ?thesis
  proof (cases "range_e x + 1 = range_s c")
    case True
    have "range_s x \<le> range_e c"
      using assms(3) c by order
    moreover have "\<forall>p\<in>set P. apart p (x\<lparr>range_e := range_e c\<rparr>)"
      using assms(4) by (simp add: apart_def)
    moreover have "\<forall>c'\<in>set C'. apart (x\<lparr>range_e := range_e c\<rparr>) c'"
      using assms(2) Cons by (simp add: apart_def)
    moreover have "{range_s x..range_e c} = {range_s x..range_e x} \<union> {range_s c..range_e c}"
    proof (rule Icc_union_adjacent [symmetric])
      show "v \<le> range_e x \<or> range_s c \<le> v" for v
        using True word_less_inc_le [of "range_e x" v] by force
    qed (use c assms(3) in order)+
    ultimately show ?thesis
      using assms(1,2,6) Cons True by (simp add: merge_next_append Un_assoc)
  next
    case False
    have "apart x c'" if "c' \<in> set C" for c'
    proof (cases "c' = c")
      case True
      with False c show ?thesis by (simp add: apart_def)
    next
      case False
      with that Cons far have "range_s c < range_s c'" by simp
      moreover have "range_e x + 1 \<le> range_s c"
        using c by (simp add: word_less_inc_le)
      ultimately show ?thesis
        using c(1) by (auto simp: apart_def)
    qed
    then show ?thesis
      using assms Cons False by (simp add: merge_next_append)
  qed
qed

lemma insert_range_None: "insert_range xs None y = (y # xs, 0)"
  by (simp add: insert_range_def)

lemma insert_range_append:
  "insert_range (P @ x # ys) (Some (length P)) y = (P @ x # y # ys, Suc (length P))"
  by (simp add: insert_range_def)

lemma apart_mono: "apart a b \<Longrightarrow> range_s b \<le> range_s c \<Longrightarrow> apart a c"
proof -
  assume "apart a b" and le: "range_s b \<le> range_s c"
  then have *: "range_e a < range_s b" "range_e a + 1 \<noteq> range_s b"
    by (simp_all add: apart_def)
  then have "range_e a + 1 \<le> range_s b" by (simp add: word_less_inc_le)
  with * le show ?thesis by (auto simp: apart_def)
qed

lemma add_same_correct:
  assumes wf: "ranges_wf (A @ C)" and se: "s \<le> e"
    and A: "\<forall>a\<in>set A. range_s a \<le> s" and C: "\<forall>c\<in>set C. e < range_s c"
    and res: "add_same mem (A @ C) (if A = [] then None else Some (length A - 1)) s e = (ys, rc)"
  shows "ranges_wf ys \<and> (rc = 0 \<longrightarrow> ranges_set ys = ranges_set (A @ C) \<union> {s..e})
     \<and> (rc \<noteq> 0 \<longrightarrow> rc = - ENOMEM \<and> ys = A @ C \<and> \<not> mem)"
proof (cases A rule: rev_cases)
  case Nil
  let ?n = "\<lparr>range_s = s, range_e = e\<rparr>"
  have "ranges_wf (merge_next (?n # C) 0) \<and> ranges_set (merge_next (?n # C) 0) = ranges_set (?n # C)"
    using merge_next_correct [of "[]" C ?n] wf se C Nil by simp
  with Nil res wf show ?thesis
    by (auto simp: add_same_def insert_range_None errno split: if_splits)
next
  case (snoc P a)
  let ?n = "\<lparr>range_s = s, range_e = e\<rparr>"
  have as: "range_s a \<le> s" "range_s a \<le> range_e a" using A wf snoc by auto
  have aC: "\<forall>c\<in>set C. apart a c" and PC: "\<forall>p\<in>set P. \<forall>c\<in>set C. apart p c"
    and Pa: "\<forall>p\<in>set P. apart p a" and wfP: "ranges_wf P" and wfC: "ranges_wf C"
    using wf snoc by auto
  have x: "(if A = [] then None else Some (length A - 1)) = Some (length P)"
    using snoc by simp
  consider (gap) "range_e a < s" "range_e a + 1 \<noteq> s"
    | (grow) "\<not> (range_e a < s \<and> range_e a + 1 \<noteq> s)" "range_e a < e"
    | (inside) "\<not> (range_e a < s \<and> range_e a + 1 \<noteq> s)" "\<not> range_e a < e"
    by blast
  then show ?thesis
  proof cases
    case gap
    have an: "apart a ?n" using gap by (simp add: apart_def)
    have "\<forall>p\<in>set P. apart p ?n"
      using Pa as(1) by (auto intro: apart_mono)
    then have "ranges_wf (merge_next ((P @ [a]) @ ?n # C) (length (P @ [a]))) \<and>
      ranges_set (merge_next ((P @ [a]) @ ?n # C) (length (P @ [a]))) =
         ranges_set ((P @ [a]) @ ?n # C)"
      by (intro merge_next_correct) (use wf se C snoc an in auto)
    with gap res wf snoc show ?thesis
      by (auto simp: add_same_def insert_range_append errno split: if_splits)
  next
    case grow
    let ?a = "a\<lparr>range_e := e\<rparr>"
    have "ranges_wf (merge_next (P @ ?a # C) (length P)) \<and>
      ranges_set (merge_next (P @ ?a # C) (length P)) = ranges_set (P @ ?a # C)"
      by (rule merge_next_correct) (use wfP wfC as se C Pa PC in \<open>auto simp: apart_def\<close>)
    moreover have "{range_s a..e} = {range_s a..range_e a} \<union> {s..e}"
    proof (cases "range_e a < s")
      case True
      then show ?thesis
        using grow as se word_less_inc_le [of "range_e a"]
        by (intro Icc_union_adjacent [symmetric]) force+
    next
      case False
      then show ?thesis using as grow by auto
    qed
    moreover have "(ys, rc) = (merge_next (P @ ?a # C) (length P), 0)"
      using res grow snoc by (simp add: add_same_def x del: set_e_append) simp
    ultimately show ?thesis using snoc by (simp add: Un_ac)
  next
    case inside
    have "ranges_wf (merge_next (P @ a # C) (length P)) \<and>
      ranges_set (merge_next (P @ a # C) (length P)) = ranges_set (P @ a # C)"
      by (rule merge_next_correct) (use wfP wfC as aC Pa PC in \<open>auto simp: apart_def\<close>)
    moreover have "(ys, rc) = (merge_next (P @ a # C) (length P), 0)"
      using res inside snoc by (simp add: add_same_def x)
    moreover have "{s..e} \<subseteq> {range_s a..range_e a}" using as inside by auto
    then have "ranges_set (P @ a # C) = ranges_set (P @ a # C) \<union> {s..e}"
      by (simp only: ranges_set_simps) blast
    ultimately show ?thesis using snoc by simp
  qed
qed

lemma set_s_append2 [simp]:
  "set_s (P @ x # y # ys) (Suc (length P)) v = P @ x # y\<lparr>range_s := v\<rparr> # ys"
  using set_s_append [of "P @ [x]" y ys v] by simp

lemma set_e_append2 [simp]:
  "set_e (P @ x # y # ys) (Suc (length P)) v = P @ x # y\<lparr>range_e := v\<rparr> # ys"
  using set_e_append [of "P @ [x]" y ys v] by simp

text \<open>The range that is grown to \<open>(lo, hi)\<close> swallows \<open>B\<close> and nothing of \<open>C\<close>.\<close>

lemma grow_correct:
  assumes wf: "ranges_wf (P @ B @ C)" and lohi: "lo \<le> hi"
    and P: "\<forall>p\<in>set P. range_e p < lo \<and> range_e p + 1 \<noteq> lo"
    and B: "\<forall>b\<in>set B. lo \<le> range_s b \<and> range_e b \<le> hi"
    and C: "\<forall>c\<in>set C. hi < range_s c"
    and n: "range_s n = lo" "range_e n = hi" and B': "set B' \<subseteq> set B"
  shows "ranges_wf (merge_next (absorb_loop (P @ n # B' @ C) (length P)) (length P)) \<and>
    ranges_set (merge_next (absorb_loop (P @ n # B' @ C) (length P)) (length P)) =
    ranges_set P \<union> {lo..hi} \<union> ranges_set C"
proof -
  have "\<forall>c\<in>set C. range_s c \<le> range_e c"
    using wf by (simp add: ranges_wf_def)
  with C n have "\<forall>c\<in>set C. range_e n < range_e c"
    by (blast intro: less_le_trans)
  moreover have "\<forall>b\<in>set B'. range_e b \<le> range_e n" using B n B' by blast
  ultimately have "absorb_loop (P @ n # B' @ C) (length P) = P @ n # C"
    by (simp add: absorb_loop_append)
  moreover have "ranges_wf (merge_next (P @ n # C) (length P)) \<and>
    ranges_set (merge_next (P @ n # C) (length P)) = ranges_set (P @ n # C)"
    by (rule merge_next_correct) (use wf lohi P C n in \<open>auto simp: apart_def\<close>)
  ultimately show ?thesis using n by (simp add: Un_assoc)
qed

lemma last_range_e:
  "ranges_wf B \<Longrightarrow> b \<in> set B \<Longrightarrow> range_e b \<le> range_e (last B)"
proof (induction B)
  case (Cons x B)
  show ?case
  proof (cases "B = []")
    case False
    have "apart x (last B)" "range_s (last B) \<le> range_e (last B)"
      using Cons.prems(1) False by (auto simp: ranges_wf_def)
    then have "range_e x \<le> range_e (last B)" by (auto simp: apart_def)
    with Cons False show ?thesis by auto
  qed (use Cons in simp)
qed simp

lemma nth_last_append: "B \<noteq> [] \<Longrightarrow> (A @ B @ C) ! (length A + length B - 1) = last B"
  by (cases B rule: rev_cases) (auto simp: nth_append)

lemma Icc_cover:
  assumes wf: "ranges_wf B" and ne: "B \<noteq> []" and se: "s \<le> e"
    and B: "\<forall>b\<in>set B. s < range_s b \<and> range_s b \<le> e"
    and hi: "hi = (if range_e (last B) > e then range_e (last B) else e)"
  shows "{s..hi} = {s..e} \<union> ranges_set B"
proof
  show "{s..e} \<union> ranges_set B \<subseteq> {s..hi}"
  proof -
    have "range_e b \<le> hi" if "b \<in> set B" for b
      using last_range_e [OF wf that] hi by (auto split: if_splits)
    with B se hi show ?thesis by (fastforce simp: ranges_set_def)
  qed
  have "last B \<in> set B" using ne by simp
  with B have sub: "{range_s (last B)..range_e (last B)} \<subseteq> ranges_set B"
    and low: "range_s (last B) \<le> e"
    by (auto simp: ranges_set_def)
  have "v \<in> ranges_set B" if "\<not> v \<le> e" "v \<le> hi" for v
  proof -
    have "range_s (last B) \<le> v" using that(1) low by order
    moreover have "v \<le> range_e (last B)" using that hi by (simp split: if_splits)
    ultimately show ?thesis using sub by (meson atLeastAtMost_iff subsetD)
  qed
  then show "{s..hi} \<subseteq> {s..e} \<union> ranges_set B"
    by (meson Un_iff atLeastAtMost_iff subsetI)
qed

lemma add_across_correct:
  assumes wf: "ranges_wf (A @ B @ C)" and ne: "B \<noteq> []" and se: "s \<le> e"
    and A: "\<forall>a\<in>set A. range_s a \<le> s"
    and B: "\<forall>b\<in>set B. s < range_s b \<and> range_s b \<le> e"
    and C: "\<forall>c\<in>set C. e < range_s c"
  shows "\<exists>ys. add_across (A @ B @ C) (if A = [] then None else Some (length A - 1))
      (Some (length A + length B - 1)) s e = Some (ys, 0) \<and>
    ranges_wf ys \<and> ranges_set ys = ranges_set (A @ B @ C) \<union> {s..e}"
proof -
  define hi where "hi = (if range_e (last B) > e then range_e (last B) else e)"
  have wfB: "ranges_wf B" using wf by simp
  have cover: "{s..hi} = {s..e} \<union> ranges_set B"
    using Icc_cover [OF wfB ne se B hi_def] .
  have shi: "s \<le> hi" using se by (auto simp: hi_def)
  have "range_e (last B) \<le> hi" by (simp add: hi_def not_less)
  then have Bhi: "\<forall>b\<in>set B. range_e b \<le> hi"
    using last_range_e [OF wfB] by (blast intro: order_trans)
  have "\<forall>c\<in>set C. range_e (last B) < range_s c"
    using wf ne by (simp add: apart_def)
  then have Chi: "\<forall>c\<in>set C. hi < range_s c"
    using C by (simp add: hi_def)
  obtain b B1 where b: "B = b # B1" using ne by (cases B) auto
  have across: "add_across (A @ B @ C) x (Some (length A + length B - 1)) s e =
    (case x of
        None \<Rightarrow> do { i \<leftarrow> first_range (A @ B @ C); Some (set_s (A @ B @ C) i s, i) }
      | Some i \<Rightarrow>
          if range_e ((A @ B @ C) ! i) < s \<and> range_e ((A @ B @ C) ! i) + 1 \<noteq> s
          then do { i' \<leftarrow> next_range (A @ B @ C) i; Some (set_s (A @ B @ C) i' s, i') }
          else Some (A @ B @ C, i)) \<bind>
    (\<lambda>(ys, i). Some (merge_next (absorb_loop (set_e ys i hi) i) i, 0))" for x
    by (simp only: add_across_def nth_last_append [OF ne] hi_def Let_def bind.bind_lunit)
  show ?thesis
  proof (cases A rule: rev_cases)
    case Nil
    let ?n = "b\<lparr>range_s := s, range_e := hi\<rparr>"
    have "set_e (set_s (B @ C) 0 s) 0 hi = ?n # B1 @ C"
      by (simp add: b set_e_def set_s_def)
    moreover have "ranges_wf (merge_next (absorb_loop ([] @ ?n # B1 @ C) 0) 0) \<and>
      ranges_set (merge_next (absorb_loop ([] @ ?n # B1 @ C) 0) 0) = {s..hi} \<union> ranges_set C"
      using grow_correct [of "[]" B C s hi ?n B1] wf B Bhi Chi shi b Nil
      by (simp add: less_imp_le subset_insertI)
    ultimately show ?thesis
      unfolding across using Nil cover ne by (simp add: first_range_def Un_ac)
  next
    case (snoc P a)
    have x: "(if A = [] then None else Some (length A - 1)) = Some (length P)"
      using snoc by simp
    show ?thesis
    proof (cases "range_e a < s \<and> range_e a + 1 \<noteq> s")
      case True
      let ?n = "b\<lparr>range_s := s, range_e := hi\<rparr>"
      have Pn: "\<forall>p\<in>set (P @ [a]). range_e p < s \<and> range_e p + 1 \<noteq> s"
      proof -
        have "\<forall>p\<in>set P. apart p ?n"
          using wf A snoc by (simp add: apart_mono [of _ a])
        with True show ?thesis by (simp add: apart_def)
      qed
      have "ranges_wf (merge_next (absorb_loop ((P @ [a]) @ ?n # B1 @ C) (length (P @ [a]))) (length (P @ [a]))) \<and>
        ranges_set (merge_next (absorb_loop ((P @ [a]) @ ?n # B1 @ C) (length (P @ [a]))) (length (P @ [a]))) =
          ranges_set (P @ [a]) \<union> {s..hi} \<union> ranges_set C"
        by (rule grow_correct [where B = B])
          (use wf B Bhi Chi shi b snoc Pn in \<open>simp_all add: less_imp_le subset_insertI\<close>)
      then show ?thesis
        unfolding across x using True cover b snoc by (simp add: Un_ac)
    next
      case False
      let ?n = "a\<lparr>range_e := hi\<rparr>"
      have as: "range_s a \<le> s" using A snoc by simp
      have aB: "\<forall>b\<in>set B. range_s a \<le> range_s b"
        using B as by (auto intro: less_imp_le le_less_trans)
      have "range_s a \<le> hi" using as shi by order
      then have "ranges_wf (merge_next (absorb_loop (P @ ?n # B @ C) (length P)) (length P)) \<and>
        ranges_set (merge_next (absorb_loop (P @ ?n # B @ C) (length P)) (length P)) =
          ranges_set P \<union> {range_s a..hi} \<union> ranges_set C"
        by (intro grow_correct [where B = B])
          (use wf aB Bhi Chi snoc in \<open>simp_all add: apart_def\<close>)
      moreover have "{range_s a..hi} = {range_s a..range_e a} \<union> {s..hi}"
      proof (cases "range_e a < s")
        case True
        then show ?thesis
          using False wf snoc shi word_less_inc_le [of "range_e a"]
          by (intro Icc_union_adjacent [symmetric]) force+
      next
        case False
        moreover have "range_e a \<le> hi"
        proof -
          have "range_e a < range_s b" "range_s b \<le> range_e b" "range_e b \<le> hi"
            using wf snoc b Bhi by (simp_all add: apart_def)
          then show ?thesis by order
        qed
        ultimately show ?thesis using as by auto
      qed
      ultimately show ?thesis
        unfolding across x using False cover snoc by (simp add: Un_ac) blast
    qed
  qed
qed

lemma find_range_split3:
  assumes "\<forall>a\<in>set A. range_s a \<le> s" "\<forall>b\<in>set B. s < range_s b \<and> range_s b \<le> e"
    "\<forall>c\<in>set C. e < range_s c" "s \<le> e"
  shows "find_range (A @ B @ C) s = (if A = [] then None else Some (length A - 1))"
    and "find_range (A @ B @ C) e =
      (if A @ B = [] then None else Some (length A + length B - 1))"
proof -
  have "\<forall>d\<in>set (B @ C). s < range_s d"
    using assms by (auto intro: le_less_trans)
  with assms(1) show "find_range (A @ B @ C) s = (if A = [] then None else Some (length A - 1))"
    by (rule find_range_split)
  have "\<forall>d\<in>set (A @ B). range_s d \<le> e"
    using assms by (auto intro: order_trans)
  from find_range_split [OF this assms(3)]
  show "find_range (A @ B @ C) e =
      (if A @ B = [] then None else Some (length A + length B - 1))"
    by simp
qed

lemma range_list_same: "range_list r = xs \<Longrightarrow> r\<lparr>range_list := xs\<rparr> = r"
  by auto

lemma add_range_correct:
  assumes wf: "rangeset_wf r" and se: "s \<le> e"
  obtains r' rc where "rangeset_add_range 0 mem r s e = Some (r', rc)" "rangeset_wf r'"
    "rc = 0 \<longrightarrow> rangeset_set r' = rangeset_set r \<union> {s..e}"
    "rc \<noteq> 0 \<longrightarrow> rc = - ENOMEM \<and> r' = r \<and> \<not> mem"
proof -
  obtain A B C where xs: "range_list r = A @ B @ C" and A: "\<forall>a\<in>set A. range_s a \<le> s"
    and B: "\<forall>b\<in>set B. s < range_s b \<and> range_s b \<le> e" and C: "\<forall>c\<in>set C. e < range_s c"
    using ranges_split3 [OF _ se] wf unfolding rangeset_wf_def by blast
  note find = find_range_split3 [OF A B C se]
  have wf': "ranges_wf (A @ B @ C)" using wf xs by (simp add: rangeset_wf_def)
  show ?thesis
  proof (cases "B = []")
    case True
    obtain ys rc where res: "add_same mem (A @ C) (if A = [] then None else Some (length A - 1)) s e = (ys, rc)"
      by fastforce
    from add_same_correct [OF _ se A C res] wf' True
    have "ranges_wf ys \<and> (rc = 0 \<longrightarrow> ranges_set ys = ranges_set (A @ C) \<union> {s..e})
     \<and> (rc \<noteq> 0 \<longrightarrow> rc = - ENOMEM \<and> ys = A @ C \<and> \<not> mem)" by simp
    moreover have "rangeset_add_range 0 mem r s e = Some (r\<lparr>range_list := ys\<rparr>, rc)"
      using find xs res se True by (cases "A = []") (simp_all add: rangeset_add_range_def)
    moreover have "rc \<noteq> 0 \<longrightarrow> r\<lparr>range_list := ys\<rparr> = r"
      using calculation(1) xs True by (simp add: range_list_same)
    ultimately show ?thesis
      using xs True by (intro that [of "r\<lparr>range_list := ys\<rparr>" rc])
        (simp_all add: rangeset_wf_def rangeset_set_def)
  next
    case False
    from add_across_correct [OF wf' False se A B C] obtain ys where
      ys: "add_across (A @ B @ C) (if A = [] then None else Some (length A - 1))
        (Some (length A + length B - 1)) s e = Some (ys, 0)"
        "ranges_wf ys" "ranges_set ys = ranges_set (A @ B @ C) \<union> {s..e}"
      by blast
    have "find_range (A @ B @ C) s \<noteq> find_range (A @ B @ C) e"
      unfolding find using False by (cases A; cases B) simp_all
    then have "rangeset_add_range 0 mem r s e = Some (r\<lparr>range_list := ys\<rparr>, 0)"
      using ys(1) xs se False find
      by (cases "A = []") (simp_all add: rangeset_add_range_def Let_def)
    with ys xs show ?thesis
      by (intro that [of "r\<lparr>range_list := ys\<rparr>" 0]) (simp_all add: rangeset_wf_def rangeset_set_def)
  qed
qed

lemma contains_range_correct:
  assumes wf: "rangeset_wf r" and se: "s \<le> e"
  shows "rangeset_contains_range r s e = Some ({s..e} \<subseteq> rangeset_set r)"
proof -
  obtain A D where xs: "range_list r = A @ D" and A: "\<forall>a\<in>set A. range_s a \<le> s"
    and D: "\<forall>d\<in>set D. s < range_s d"
    using ranges_split wf unfolding rangeset_wf_def by blast
  have wf': "ranges_wf (A @ D)" using wf xs by (simp add: rangeset_wf_def)
  have notD: "s \<notin> ranges_set D"
    using D by (auto simp: ranges_set_def)
  show ?thesis
  proof (cases A rule: rev_cases)
    case Nil
    then have "s \<notin> rangeset_set r" using notD xs by (simp add: rangeset_set_def)
    moreover have "s \<in> {s..e}" using se by simp
    ultimately have "\<not> {s..e} \<subseteq> rangeset_set r" by blast
    then show ?thesis
      using find_range_split [OF A D] xs se Nil by (simp add: rangeset_contains_range_def)
  next
    case (snoc P a)
    have "rangeset_contains_range r s e = Some (e \<le> range_e a)"
      using find_range_split [OF A D] xs se snoc by (simp add: rangeset_contains_range_def)
    moreover have "e \<le> range_e a \<longleftrightarrow> {s..e} \<subseteq> rangeset_set r"
    proof
      assume "e \<le> range_e a"
      then have "{s..e} \<subseteq> {range_s a..range_e a}" using A snoc by simp
      then show "{s..e} \<subseteq> rangeset_set r"
        unfolding rangeset_set_def xs snoc ranges_set_simps by blast
    next
      assume sub: "{s..e} \<subseteq> rangeset_set r"
      show "e \<le> range_e a"
      proof (rule ccontr)
        assume "\<not> e \<le> range_e a"
        then have lt: "range_e a < e" by (simp add: not_le)
        define v where "v = (if s \<le> range_e a then range_e a + 1 else s)"
        have va: "range_e a < v" "s \<le> v" "v \<le> e"
          using lt se word_less_inc [OF word_less_not_max [OF lt]] word_less_inc_le [OF lt]
          by (auto simp: v_def not_le)
        then have "v \<in> rangeset_set r" using sub by auto
        then have "v \<in> ranges_set P \<or> v \<in> {range_s a..range_e a} \<or> v \<in> ranges_set D"
          unfolding rangeset_set_def xs snoc ranges_set_simps by blast
        moreover have "v \<notin> {range_s a..range_e a}" using va(1) by (simp add: not_le)
        moreover have "v \<notin> ranges_set P"
        proof -
          have "range_e p < v" if "p \<in> set P" for p
          proof -
            have "range_e p < range_s a" "range_s a \<le> range_e a"
              using wf' snoc that by (simp_all add: apart_def)
            with va(1) show ?thesis by order
          qed
          then show ?thesis by (fastforce simp: ranges_set_def not_le)
        qed
        moreover have "v \<notin> ranges_set D"
        proof -
          have "v < range_s d" if "d \<in> set D" for d
          proof -
            have "range_e a < range_s d" "range_e a + 1 \<noteq> range_s d" "s < range_s d"
              using D that wf' snoc by (simp_all add: apart_def)
            then show ?thesis
              using word_less_inc_le [of "range_e a" "range_s d"]
              by (simp add: v_def order.not_eq_order_implies_strict)
          qed
          then show ?thesis by (fastforce simp: ranges_set_def not_le)
        qed
        ultimately show False by blast
      qed
    qed
    ultimately show ?thesis by simp
  qed
qed


lemma destroy_between_append:
  "destroy_between (P @ M @ l # R) (length P) (length M) = Some (P @ l # R)"
  by (induction M) simp_all

lemma cut_last_correct:
  assumes wf: "ranges_wf (B @ [l])" and e: "e \<noteq> - 1"
    and B: "\<forall>b\<in>set (B @ [l]). s < range_s b \<and> range_s b \<le> e"
  shows "ranges_set (B @ [l]) - {s..e} = ranges_set (cut_last l e)"
    and "ranges_wf (cut_last l e)"
    and "\<forall>t\<in>set (cut_last l e). range_e t = range_e l \<and> range_s t = e + 1"
proof -
  have low: "range_e b \<le> e" if "b \<in> set B" for b
  proof -
    have "range_e b < range_s l" "range_s l \<le> e"
      using wf B that by (simp_all add: apart_def)
    then show ?thesis by order
  qed
  have "ranges_set B - {s..e} = {}"
  proof -
    have "{range_s b..range_e b} \<subseteq> {s..e}" if "b \<in> set B" for b
      using low [OF that] B that by (simp add: less_imp_le)
    then show ?thesis unfolding ranges_set_def by blast
  qed
  moreover have "{range_s l..range_e l} - {s..e} = ranges_set (cut_last l e)"
  proof -
    have "s < range_s l" "range_s l \<le> e" using B by simp_all
    then have "{range_s l..range_e l} - {s..e} = {e + 1..range_e l}"
      using e by (simp add: Icc_Diff_upper word_Ioc_eq)
    then show ?thesis by (simp add: cut_last_def)
  qed
  ultimately show "ranges_set (B @ [l]) - {s..e} = ranges_set (cut_last l e)"
    by (simp only: ranges_set_simps Un_Diff Un_empty_left Un_empty_right)
  show "ranges_wf (cut_last l e)" by (simp add: cut_last_def not_less)
  show "\<forall>t\<in>set (cut_last l e). range_e t = range_e l \<and> range_s t = e + 1"
    by (simp add: cut_last_def)
qed

lemma remove_across_eq:
  assumes B: "\<forall>b\<in>set (B @ [l]). s < range_s b" and A: "\<forall>a\<in>set A. range_s a \<le> s"
  shows "remove_across (A @ B @ l # C) (if A = [] then None else Some (length A - 1))
      (Some (length A + length B)) s e = Some (cut_first A s @ cut_last l e @ C, 0)"
proof -
  have fin: "(let ws = set_s (P @ l # C) (length P) (e + 1)
      in if range_s (ws ! length P) > range_e (ws ! length P) then destroy_range ws (length P) else ws)
    = P @ cut_last l e @ C" for P
    by (simp add: cut_last_def)
  show ?thesis
  proof (cases A rule: rev_cases)
    case Nil
    have "\<not> range_s ((B @ l # C) ! 0) < s"
      using B by (cases B) auto
    moreover have "destroy_between (B @ l # C) 0 (length B) = Some (l # C)"
      using destroy_between_append [of "[]"] by simp
    ultimately show ?thesis
      using Nil fin [of "[]"]
      by (simp add: remove_across_def first_range_def cut_first_def Let_def split: if_splits)
  next
    case (snoc P a)
    show ?thesis
    proof (cases "range_s a < s")
      case True
      have "destroy_between ((P @ [a\<lparr>range_e := s - 1\<rparr>]) @ B @ l # C) (length (P @ [a\<lparr>range_e := s - 1\<rparr>])) (length B)
        = Some ((P @ [a\<lparr>range_e := s - 1\<rparr>]) @ l # C)"
        by (rule destroy_between_append)
      with True snoc fin [of "P @ [a\<lparr>range_e := s - 1\<rparr>]"] show ?thesis
        by (simp add: remove_across_def cut_first_def Let_def split: if_splits)
    next
      case False
      have "destroy_between (P @ (a # B) @ l # C) (length P) (length (a # B)) = Some (P @ l # C)"
        by (rule destroy_between_append)
      with False snoc fin [of P] show ?thesis
        by (simp add: remove_across_def cut_first_def Let_def split: if_splits)
    qed
  qed
qed

lemma remove_gap_split:
  assumes "\<forall>a\<in>set A. range_s a \<le> s" "\<forall>b\<in>set B. s < range_s b \<and> range_s b \<le> e"
    "\<forall>c\<in>set C. e < range_s c" "s \<le> e"
  shows "remove_gap (A @ B @ C) s e =
    (if B \<noteq> [] \<and> A \<noteq> [] \<and> range_s (last A) < s then {range_e (last A)<..<s} else {})"
proof -
  have "filter (\<lambda>a. range_s a \<le> s) A = A" using assms by simp
  moreover have "filter (\<lambda>a. range_s a \<le> s) B = []" using assms by (simp add: filter_empty_conv not_le)
  moreover have "filter (\<lambda>a. range_s a \<le> s) C = []"
    using assms by (auto simp: filter_empty_conv not_le intro: le_less_trans)
  moreover have "(\<exists>b\<in>set (A @ B @ C). s < range_s b \<and> range_s b \<le> e) \<longleftrightarrow> B \<noteq> []"
    using assms by (cases B) (auto simp: not_less not_le)
  ultimately show ?thesis by (simp add: remove_gap_def)
qed

lemma cut_first_correct:
  assumes wf: "ranges_wf A" and A: "\<forall>a\<in>set A. range_s a \<le> s \<and> range_e a \<le> e"
  shows "ranges_set (cut_first A s) = (ranges_set A - {s..e}) \<union>
      (if A \<noteq> [] \<and> range_s (last A) < s then {range_e (last A)<..<s} else {})"
    and "ranges_wf (cut_first A s)" and "\<forall>t\<in>set (cut_first A s). range_e t < s"
proof -
  have "ranges_set (cut_first A s) = (ranges_set A - {s..e}) \<union>
      (if A \<noteq> [] \<and> range_s (last A) < s then {range_e (last A)<..<s} else {}) \<and>
    ranges_wf (cut_first A s) \<and> (\<forall>t\<in>set (cut_first A s). range_e t < s)"
  proof (cases A rule: rev_cases)
    case Nil
    then show ?thesis by (simp add: cut_first_def)
  next
    case (snoc P a)
    have a: "range_s a \<le> s" "range_e a \<le> e" "range_s a \<le> range_e a" using A wf snoc by simp_all
    have P: "\<forall>p\<in>set P. range_e p < s"
      using wf snoc a(1) by (auto simp: apart_def intro: less_le_trans)
    have "{range_s p..range_e p} - {s..e} = {range_s p..range_e p}" if "p \<in> set P" for p
    proof -
      have "range_e p < s" using P that by blast
      then show ?thesis by (auto dest: le_less_trans)
    qed
    then have PD: "ranges_set P - {s..e} = ranges_set P"
      unfolding ranges_set_def by blast
    show ?thesis
    proof (cases "range_s a < s")
      case True
      have "({range_s a..range_e a} - {s..e}) \<union> {range_e a<..<s} = {range_s a..s - 1}"
      proof (cases "s \<le> range_e a")
        case le: True
        then have "{range_e a<..<s} = {}" by simp
        with le a(2) True show ?thesis
          by (simp add: Icc_Diff_lower Icc_Int_below word_Ico_eq)
      next
        case False
        then have "{range_s a..range_e a} \<inter> {..<s} = {range_s a..range_e a}"
          by (auto simp: not_le intro: le_less_trans)
        then have "({range_s a..range_e a} - {s..e}) \<union> {range_e a<..<s} = {range_s a..<s}"
          using a False by (simp add: Icc_Diff_lower ivl_disj_un not_le)
        with True show ?thesis by (simp add: word_Ico_eq)
      qed
      moreover have "s - 1 < s" "range_s a \<le> s - 1"
        using True word_dec_less word_le_dec by blast+
      moreover have "\<forall>p\<in>set P. apart p (a\<lparr>range_e := s - 1\<rparr>)"
        using wf snoc by (simp add: apart_def)
      ultimately show ?thesis
        using snoc True wf P PD by (simp add: cut_first_def Un_Diff Un_assoc)
    next
      case False
      then have "range_s a = s" using a by simp
      then have "{range_s a..range_e a} - {s..e} = {}"
        using a(2) by simp
      then have "ranges_set A - {s..e} = ranges_set P"
        by (simp only: snoc ranges_set_simps Un_Diff PD Un_empty_right)
      then show ?thesis
        using snoc False wf P by (simp add: cut_first_def)
    qed
  qed
  then show "ranges_set (cut_first A s) = (ranges_set A - {s..e}) \<union>
      (if A \<noteq> [] \<and> range_s (last A) < s then {range_e (last A)<..<s} else {})"
    and "ranges_wf (cut_first A s)" and "\<forall>t\<in>set (cut_first A s). range_e t < s"
    by blast+
qed

lemma remove_same_correct:
  assumes wf: "ranges_wf (A @ C)" and se: "s \<le> e"
    and A: "\<forall>a\<in>set A. range_s a \<le> s" and C: "\<forall>c\<in>set C. e < range_s c"
    and res: "remove_same mem (A @ C) (if A = [] then None else Some (length A - 1)) s e = (ys, rc)"
  shows "ranges_wf ys \<and> (rc = 0 \<longrightarrow> ranges_set ys = ranges_set (A @ C) - {s..e})
     \<and> (rc \<noteq> 0 \<longrightarrow> rc = - ENOMEM \<and> ys = A @ C \<and> \<not> mem)"
proof -
  have "{range_s c..range_e c} - {s..e} = {range_s c..range_e c}" if "c \<in> set C" for c
  proof -
    have "e < range_s c" using C that by blast
    then show ?thesis by (auto dest: less_le_trans)
  qed
  then have CD: "ranges_set C - {s..e} = ranges_set C"
    unfolding ranges_set_def by blast
  show ?thesis
  proof (cases A rule: rev_cases)
    case Nil
    with res CD wf show ?thesis by (auto simp: remove_same_def)
  next
    case (snoc P a)
    have a: "range_s a \<le> s" "range_s a \<le> range_e a" using A wf snoc by simp_all
    have P: "\<forall>p\<in>set P. range_e p < s"
      using wf snoc a(1) by (auto simp: apart_def intro: less_le_trans)
    have "{range_s p..range_e p} - {s..e} = {range_s p..range_e p}" if "p \<in> set P" for p
    proof -
      have "range_e p < s" using P that by blast
      then show ?thesis by (auto dest: le_less_trans)
    qed
    then have PD: "ranges_set P - {s..e} = ranges_set P"
      unfolding ranges_set_def by blast
    have Pa: "\<forall>p\<in>set P. apart p a" and wfP: "ranges_wf P" and wfC: "ranges_wf C"
      and aC: "\<forall>c\<in>set C. apart a c" and PC: "\<forall>p\<in>set P. \<forall>c\<in>set C. apart p c"
      using wf snoc by simp_all
    let ?r = "remove_same mem (P @ a # C) (Some (length P)) s e"
    have res': "?r = (ys, rc)" using res snoc by simp
    have setA: "ranges_set (A @ C) - {s..e} =
        ranges_set P \<union> ({range_s a..range_e a} - {s..e}) \<union> ranges_set C"
      using snoc by (simp only: ranges_set_simps Un_Diff PD CD) simp
    consider (below) "range_e a < s"
      | (split) "s \<le> range_e a" "range_s a < s" "e < range_e a"
      | (whole) "s \<le> range_e a" "range_s a = s" "range_e a \<le> e"
      | (front) "s \<le> range_e a" "range_s a = s" "e < range_e a"
      | (tail) "s \<le> range_e a" "range_s a < s" "range_e a \<le> e"
      using a(1) by (meson le_less not_le)
    then show ?thesis
    proof cases
      case below
      then have "{range_s a..range_e a} - {s..e} = {range_s a..range_e a}"
        by (auto dest: le_less_trans)
      moreover have "ys = P @ a # C" "rc = 0"
        using below res' by (simp_all add: remove_same_def)
      ultimately show ?thesis using wf snoc unfolding setA by (simp add: Un_assoc)
    next
      case split
      then have ene: "e \<noteq> - 1" by (simp add: word_less_not_max)
      have 1: "{range_s a..range_e a} - {s..e} = {range_s a..s - 1} \<union> {e + 1..range_e a}"
        using split se ene by (simp add: Icc_Diff_middle word_Ico_eq word_Ioc_eq)
      have 2: "range_s a \<le> s - 1" "s - 1 < s" "e < e + 1" "e + 1 \<le> range_e a"
        using split ene word_le_dec word_dec_less word_less_inc word_less_inc_le by blast+
      have 3: "apart (a\<lparr>range_e := s - 1\<rparr>) \<lparr>range_s = e + 1, range_e = range_e a\<rparr>"
        using 2 se by (auto simp: apart_def)
      have 4: "\<forall>p\<in>set P. apart p \<lparr>range_s = e + 1, range_e = range_e a\<rparr>"
      proof -
        have "range_s a \<le> e + 1" using 2 se a by order
        with Pa show ?thesis by (simp add: apart_mono [of _ a])
      qed
      have 5: "\<forall>c\<in>set C. apart (a\<lparr>range_e := s - 1\<rparr>) c"
        using C by (simp add: apart_mono [OF 3] word_less_inc_le)
      show ?thesis
      proof (cases mem)
        case True
        then have "ys = P @ a\<lparr>range_e := s - 1\<rparr> # \<lparr>range_s = e + 1, range_e = range_e a\<rparr> # C" "rc = 0"
          using split res' by (simp_all add: remove_same_def insert_range_append cmp_conv)
        moreover have "\<forall>p\<in>set P. apart p (a\<lparr>range_e := s - 1\<rparr>)"
          using Pa by (simp add: apart_def)
        moreover have "\<forall>c\<in>set C. apart \<lparr>range_s = e + 1, range_e = range_e a\<rparr> c"
          using aC by (simp add: apart_def)
        ultimately show ?thesis
          using wfP wfC PC 2 3 4 5 unfolding setA 1 by (simp add: Un_assoc)
      next
        case False
        with split res' wf snoc show ?thesis by (simp add: remove_same_def errno cmp_conv)
      qed
    next
      case whole
      then have "{range_s a..range_e a} - {s..e} = {}" by simp
      moreover have "ys = P @ C" "rc = 0"
        using whole res' by (simp_all add: remove_same_def cmp_conv)
      ultimately show ?thesis
        using wfP wfC PC unfolding setA by (simp only: Un_empty_right ranges_set_simps) simp
    next
      case front
      then have ene: "e \<noteq> - 1" by (simp add: word_less_not_max)
      have "{range_s a..range_e a} - {s..e} = {e + 1..range_e a}"
        using front se ene by (simp add: Icc_Diff_same word_Ioc_eq)
      moreover have "ys = P @ a\<lparr>range_s := e + 1\<rparr> # C" "rc = 0"
        using front res' by (simp_all add: remove_same_def cmp_conv)
      moreover have "e + 1 \<le> range_e a" "e < e + 1"
        using front ene word_less_inc word_less_inc_le by blast+
      moreover have "\<forall>p\<in>set P. apart p (a\<lparr>range_s := e + 1\<rparr>)"
      proof -
        have "range_s a \<le> e + 1" using calculation(5) front(2) se by order
        with Pa show ?thesis by (simp add: apart_mono [of _ a])
      qed
      moreover have "\<forall>c\<in>set C. apart (a\<lparr>range_s := e + 1\<rparr>) c"
        using aC by (simp add: apart_def)
      ultimately show ?thesis using wfP wfC PC unfolding setA by (simp add: Un_assoc)
    next
      case tail
      have "{range_s a..range_e a} - {s..e} = {range_s a..s - 1}"
        using tail by (simp add: Icc_Diff_lower Icc_Int_below word_Ico_eq)
      moreover have "ys = P @ a\<lparr>range_e := s - 1\<rparr> # C" "rc = 0"
        using tail res' by (simp_all add: remove_same_def cmp_conv)
      moreover have "range_s a \<le> s - 1" "s - 1 < s"
        using tail word_le_dec word_dec_less by blast+
      moreover have "\<forall>p\<in>set P. apart p (a\<lparr>range_e := s - 1\<rparr>)"
        using Pa by (simp add: apart_def)
      moreover have "\<forall>c\<in>set C. apart (a\<lparr>range_e := s - 1\<rparr>) c"
      proof -
        have "s - 1 < range_s c \<and> s - 1 + 1 \<noteq> range_s c" if "c \<in> set C" for c
        proof -
          have "e < range_s c" using C that by blast
          with se calculation(5) have "s - 1 < range_s c" "s < range_s c" by order+
          then show ?thesis by simp
        qed
        then show ?thesis by (simp add: apart_def)
      qed
      ultimately show ?thesis using wfP wfC PC unfolding setA by (simp add: Un_assoc)
    qed
  qed
qed

lemma remove_range_correct:
  assumes wf: "rangeset_wf r" and se: "s \<le> e" and e: "e \<noteq> - 1"
  obtains r' rc where "rangeset_remove_range 0 mem r s e = Some (r', rc)" "rangeset_wf r'"
    "rc = 0 \<longrightarrow> rangeset_set r' = (rangeset_set r - {s..e}) \<union> remove_gap (range_list r) s e"
    "rc \<noteq> 0 \<longrightarrow> rc = - ENOMEM \<and> r' = r \<and> \<not> mem"
proof -
  obtain A B C where xs: "range_list r = A @ B @ C" and A: "\<forall>a\<in>set A. range_s a \<le> s"
    and B: "\<forall>b\<in>set B. s < range_s b \<and> range_s b \<le> e" and C: "\<forall>c\<in>set C. e < range_s c"
    using ranges_split3 [OF _ se] wf unfolding rangeset_wf_def by blast
  note find = find_range_split3 [OF A B C se]
  note gap = remove_gap_split [OF A B C se]
  have wf': "ranges_wf (A @ B @ C)" using wf xs by (simp add: rangeset_wf_def)
  show ?thesis
  proof (cases B rule: rev_cases)
    case Nil
    obtain ys rc where res: "remove_same mem (A @ C) (if A = [] then None else Some (length A - 1)) s e = (ys, rc)"
      by fastforce
    from remove_same_correct [OF _ se A C res] wf' Nil
    have "ranges_wf ys \<and> (rc = 0 \<longrightarrow> ranges_set ys = ranges_set (A @ C) - {s..e})
     \<and> (rc \<noteq> 0 \<longrightarrow> rc = - ENOMEM \<and> ys = A @ C \<and> \<not> mem)" by simp
    moreover have "rangeset_remove_range 0 mem r s e = Some (r\<lparr>range_list := ys\<rparr>, rc)"
      using find xs res se Nil by (cases "A = []") (simp_all add: rangeset_remove_range_def)
    moreover have "rc \<noteq> 0 \<longrightarrow> r\<lparr>range_list := ys\<rparr> = r"
      using calculation(1) xs Nil by (simp add: range_list_same)
    ultimately show ?thesis
      using xs Nil gap by (intro that [of "r\<lparr>range_list := ys\<rparr>" rc])
        (simp_all add: rangeset_wf_def rangeset_set_def)
  next
    case (snoc B0 l)
    let ?ys = "cut_first A s @ cut_last l e @ C"
    have "remove_across (A @ B0 @ l # C) (if A = [] then None else Some (length A - 1))
        (Some (length A + length B0)) s e = Some (?ys, 0)"
      by (rule remove_across_eq) (use A B snoc in auto)
    moreover have "find_range (A @ B @ C) s \<noteq> find_range (A @ B @ C) e"
      unfolding find using snoc by (cases A) simp_all
    ultimately have run: "rangeset_remove_range 0 mem r s e = Some (r\<lparr>range_list := ?ys\<rparr>, 0)"
      using xs se find snoc
      by (cases "A = []") (simp_all add: rangeset_remove_range_def Let_def)
    have Ae: "\<forall>a\<in>set A. range_s a \<le> s \<and> range_e a \<le> e"
    proof
      fix a assume "a \<in> set A"
      then have "range_e a < range_s l" "range_s l \<le> e" "range_s a \<le> s"
        using wf' A B snoc by (simp_all add: apart_def)
      then show "range_s a \<le> s \<and> range_e a \<le> e" by auto
    qed
    note first = cut_first_correct [OF _ Ae]
    note last = cut_last_correct [OF _ e B [unfolded snoc]]
    have wfA: "ranges_wf A" and wfB: "ranges_wf (B0 @ [l])" and wfC: "ranges_wf C"
      using wf' snoc by simp_all
    have lC: "\<forall>c\<in>set C. apart l c" using wf' snoc by simp
    have CD: "ranges_set C - {s..e} = ranges_set C"
    proof -
      have "{range_s c..range_e c} - {s..e} = {range_s c..range_e c}" if "c \<in> set C" for c
      proof -
        have "e < range_s c" using C that by blast
        then show ?thesis by (auto dest: less_le_trans)
      qed
      then show ?thesis unfolding ranges_set_def by blast
    qed
    have below: "apart t u" if "range_e t < s" "e < range_s u" for t u
    proof -
      have "range_e t + 1 \<le> s" using that(1) by (rule word_less_inc_le)
      with that se show ?thesis by (auto simp: apart_def)
    qed
    have up: "e < e + 1" using e by (rule word_less_inc)
    have "\<forall>t\<in>set (cut_first A s). \<forall>u\<in>set (cut_last l e). apart t u"
      using first(3) [OF wfA] last(3) [OF wfB] up by (simp add: below)
    moreover have "\<forall>t\<in>set (cut_first A s). \<forall>c\<in>set C. apart t c"
      using first(3) [OF wfA] C by (simp add: below)
    moreover have "\<forall>t\<in>set (cut_last l e). \<forall>c\<in>set C. apart t c"
      using last(3) [OF wfB] lC by (simp add: apart_def)
    ultimately have "ranges_wf ?ys"
      using first(2) [OF wfA] last(2) [OF wfB] wfC by auto
    moreover have "ranges_set ?ys = (ranges_set (A @ B @ C) - {s..e}) \<union> remove_gap (A @ B @ C) s e"
      using first(1) [OF wfA] last(1) [OF wfB] CD snoc unfolding gap
      by (simp add: Un_Diff Un_ac)
    ultimately show ?thesis
      using run xs by (intro that [of "r\<lparr>range_list := ?ys\<rparr>" 0])
        (simp_all add: rangeset_wf_def rangeset_set_def)
  qed
qed

lemma remove_gap_empty:
  assumes wf: "rangeset_wf r" and s: "s \<in> rangeset_set r"
  shows "remove_gap (range_list r) s e = {}"
proof -
  obtain A D where xs: "range_list r = A @ D" and A: "\<forall>a\<in>set A. range_s a \<le> s"
    and D: "\<forall>d\<in>set D. s < range_s d"
    using ranges_split wf unfolding rangeset_wf_def by blast
  have "filter (\<lambda>a. range_s a \<le> s) (A @ D) = A"
    using A D by (simp add: filter_empty_conv not_le)
  moreover have "s \<le> range_e (last A)" if "A \<noteq> []"
  proof -
    have "s \<notin> ranges_set D" using D by (auto simp: ranges_set_def)
    with s xs obtain a where a: "a \<in> set A" "s \<le> range_e a"
      by (auto simp: rangeset_set_def ranges_set_def)
    moreover have "ranges_wf A" using wf xs by (simp add: rangeset_wf_def)
    ultimately show ?thesis by (blast intro: order_trans last_range_e)
  qed
  ultimately show ?thesis using xs by (simp add: remove_gap_def)
qed


lemma report_loop_collect:
  "report_loop (P @ Q) (if Q = [] then None else Some (length P)) s e collect 0 c =
   (0, c @ map (clip s e) (filter (\<lambda>a. s \<le> range_e a) (takeWhile (\<lambda>a. range_s a \<le> e) Q)))"
proof (induction Q arbitrary: P c)
  case (Cons a Q)
  have IH: "report_loop (P @ a # Q) (next_range (P @ a # Q) (length P)) s e collect 0 c' =
   (0, c' @ map (clip s e) (filter (\<lambda>a. s \<le> range_e a) (takeWhile (\<lambda>a. range_s a \<le> e) Q)))" for c'
    using Cons.IH [of "P @ [a]" c'] by (cases "Q = []") simp_all
  have cb: "collect (max (range_s a) s) (min (range_e a) e) c = (0, c @ [clip s e a])"
    by (simp add: collect_def clip_def)
  show ?case
    by (simp add: report_loop.simps(2) [of _ "length P"] cb IH del: next_range_append)
qed simp

lemma report_ranges_eq:
  assumes wf: "rangeset_wf r" and se: "s \<le> e"
  shows "rangeset_report_ranges r s e collect [] =
    (0, if \<exists>a\<in>set (range_list r). range_s a \<le> s
        then map (clip s e) (filter (\<lambda>a. range_s a \<le> e \<and> s \<le> range_e a) (range_list r)) else [])"
proof -
  obtain A B C where xs: "range_list r = A @ B @ C" and A: "\<forall>a\<in>set A. range_s a \<le> s"
    and B: "\<forall>b\<in>set B. s < range_s b \<and> range_s b \<le> e" and C: "\<forall>c\<in>set C. e < range_s c"
    using ranges_split3 [OF _ se] wf unfolding rangeset_wf_def by blast
  note find = find_range_split3(1) [OF A B C se]
  show ?thesis
  proof (cases A rule: rev_cases)
    case Nil
    then have "\<not> (\<exists>a\<in>set (range_list r). range_s a \<le> s)"
      using B C se xs by (auto simp: not_le intro: le_less_trans)
    with Nil find xs show ?thesis by (simp add: rangeset_report_ranges_def)
  next
    case (snoc P a)
    have below: "\<forall>p\<in>set P. range_e p < s"
      using wf A snoc xs by (auto simp: rangeset_wf_def apart_def intro: less_le_trans)
    have "filter (\<lambda>a. range_s a \<le> e \<and> s \<le> range_e a) P = []"
      using below by (simp add: filter_empty_conv cmp_conv)
    moreover have "filter (\<lambda>a. range_s a \<le> e \<and> s \<le> range_e a) C = []"
      using C by (simp add: filter_empty_conv cmp_conv)
    moreover have "takeWhile (\<lambda>a. range_s a \<le> e) (a # B @ C) = a # B"
    proof -
      have "\<forall>x\<in>set (a # B). range_s x \<le> e" using A B se snoc by (auto intro: order_trans)
      then have "takeWhile (\<lambda>a. range_s a \<le> e) ((a # B) @ C) = (a # B) @ takeWhile (\<lambda>a. range_s a \<le> e) C"
        by (intro takeWhile_append2) blast
      moreover have "takeWhile (\<lambda>a. range_s a \<le> e) C = []"
        using C by (cases C) (auto simp: cmp_conv)
      ultimately show ?thesis by simp
    qed
    moreover have "filter (\<lambda>a. range_s a \<le> e \<and> s \<le> range_e a) B = filter (\<lambda>a. s \<le> range_e a) B"
      using B by (intro filter_cong) auto
    moreover have "range_s a \<le> e"
      using A se snoc by (auto intro: order_trans)
    ultimately show ?thesis
      using report_loop_collect [of P "a # B @ C" s e "[]"] find xs snoc A
      by (simp add: rangeset_report_ranges_def)
  qed
qed


lemma clip_union:
  assumes "s \<le> e"
  shows "(\<Union>(a, b)\<in>set (map (clip s e) (filter (\<lambda>a. range_s a \<le> e \<and> s \<le> range_e a) xs)). {a..b})
    = ranges_set xs \<inter> {s..e}"
proof (induction xs)
  case (Cons x xs)
  have "{max (range_s x) s..min (range_e x) e} = {range_s x..range_e x} \<inter> {s..e}"
    by (simp add: max.commute Int_atLeastAtMost)
  moreover have "{range_s x..range_e x} \<inter> {s..e} = {}" if "\<not> (range_s x \<le> e \<and> s \<le> range_e x)"
    using that by auto
  ultimately show ?case using Cons by (auto simp: clip_def)
qed simp

lemma domain_destroy_loop_correct:
  assumes "rs_store_wf st" "rs_lists st d = ps"
  shows "\<exists>st'. domain_destroy_loop d ps st = Some st' \<and> rs_store_wf st' \<and>
    rs_heap st' = (\<lambda>p. if p \<in> set ps then None else rs_heap st p) \<and>
    rs_lists st' = (rs_lists st)(d := [])"
  using assms
proof (induction ps arbitrary: st)
  case Nil
  then have "rs_lists st = (rs_lists st)(d := [])" by auto
  with Nil show ?case by simp
next
  case (Cons p ps)
  have p: "p \<notin> set ps" using Cons.prems by (force simp: rs_store_wf_def dest: spec [of _ d])
  have "p \<in> set (rs_lists st d)" using Cons.prems(2) by simp
  then obtain r where r: "rs_heap st p = Some r" "rs_domain r = Some d"
    using Cons.prems(1) unfolding rs_store_wf_def by blast
  let ?st = "st\<lparr>rs_lists := (rs_lists st)(d := ps), rs_heap := (rs_heap st)(p := None)\<rparr>"
  have "rs_store_wf ?st"
    unfolding rs_store_wf_def
  proof (intro conjI allI impI)
    fix d' show "distinct (rs_lists ?st d')"
      using Cons.prems by (force simp: rs_store_wf_def dest: spec [of _ d])
    fix p'
    show "p' \<in> set (rs_lists ?st d') \<longleftrightarrow> (\<exists>r. rs_heap ?st p' = Some r \<and> rs_domain r = Some d')"
    proof -
      have "p' \<in> set (rs_lists st d') \<longleftrightarrow> (\<exists>r. rs_heap st p' = Some r \<and> rs_domain r = Some d')"
        using Cons.prems(1) unfolding rs_store_wf_def by blast
      then show ?thesis using r p Cons.prems(2) by (cases "d' = d"; cases "p' = p"; auto)
    qed
  next
    fix p' r' assume "rs_heap ?st p' = Some r'"
    then have "rs_heap st p' = Some r'" by (cases "p' = p") auto
    then show "rangeset_wf r'" using Cons.prems(1) unfolding rs_store_wf_def by blast
  qed
  then have "\<exists>st'. domain_destroy_loop d ps ?st = Some st' \<and> rs_store_wf st' \<and>
    rs_heap st' = (\<lambda>p. if p \<in> set ps then None else rs_heap ?st p) \<and>
    rs_lists st' = (rs_lists ?st)(d := [])"
    by (rule Cons.IH) simp
  then obtain st' where st': "domain_destroy_loop d ps ?st = Some st'"
    "rs_store_wf st'" "rs_heap st' = (\<lambda>p'. if p' \<in> set ps then None else rs_heap ?st p')"
    "rs_lists st' = (rs_lists ?st)(d := [])"
    by blast
  have "domain_destroy_loop d (p # ps) st = domain_destroy_loop d ps ?st"
    using r by (simp add: rangeset_destroy_def)
  with st' show ?case by (auto simp: fun_eq_iff)
qed

lemma rangeset_new_wf:
  assumes "rs_store_wf st" "rs_heap st p = None" "flags AND NOT RANGESETF_prettyprint_hex = 0"
  shows "\<exists>st'. rangeset_new (Some p) st d name flags = Some (st', Some p) \<and> rs_store_wf st' \<and>
    (\<exists>r. rs_heap st' p = Some r \<and> rangeset_set r = {} \<and> length (rs_name r) < 32)"
proof -
  let ?r = "\<lparr>rs_domain = d, range_list = [],
    rs_name = (case name of Some n \<Rightarrow> take 31 n | None \<Rightarrow> ''(no name)''), rs_flags = flags\<rparr>"
  let ?st = "st\<lparr>rs_heap := (rs_heap st)(p \<mapsto> ?r),
    rs_lists := (case d of None \<Rightarrow> rs_lists st | Some dm \<Rightarrow> (rs_lists st)(dm := p # rs_lists st dm))\<rparr>"
  have fresh: "p \<notin> set (rs_lists st d')" for d'
    using assms(1,2) by (auto simp: rs_store_wf_def)
  have "rs_store_wf ?st"
    unfolding rs_store_wf_def
  proof (intro conjI allI impI)
    fix d' show "distinct (rs_lists ?st d')"
      using assms(1) fresh by (auto simp: rs_store_wf_def split: option.split)
    fix p'
    show "p' \<in> set (rs_lists ?st d') \<longleftrightarrow> (\<exists>r. rs_heap ?st p' = Some r \<and> rs_domain r = Some d')"
    proof -
      have "p' \<in> set (rs_lists st d') \<longleftrightarrow> (\<exists>r. rs_heap st p' = Some r \<and> rs_domain r = Some d')"
        using assms(1) unfolding rs_store_wf_def by blast
      then show ?thesis using fresh by (cases "p' = p") (auto split: option.split)
    qed
  next
    fix p' r' assume "rs_heap ?st p' = Some r'"
    then show "rangeset_wf r'"
      using assms(1) unfolding rs_store_wf_def by (auto simp: rangeset_wf_def split: if_splits)
  qed
  moreover have "rangeset_new (Some p) st d name flags = Some (?st, Some p)"
    using assms(3) by (simp add: rangeset_new_def)
  moreover have "length (rs_name ?r) < 32" by (auto simp: min_def split: option.split)
  ultimately show ?thesis by (auto simp: rangeset_set_def)
qed

section \<open>The interface to the users of a capability set\<close>

text \<open>
  What \<^verbatim>\<open>iocap.h\<close> relies on: a set of numbers to which intervals are added, from which
  single numbers are removed, and which answers whether an interval is contained.
  \<open>None\<close> is a crash, a non-zero second component an error code.
\<close>

locale capability_set =
  fixes add :: "'c \<Rightarrow> ulong \<Rightarrow> ulong \<Rightarrow> ('c \<times> int) option"
    and remove :: "'c \<Rightarrow> ulong \<Rightarrow> ulong \<Rightarrow> ('c \<times> int) option"
    and contains :: "'c \<Rightarrow> ulong \<Rightarrow> ulong \<Rightarrow> bool option"
    and elems :: "'c \<Rightarrow> ulong set"
    and invar :: "'c \<Rightarrow> bool"
  assumes add_law: "invar c \<Longrightarrow> s \<le> e \<Longrightarrow> \<exists>c' rc. add c s e = Some (c', rc) \<and> invar c' \<and>
      (rc = 0 \<longrightarrow> elems c' = elems c \<union> {s..e}) \<and> (rc \<noteq> 0 \<longrightarrow> c' = c)"
    and remove_law: "invar c \<Longrightarrow> \<exists>c' rc. remove c s s = Some (c', rc) \<and> invar c' \<and>
      (rc = 0 \<longrightarrow> elems c' = elems c - {s}) \<and> (rc \<noteq> 0 \<longrightarrow> c' = c)"
    and contains_law: "invar c \<Longrightarrow> s \<le> e \<Longrightarrow> contains c s e = Some ({s..e} \<subseteq> elems c)"
begin

text \<open>The laws in the form of facts about a call that returned.\<close>

lemma add_result:
  assumes "invar c" "s \<le> e" "add c s e = Some (c', rc)"
  shows "invar c'" and "rc = 0 \<Longrightarrow> elems c' = elems c \<union> {s..e}" and "rc \<noteq> 0 \<Longrightarrow> c' = c"
  using add_law [OF assms(1,2)] assms(3) by auto

lemma remove_result:
  assumes "invar c" "remove c s s = Some (c', rc)"
  shows "invar c'" and "rc = 0 \<Longrightarrow> elems c' = elems c - {s}" and "rc \<noteq> 0 \<Longrightarrow> c' = c"
  using remove_law [OF assms(1), of s] assms(2) by auto

lemma contains_one: "invar c \<Longrightarrow> contains c i i = Some (i \<in> elems c)"
  by (simp add: contains_law)

text \<open>A grant makes exactly its interval accessible, a refused one changes nothing.\<close>

lemma granted:
  assumes "invar c" "s \<le> e" "add c s e = Some (c', rc)"
  shows "contains c' i i = Some ((rc = 0 \<and> i \<in> {s..e}) \<or> i \<in> elems c)"
  using add_result [OF assms] by (cases "rc = 0") (auto simp: contains_one)

lemma revoked:
  assumes "invar c" "remove c s s = Some (c', rc)"
  shows "contains c' i i = Some (\<not> (rc = 0 \<and> i = s) \<and> i \<in> elems c)"
  using remove_result [OF assms] by (cases "rc = 0") (auto simp: contains_one)

lemma granted_then_revoked:
  assumes "invar c" "s \<notin> elems c" "add c s s = Some (c', 0)" "remove c' s s = Some (c'', 0)"
  shows "elems c'' = elems c"
  using add_result [OF assms(1) order_refl assms(3)] remove_result [OF _ assms(4)] assms(2)
  by auto

end

lemma remove_singleton_correct:
  assumes wf: "rangeset_wf r"
  shows "\<exists>r' rc. rangeset_remove_range 0 mem r s s = Some (r', rc) \<and> rangeset_wf r' \<and>
    (rc = 0 \<longrightarrow> rangeset_set r' = rangeset_set r - {s}) \<and>
    (rc \<noteq> 0 \<longrightarrow> rc = - ENOMEM \<and> r' = r \<and> \<not> mem)"
proof -
  obtain A C where xs: "range_list r = A @ C" and A: "\<forall>a\<in>set A. range_s a \<le> s"
    and C: "\<forall>d\<in>set C. s < range_s d"
    using ranges_split wf unfolding rangeset_wf_def by blast
  obtain ys rc where res: "remove_same mem (A @ C) (if A = [] then None else Some (length A - 1)) s s = (ys, rc)"
    by fastforce
  have "ranges_wf ys \<and> (rc = 0 \<longrightarrow> ranges_set ys = ranges_set (A @ C) - {s..s})
     \<and> (rc \<noteq> 0 \<longrightarrow> rc = - ENOMEM \<and> ys = A @ C \<and> \<not> mem)"
    using remove_same_correct [OF _ order_refl A C res] wf xs by (simp add: rangeset_wf_def)
  moreover have "rangeset_remove_range 0 mem r s s = Some (r\<lparr>range_list := ys\<rparr>, rc)"
    using find_range_split [OF A C] xs res
    by (cases "A = []") (simp_all add: rangeset_remove_range_def)
  ultimately show ?thesis
    using xs by (auto simp: rangeset_wf_def rangeset_set_def range_list_same)
qed

interpretation caps: capability_set "rangeset_add_range 0 mem" "rangeset_remove_range 0 mem"
    rangeset_contains_range rangeset_set rangeset_wf for mem
proof
  fix c :: rangeset and s e :: ulong
  assume "rangeset_wf c" "s \<le> e"
  then show "\<exists>c' rc. rangeset_add_range 0 mem c s e = Some (c', rc) \<and> rangeset_wf c' \<and>
      (rc = 0 \<longrightarrow> rangeset_set c' = rangeset_set c \<union> {s..e}) \<and> (rc \<noteq> 0 \<longrightarrow> c' = c)"
    by (rule add_range_correct [of c s e mem]) auto
next
  fix c s assume "rangeset_wf c"
  then show "\<exists>c' rc. rangeset_remove_range 0 mem c s s = Some (c', rc) \<and> rangeset_wf c' \<and>
      (rc = 0 \<longrightarrow> rangeset_set c' = rangeset_set c - {s}) \<and> (rc \<noteq> 0 \<longrightarrow> c' = c)"
    using remove_singleton_correct [of c mem s] by blast
next
  fix c :: rangeset and s e :: ulong
  assume "rangeset_wf c" "s \<le> e"
  then show "rangeset_contains_range c s e = Some ({s..e} \<subseteq> rangeset_set c)"
    by (rule contains_range_correct)
qed

section \<open>Properties\<close>

lemma two_ranges_wf: "rangeset_wf two_ranges"
  by (simp add: two_ranges_def rangeset_wf_def apart_def)

text \<open>
  C17: \<^verbatim>\<open>rangeset_add_range\<close> never crashes on a well-formed set, keeps it well formed
  (sorted, disjoint, no two adjacent ranges), and on success the set is the old one
  together with all of \<open>[s, e]\<close>; it fails only with \<open>-ENOMEM\<close> when no memory is left, and
  then changes nothing.
\<close>

theorem rangeset_add_range_spec:
  assumes "rangeset_wf r" and "s \<le> e"
  shows "case rangeset_add_range 0 mem r s e of
      None \<Rightarrow> False
    | Some (r', rc) \<Rightarrow> rangeset_wf r' \<and>
        (if rc = 0 then rangeset_set r' = rangeset_set r \<union> {s..e}
         else rc = - ENOMEM \<and> r' = r \<and> \<not> mem)"
  using assms by (rule add_range_correct [of r s e mem]) auto

theorem rangeset_add_range_spec_witness:
  "case rangeset_add_range 0 True two_ranges 2 6 of
      None \<Rightarrow> False
    | Some (r', rc) \<Rightarrow> rangeset_wf r' \<and>
        (if rc = 0 then rangeset_set r' = rangeset_set two_ranges \<union> {2..6}
         else rc = - ENOMEM \<and> r' = two_ranges \<and> \<not> True)"
  by (rule rangeset_add_range_spec [OF two_ranges_wf]) simp

text \<open>
  C19: \<^verbatim>\<open>rangeset_contains_range\<close> answers exactly whether every number of \<open>[s, e]\<close> is in
  the set, although it looks at a single range: adjacent ranges are always merged.
\<close>

theorem rangeset_contains_range_spec:
  assumes "rangeset_wf r" and "s \<le> e"
  shows "rangeset_contains_range r s e = Some ({s..e} \<subseteq> rangeset_set r)"
  using assms by (rule caps.contains_law)

theorem rangeset_contains_range_spec_witness:
  "rangeset_contains_range two_ranges 5 7 = Some ({5..7} \<subseteq> rangeset_set two_ranges)"
  by (rule rangeset_contains_range_spec [OF two_ranges_wf]) simp

text \<open>
  C21: removing an interval that starts inside the set removes exactly that interval,
  whatever ranges it crosses, as long as it does not end at the largest number.
\<close>

theorem rangeset_remove_range_spec:
  assumes "rangeset_wf r" and "s \<le> e" and "e \<noteq> - 1" and "s \<in> rangeset_set r"
  shows "case rangeset_remove_range 0 mem r s e of
      None \<Rightarrow> False
    | Some (r', rc) \<Rightarrow> rangeset_wf r' \<and>
        (if rc = 0 then rangeset_set r' = rangeset_set r - {s..e}
         else rc = - ENOMEM \<and> r' = r \<and> \<not> mem)"
  by (rule remove_range_correct [OF assms(1-3), of mem])
     (simp add: remove_gap_empty [OF assms(1,4)])

theorem rangeset_remove_range_spec_witness:
  "case rangeset_remove_range 0 True two_ranges 1 6 of
      None \<Rightarrow> False
    | Some (r', rc) \<Rightarrow> rangeset_wf r' \<and>
        (if rc = 0 then rangeset_set r' = rangeset_set two_ranges - {1..6}
         else rc = - ENOMEM \<and> r' = two_ranges \<and> \<not> True)"
  by (rule rangeset_remove_range_spec [OF two_ranges_wf])
     (simp_all add: two_ranges_def rangeset_set_def)

text \<open>
  C34: for every interval that does not end at the largest number (where \<open>e + 1\<close> wraps around, as
  \<open>rangeset_remove_range_grows\<close> shows), the removal may \<^emph>\<open>add\<close> numbers: the result is the intended set
  together with \<open>remove_gap\<close>.  The gap arises when \<open>s\<close> lies in a hole and the interval
  reaches the next range; the range below the hole is then extended up to \<open>s - 1\<close>.
\<close>

theorem rangeset_remove_range_exact:
  assumes "rangeset_wf r" and "s \<le> e" and "e \<noteq> - 1"
  shows "case rangeset_remove_range 0 mem r s e of
      None \<Rightarrow> False
    | Some (r', rc) \<Rightarrow> rangeset_wf r' \<and>
        (if rc = 0
         then rangeset_set r' = (rangeset_set r - {s..e}) \<union> remove_gap (range_list r) s e
         else rc = - ENOMEM \<and> r' = r \<and> \<not> mem)"
  by (rule remove_range_correct [OF assms(1-3), of mem]) simp

theorem rangeset_remove_range_exact_witness:
  "case rangeset_remove_range 0 True two_ranges 4 6 of
      None \<Rightarrow> False
    | Some (r', rc) \<Rightarrow> rangeset_wf r' \<and>
        (if rc = 0
         then rangeset_set r' = (rangeset_set two_ranges - {4..6}) \<union> remove_gap (range_list two_ranges) 4 6
         else rc = - ENOMEM \<and> r' = two_ranges \<and> \<not> True)"
  by (rule rangeset_remove_range_exact [OF two_ranges_wf]) simp_all

text \<open>
  Two removals that leave the set with numbers it must not have.  Removing \<open>[4,6]\<close>
  from \<open>{0,1,5,6,7,8}\<close> adds 2 and 3; removing everything from 1 upwards, with the
  largest number as the end, wraps the start of the last range to 0 and leaves all of
  \<open>[0,8]\<close> in the set.
\<close>

theorem rangeset_remove_range_grows:
  "(\<exists>r'. rangeset_remove_range 0 True two_ranges 4 6 = Some (r', 0) \<and>
      2 \<in> rangeset_set r' \<and> 3 \<in> rangeset_set r' \<and>
      2 \<notin> rangeset_set two_ranges \<and> 3 \<notin> rangeset_set two_ranges) \<and>
   (\<exists>r'. rangeset_remove_range 0 True two_ranges 1 (- 1) = Some (r', 0) \<and>
      {0..8} \<subseteq> rangeset_set r')"
proof
  show "\<exists>r'. rangeset_remove_range 0 True two_ranges 4 6 = Some (r', 0) \<and>
      2 \<in> rangeset_set r' \<and> 3 \<in> rangeset_set r' \<and>
      2 \<notin> rangeset_set two_ranges \<and> 3 \<notin> rangeset_set two_ranges"
    by (simp add: two_ranges_def rangeset_remove_range_def find_range_def remove_across_def
        first_range_def next_range_def set_e_def set_s_def destroy_range_def rangeset_set_def
        word_le_nat_alt)
  show "\<exists>r'. rangeset_remove_range 0 True two_ranges 1 (- 1) = Some (r', 0) \<and>
      {0..8} \<subseteq> rangeset_set r'"
    by (simp add: two_ranges_def rangeset_remove_range_def find_range_def remove_across_def
        first_range_def next_range_def set_e_def set_s_def destroy_range_def rangeset_set_def
        subset_insertI)
qed

text \<open>
  \<^verbatim>\<open>rangeset_report_ranges\<close> hands to its callback exactly the part of the set
  inside \<open>[s, e]\<close>, provided some range starts at or below \<open>s\<close>; otherwise it reports
  nothing at all, even where the set meets \<open>[s, e]\<close>.
\<close>

theorem rangeset_report_ranges_spec:
  assumes "rangeset_wf r" and "s \<le> e"
  shows "\<exists>out. rangeset_report_ranges r s e collect [] = (0, out) \<and>
    (\<Union>(a, b)\<in>set out. {a..b}) =
      (if \<exists>a\<in>set (range_list r). range_s a \<le> s then rangeset_set r \<inter> {s..e} else {})"
  using report_ranges_eq [OF assms] clip_union [OF assms(2), of "range_list r"]
  by (auto simp: rangeset_set_def)

theorem rangeset_report_ranges_spec_witness:
  "\<exists>out. rangeset_report_ranges two_ranges 1 6 collect [] = (0, out) \<and>
    (\<Union>(a, b)\<in>set out. {a..b}) =
      (if \<exists>a\<in>set (range_list two_ranges). range_s a \<le> 1 then rangeset_set two_ranges \<inter> {1..6} else {})"
  by (rule rangeset_report_ranges_spec [OF two_ranges_wf]) simp

text \<open>
  \<^verbatim>\<open>rangeset_domain_destroy\<close> returns without hitting its \<^verbatim>\<open>BUG_ON\<close>, frees every
  rangeset of the domain and no other, and leaves an empty list.
\<close>

theorem rangeset_domain_destroy_frees:
  assumes "rs_store_wf st"
  shows "\<exists>st'. rangeset_domain_destroy st d = Some st' \<and> rs_store_wf st' \<and>
    rs_heap st' = (\<lambda>p. if p \<in> set (rs_lists st d) then None else rs_heap st p) \<and>
    rs_lists st' = (rs_lists st)(d := [])"
  unfolding rangeset_domain_destroy_def
  using domain_destroy_loop_correct [OF assms refl] by blast

lemma one_store_wf: "rs_store_wf one_store"
  using two_ranges_wf by (auto simp: rs_store_wf_def one_store_def two_ranges_def split: if_splits)

theorem rangeset_domain_destroy_frees_witness:
  "\<exists>st'. rangeset_domain_destroy one_store 1 = Some st' \<and> rs_store_wf st' \<and>
    rs_heap st' = (\<lambda>p. if p \<in> set (rs_lists one_store 1) then None else rs_heap one_store p) \<and>
    rs_lists st' = (rs_lists one_store)(1 := [])"
  by (rule rangeset_domain_destroy_frees [OF one_store_wf])

text \<open>
  C26: the I/O capabilities of a domain.  Granting an interrupt makes exactly that
  interrupt accessible, revoking it makes exactly it inaccessible, and an operation that
  fails for lack of memory changes no access right.
\<close>

theorem irq_caps_grant_revoke:
  assumes "rangeset_wf caps"
  shows "(case irq_permit_access 0 mem caps i of
           None \<Rightarrow> False
         | Some (c, rc) \<Rightarrow>
             \<forall>j. irq_access_permitted c j = Some ((rc = 0 \<and> j = i) \<or> j \<in> rangeset_set caps)) \<and>
    (case irq_deny_access 0 mem caps i of
           None \<Rightarrow> False
         | Some (c, rc) \<Rightarrow>
             \<forall>j. irq_access_permitted c j = Some (\<not> (rc = 0 \<and> j = i) \<and> j \<in> rangeset_set caps))"
  using caps.add_law [OF assms order_refl, of mem i] caps.granted [OF assms order_refl, of mem i]
    caps.remove_law [OF assms, of mem i] caps.revoked [OF assms, of mem i]
  by (auto simp: irq_permit_access_def irq_deny_access_def irq_access_permitted_def
      rangeset_add_singleton_def rangeset_remove_singleton_def rangeset_contains_singleton_def)

theorem irq_caps_grant_revoke_witness:
  "(case irq_permit_access 0 True two_ranges 3 of
           None \<Rightarrow> False
         | Some (c, rc) \<Rightarrow>
             \<forall>j. irq_access_permitted c j = Some ((rc = 0 \<and> j = 3) \<or> j \<in> rangeset_set two_ranges)) \<and>
    (case irq_deny_access 0 True two_ranges 3 of
           None \<Rightarrow> False
         | Some (c, rc) \<Rightarrow>
             \<forall>j. irq_access_permitted c j = Some (\<not> (rc = 0 \<and> j = 3) \<and> j \<in> rangeset_set two_ranges))"
  by (rule irq_caps_grant_revoke [OF two_ranges_wf])

end
