(* ===== verification/Domain_State.thy ===== *)
theory Domain_State
  imports Rangeset
begin

text \<open>
  The part of \<^verbatim>\<open>struct domain\<close> and \<^verbatim>\<open>struct vcpu\<close> (\<^verbatim>\<open>xen/include/xen/sched.h\<close>) that
  event channels, polling and the virtual-interrupt code use, and the operations that wake a
  virtual CPU (\<^verbatim>\<open>xen/common/schedule.c\<close>, \<^verbatim>\<open>xen/arch/x86/domain.c\<close>).

  A \<^verbatim>\<open>struct domain *\<close> is the number of the domain; the hypervisor state is a partial map
  from these numbers to records, so a dangling domain pointer is a lookup that fails.  A
  \<^verbatim>\<open>struct vcpu *\<close> is the pair of its domain and its index in \<^verbatim>\<open>d->vcpu[]\<close>.  Bitmaps are
  sets of bit numbers.  \<open>pirq_bound\<close> is the set of physical interrupts that the interrupt
  layer (\<^verbatim>\<open>xen/arch/x86/irq.c\<close>) delivers to the domain: \<^verbatim>\<open>pirq_guest_bind\<close> adds one,
  \<^verbatim>\<open>pirq_guest_unbind\<close> removes it.  The union inside \<^verbatim>\<open>struct evtchn\<close> is part of the constructor of its
  tag.  A slot of the bucket array is a null pointer, a live bucket, or a pointer to memory that
  has been freed; dereferencing the last crashes.
\<close>

section \<open>Event channels, virtual CPUs and domains\<close>

type_synonym domid = nat

datatype ecs =
    ECS_FREE
  | ECS_RESERVED
  | ECS_UNBOUND domid
  | ECS_INTERDOMAIN domid nat
  | ECS_PIRQ nat
  | ECS_VIRQ nat
  | ECS_IPI

record evtchn =
  state :: ecs
  consumer_is_xen :: bool
  notify_vcpu_id :: nat

datatype bucket = Null_bucket | Bucket "evtchn list" | Freed_bucket

definition EVTCHNS_PER_BUCKET :: nat where "EVTCHNS_PER_BUCKET = 128"
definition NR_EVTCHN_BUCKETS :: nat where "NR_EVTCHN_BUCKETS = 32"
definition NR_VIRQS :: nat where "NR_VIRQS = 24"
definition DOMID_SELF :: domid where "DOMID_SELF = 0x7FF0"
definition MAX_VIRT_CPUS :: nat where "MAX_VIRT_CPUS = 8192"

datatype runstate = RUNSTATE_running | RUNSTATE_runnable | RUNSTATE_blocked | RUNSTATE_offline

definition VPF_blocked :: nat where "VPF_blocked = 0"
definition VPF_down :: nat where "VPF_down = 1"
definition VPF_blocked_in_xen :: nat where "VPF_blocked_in_xen = 2"
definition VPF_migrating :: nat where "VPF_migrating = 3"

record vcpu =
  evtchn_upcall_pending :: bool
  evtchn_upcall_mask :: bool
  evtchn_pending_sel :: "nat set"
  poll_evtchn :: int
  pause_flags :: "nat set"
  vcpu_pause_count :: nat
  runstate :: runstate
  virq_to_evtchn :: "nat list"

datatype dying = DOMDYING_alive | DOMDYING_dying | DOMDYING_dead

record domain =
  evtchn :: "bucket list"
  has_32bit_shinfo :: bool
  evtchn_pending :: "nat set"
  evtchn_mask :: "nat set"
  vcpu :: "vcpu option list"
  nr_pirqs :: nat
  pirq_to_evtchn :: "nat list"
  pirq_bound :: "nat set"
  irq_caps :: rangeset
  is_hvm :: bool
  is_hvm_pv_evtchn :: bool
  is_privileged :: bool
  target :: "domid option"
  is_dying :: dying
  poll_mask :: "nat set"
  domain_pause_count :: nat

type_synonym hyp = "domid \<Rightarrow> domain option"

definition max_vcpus :: "domain \<Rightarrow> nat" where
  "max_vcpus d = length (vcpu d)"

definition BITS_PER_EVTCHN_WORD :: "domain \<Rightarrow> nat" where
  "BITS_PER_EVTCHN_WORD d = (if has_32bit_shinfo d then 32 else 64)"

definition MAX_EVTCHNS :: "domain \<Rightarrow> nat" where
  "MAX_EVTCHNS d = BITS_PER_EVTCHN_WORD d * BITS_PER_EVTCHN_WORD d"

text \<open>\<^verbatim>\<open>d->vcpu[k]\<close>, dereferenced: out of bounds or a null pointer is a crash.\<close>

definition vcpu_at :: "domain \<Rightarrow> nat \<Rightarrow> vcpu option" where
  "vcpu_at d k = do { v \<leftarrow> array_get (vcpu d) k; v }"

definition set_vcpu :: "domain \<Rightarrow> nat \<Rightarrow> vcpu \<Rightarrow> domain" where
  "set_vcpu d k v = d\<lparr>vcpu := (vcpu d)[k := Some v]\<rparr>"

definition IS_PRIV_FOR :: "hyp \<Rightarrow> domid \<Rightarrow> domid \<Rightarrow> bool option" where
  "IS_PRIV_FOR w d t = do { x \<leftarrow> w d; Some (is_privileged x \<or> target x = Some t) }"

text \<open>
  \<^verbatim>\<open>rcu_lock_target_domain_by_id\<close>: the error code, or the domain.
\<close>

definition rcu_lock_target_domain_by_id :: "hyp \<Rightarrow> domid \<Rightarrow> domid \<Rightarrow> (int + domid) option" where
  "rcu_lock_target_domain_by_id w cur dm =
     (if dm = DOMID_SELF then Some (Inr cur)
      else if w dm = None then Some (Inl (- ESRCH))
      else do {
        p \<leftarrow> IS_PRIV_FOR w cur dm;
        Some (if p then Inr dm else Inl (- EPERM))
      })"

section \<open>Waking a virtual CPU\<close>

definition vcpu_runnable :: "domain \<Rightarrow> vcpu \<Rightarrow> bool" where
  "vcpu_runnable d v = (pause_flags v = {} \<and> vcpu_pause_count v = 0 \<and> domain_pause_count d = 0)"

text \<open>
  \<^verbatim>\<open>vcpu_wake\<close>.  The scheduler's own reaction (\<^verbatim>\<open>SCHED_OP(wake, v)\<close>) and the time
  accounting of \<^verbatim>\<open>vcpu_runstate_change\<close> act on state outside these records.
\<close>

definition vcpu_wake :: "domain \<Rightarrow> nat \<Rightarrow> domain option" where
  "vcpu_wake d k = do {
     v \<leftarrow> vcpu_at d k;
     Some (if vcpu_runnable d v then
             (if runstate v \<in> {RUNSTATE_blocked, RUNSTATE_offline}
              then set_vcpu d k (v\<lparr>runstate := RUNSTATE_runnable\<rparr>) else d)
           else if VPF_blocked \<notin> pause_flags v \<and> runstate v = RUNSTATE_blocked
           then set_vcpu d k (v\<lparr>runstate := RUNSTATE_offline\<rparr>)
           else d)
   }"

definition vcpu_unblock :: "domain \<Rightarrow> nat \<Rightarrow> domain option" where
  "vcpu_unblock d k = do {
     v \<leftarrow> vcpu_at d k;
     if VPF_blocked \<notin> pause_flags v then Some d
     else
       (let v1 = v\<lparr>pause_flags := pause_flags v - {VPF_blocked}\<rparr> in
        if poll_evtchn v1 \<noteq> 0 then
          (let v2 = v1\<lparr>poll_evtchn := 0\<rparr> in
           if k \<in> poll_mask d
           then vcpu_wake (set_vcpu (d\<lparr>poll_mask := poll_mask d - {k}\<rparr>) k
                  (v2\<lparr>pause_flags := pause_flags v2 - {VPF_blocked}\<rparr>)) k
           else vcpu_wake (set_vcpu d k v2) k)
        else vcpu_wake (set_vcpu d k v1) k)
   }"

text \<open>
  \<^verbatim>\<open>vcpu_kick\<close>: the extra inter-processor interrupt it may raise is outside these records.
\<close>

definition vcpu_kick :: "domain \<Rightarrow> nat \<Rightarrow> domain option" where
  "vcpu_kick d k = vcpu_unblock d k"

text \<open>
  \<^verbatim>\<open>hvm_assert_evtchn_irq\<close>.  In interrupt context it only queues a tasklet, and for a guest
  without the paravirtual event channel it drives the emulated interrupt line; both act on
  state outside these records.
\<close>

definition hvm_assert_evtchn_irq :: "bool \<Rightarrow> domain \<Rightarrow> nat \<Rightarrow> domain option" where
  "hvm_assert_evtchn_irq in_irq d k =
     (if in_irq then Some d else if is_hvm_pv_evtchn d then vcpu_kick d k else Some d)"

definition vcpu_mark_events_pending :: "bool \<Rightarrow> domain \<Rightarrow> nat \<Rightarrow> domain option" where
  "vcpu_mark_events_pending in_irq d k = do {
     v \<leftarrow> vcpu_at d k;
     (if evtchn_upcall_pending v then Some d
      else
        let d1 = set_vcpu d k (v\<lparr>evtchn_upcall_pending := True\<rparr>) in
        (if is_hvm d then hvm_assert_evtchn_irq in_irq d1 k else vcpu_kick d1 k))
   }"

end
