(* ===== verification/Event_Channel.thy ===== *)
theory Event_Channel
  imports Domain_State
begin

text \<open>
  The operations of \<^verbatim>\<open>xen/common/event_channel.c\<close>, in the order of the file, and the polling
  code of \<^verbatim>\<open>xen/common/schedule.c\<close> that waits for events.

  An operation is a function of the environment \<open>E\<close>, the hypervisor state \<open>w\<close>, the number
  \<open>cur\<close> of the calling domain and the fields of the hypercall's argument.  \<open>None\<close> is a crash
  of the hypervisor.  Otherwise it returns the new state and \<open>Inl rc\<close> for an error code, or
  \<open>Inr\<close> with what the C code writes back into the argument when it returns 0.

  The environment holds what is not decided by this code: the success of \<^verbatim>\<open>xmalloc\<close>, the
  verdicts of the security module, the result of \<^verbatim>\<open>pirq_guest_bind\<close>, whether the guest's
  argument can be copied, the order of two domain structures in memory, and what other
  processors do while an operation holds no event lock.
\<close>

section \<open>Environment\<close>

record env =
  xmalloc_ok :: bool
  xsm_alloc_security_evtchn :: "nat \<Rightarrow> bool"
  xsm_evtchn_unbound :: int
  xsm_evtchn_interdomain :: int
  xsm_evtchn_send :: int
  xsm_evtchn_status :: int
  xsm_evtchn_reset :: int
  pirq_guest_bind :: "nat \<Rightarrow> bool \<Rightarrow> int"
  copy_from_guest_ok :: bool
  copy_to_guest_ok :: bool
  in_irq :: bool
  domain_below :: "domid \<Rightarrow> domid \<Rightarrow> bool"
  unlocked :: "nat \<Rightarrow> hyp \<Rightarrow> hyp"

section \<open>Ports and channels\<close>

definition bucket_from_port :: "domain \<Rightarrow> nat \<Rightarrow> bucket" where
  "bucket_from_port d p = evtchn d ! (p div EVTCHNS_PER_BUCKET)"

definition port_is_valid :: "domain \<Rightarrow> int \<Rightarrow> bool" where
  "port_is_valid d p =
     (p \<ge> 0 \<and> p < int (MAX_EVTCHNS d) \<and> bucket_from_port d (nat p) \<noteq> Null_bucket)"

definition evtchn_from_port :: "domain \<Rightarrow> nat \<Rightarrow> evtchn option" where
  "evtchn_from_port d p = do {
     b \<leftarrow> array_get (evtchn d) (p div EVTCHNS_PER_BUCKET);
     case b of Bucket cs \<Rightarrow> array_get cs (p mod EVTCHNS_PER_BUCKET) | _ \<Rightarrow> None
   }"

text \<open>Assignment through the pointer \<open>evtchn_from_port d p\<close>.\<close>

definition set_evtchn :: "domain \<Rightarrow> nat \<Rightarrow> evtchn \<Rightarrow> domain" where
  "set_evtchn d p c =
     (case bucket_from_port d p of
        Bucket cs \<Rightarrow> d\<lparr>evtchn := (evtchn d)[p div EVTCHNS_PER_BUCKET :=
                        Bucket (cs[p mod EVTCHNS_PER_BUCKET := c])]\<rparr>
      | _ \<Rightarrow> d)"

definition modify_evtchn :: "hyp \<Rightarrow> domid \<Rightarrow> nat \<Rightarrow> (evtchn \<Rightarrow> evtchn) \<Rightarrow> hyp option" where
  "modify_evtchn w i p f = do {
     d \<leftarrow> w i;
     c \<leftarrow> evtchn_from_port d p;
     Some (w(i \<mapsto> set_evtchn d p (f c)))
   }"

text \<open>A value stored in a 16-bit field.\<close>

definition to_u16 :: "int \<Rightarrow> nat" where
  "to_u16 x = nat (x mod 65536)"

section \<open>Virtual interrupts\<close>

definition VIRQ_TIMER :: nat where "VIRQ_TIMER = 0"
definition VIRQ_DEBUG :: nat where "VIRQ_DEBUG = 1"
definition VIRQ_XENOPROF :: nat where "VIRQ_XENOPROF = 7"

definition arch_virq_is_global :: "nat \<Rightarrow> bool" where
  "arch_virq_is_global virq = True"

definition virq_is_global :: "nat \<Rightarrow> bool option" where
  "virq_is_global virq = do {
     bug_on (\<not> virq < NR_VIRQS);
     Some (if virq \<in> {VIRQ_TIMER, VIRQ_DEBUG, VIRQ_XENOPROF} then False
           else if 16 \<le> virq \<and> virq \<le> 23 then arch_virq_is_global virq
           else True)
   }"

section \<open>Allocating a port\<close>

text \<open>
  The search loop of \<^verbatim>\<open>get_free_port\<close>: \<open>Inl\<close> is a free port, \<open>Inr\<close> the first invalid one.
  The last argument bounds the iterations; the ports below \<^verbatim>\<open>MAX_EVTCHNS\<close> are the only valid
  ones, so that bound is never the reason to stop.
\<close>

fun free_port_loop :: "domain \<Rightarrow> nat \<Rightarrow> nat \<Rightarrow> (nat + nat) option" where
  "free_port_loop d port 0 = Some (Inr port)"
| "free_port_loop d port (Suc n) =
     (if port_is_valid d (int port) then do {
        c \<leftarrow> evtchn_from_port d port;
        if state c = ECS_FREE then Some (Inl port) else free_port_loop d (Suc port) n
      } else Some (Inr port))"

definition zero_evtchn :: evtchn where
  "zero_evtchn = \<lparr>state = ECS_FREE, consumer_is_xen = False, notify_vcpu_id = 0\<rparr>"

definition get_free_port :: "env \<Rightarrow> domain \<Rightarrow> (domain \<times> int) option" where
  "get_free_port E d =
     (if is_dying d \<noteq> DOMDYING_alive then Some (d, - EINVAL)
      else do {
        r \<leftarrow> free_port_loop d 0 (MAX_EVTCHNS d);
        case r of
          Inl port \<Rightarrow> Some (d, int port)
        | Inr port \<Rightarrow>
            if port = MAX_EVTCHNS d then Some (d, - ENOSPC)
            else if \<not> xmalloc_ok E then Some (d, - ENOMEM)
            else do {
              bs \<leftarrow> array_set (evtchn d) (port div EVTCHNS_PER_BUCKET)
                     (Bucket (replicate EVTCHNS_PER_BUCKET zero_evtchn));
              if list_ex (xsm_alloc_security_evtchn E) [0..<EVTCHNS_PER_BUCKET]
              then Some (d\<lparr>evtchn := bs[port div EVTCHNS_PER_BUCKET := Freed_bucket]\<rparr>, - ENOMEM)
              else Some (d\<lparr>evtchn := bs\<rparr>, int port)
            }
      })"

definition evtchn_alloc_unbound :: "env \<Rightarrow> hyp \<Rightarrow> domid \<Rightarrow> domid \<Rightarrow> domid \<Rightarrow> (hyp \<times> (int + nat)) option" where
  "evtchn_alloc_unbound E w cur dm remote_dom = do {
     r \<leftarrow> rcu_lock_target_domain_by_id w cur dm;
     case r of
       Inl rc \<Rightarrow> Some (w, Inl rc)
     | Inr i \<Rightarrow> do {
         d \<leftarrow> w i;
         (d1, port) \<leftarrow> get_free_port E d;
         let w1 = w(i \<mapsto> d1);
         if port < 0 then Some (w1, Inl port)
         else if xsm_evtchn_unbound E \<noteq> 0 then Some (w1, Inl (xsm_evtchn_unbound E))
         else do {
           w2 \<leftarrow> modify_evtchn w1 i (nat port)
                  (\<lambda>c. c\<lparr>state := ECS_UNBOUND (if remote_dom = DOMID_SELF then cur else remote_dom)\<rparr>);
           Some (w2, Inr (nat port))
         }
       }
   }"

section \<open>Delivering an event\<close>

text \<open>
  The loop of \<^verbatim>\<open>evtchn_set_pending\<close> over the polling VCPUs, by increasing number.
\<close>

fun wake_pollers :: "domain \<Rightarrow> nat \<Rightarrow> nat \<Rightarrow> nat \<Rightarrow> domain option" where
  "wake_pollers d port k 0 = Some d"
| "wake_pollers d port k (Suc n) =
     (if k \<in> poll_mask d then do {
        v \<leftarrow> vcpu_at d k;
        d' \<leftarrow> (if poll_evtchn v \<le> 0 \<or> poll_evtchn v = int port
               then vcpu_unblock (set_vcpu (d\<lparr>poll_mask := poll_mask d - {k}\<rparr>) k
                      (v\<lparr>poll_evtchn := 0\<rparr>)) k
               else Some d);
        wake_pollers d' port (Suc k) n
      } else wake_pollers d port (Suc k) n)"

definition evtchn_set_pending :: "env \<Rightarrow> domain \<Rightarrow> nat \<Rightarrow> nat \<Rightarrow> (domain \<times> int) option" where
  "evtchn_set_pending E d k port = do {
     v \<leftarrow> vcpu_at d k;
     (if port \<in> evtchn_pending d then Some (d, 1)
      else do {
        let d1 = d\<lparr>evtchn_pending := insert port (evtchn_pending d)\<rparr>;
        let sel = port div BITS_PER_EVTCHN_WORD d;
        d2 \<leftarrow> (if port \<notin> evtchn_mask d1 \<and> sel \<notin> evtchn_pending_sel v
               then vcpu_mark_events_pending (in_irq E)
                      (set_vcpu d1 k (v\<lparr>evtchn_pending_sel := insert sel (evtchn_pending_sel v)\<rparr>)) k
               else Some d1);
        if list_all (\<lambda>j. j \<notin> poll_mask d2) [0..<max_vcpus d2] then Some (d2, 0)
        else do {
          d3 \<leftarrow> wake_pollers d2 port 0 (max_vcpus d2);
          Some (d3, 0)
        }
      })
   }"

text \<open>The same, on the domain numbered \<open>i\<close>.\<close>

definition set_pending_on :: "env \<Rightarrow> hyp \<Rightarrow> domid \<Rightarrow> nat \<Rightarrow> nat \<Rightarrow> (hyp \<times> int) option" where
  "set_pending_on E w i k port = do {
     d \<leftarrow> w i;
     (d', r) \<leftarrow> evtchn_set_pending E d k port;
     Some (w(i \<mapsto> d'), r)
   }"

section \<open>Binding a port\<close>

definition evtchn_bind_interdomain :: "env \<Rightarrow> hyp \<Rightarrow> domid \<Rightarrow> domid \<Rightarrow> u32 \<Rightarrow> (hyp \<times> (int + nat)) option" where
  "evtchn_bind_interdomain E w cur remote_dom remote_port = do {
     let rport = sint remote_port;
     let rd = (if remote_dom = DOMID_SELF then cur else remote_dom);
     (if w rd = None then Some (w, Inl (- ESRCH))
      else do {
        ld \<leftarrow> w cur;
        (ld1, lport) \<leftarrow> get_free_port E ld;
        let w1 = w(cur \<mapsto> ld1);
        if lport < 0 then Some (w1, Inl lport)
        else do {
          rdom \<leftarrow> w1 rd;
          if \<not> port_is_valid rdom rport then Some (w1, Inl (- EINVAL))
          else do {
            rchn \<leftarrow> evtchn_from_port rdom (nat rport);
            if state rchn \<noteq> ECS_UNBOUND cur then Some (w1, Inl (- EINVAL))
            else if xsm_evtchn_interdomain E \<noteq> 0 then Some (w1, Inl (xsm_evtchn_interdomain E))
            else do {
              w2 \<leftarrow> modify_evtchn w1 cur (nat lport)
                     (\<lambda>c. c\<lparr>state := ECS_INTERDOMAIN rd (to_u16 rport)\<rparr>);
              w3 \<leftarrow> modify_evtchn w2 rd (nat rport)
                     (\<lambda>c. c\<lparr>state := ECS_INTERDOMAIN cur (to_u16 lport)\<rparr>);
              ld3 \<leftarrow> w3 cur;
              lchn \<leftarrow> evtchn_from_port ld3 (nat lport);
              (w4, _) \<leftarrow> set_pending_on E w3 cur (notify_vcpu_id lchn) (nat lport);
              Some (w4, Inr (nat lport))
            }
          }
        }
      })
   }"

definition evtchn_bind_virq :: "env \<Rightarrow> hyp \<Rightarrow> domid \<Rightarrow> u32 \<Rightarrow> u32 \<Rightarrow> (hyp \<times> (int + nat)) option" where
  "evtchn_bind_virq E w cur virq_arg vcpu_arg = do {
     d \<leftarrow> w cur;
     let virq = sint virq_arg;
     let k = sint vcpu_arg;
     (if virq < 0 \<or> virq \<ge> int NR_VIRQS then Some (w, Inl (- EINVAL))
      else do {
        g \<leftarrow> virq_is_global (nat virq);
        if g \<and> k \<noteq> 0 then Some (w, Inl (- EINVAL))
        else if k < 0 \<or> k \<ge> int (max_vcpus d) \<or> vcpu d ! nat k = None then Some (w, Inl (- ENOENT))
        else do {
          v \<leftarrow> vcpu_at d (nat k);
          old \<leftarrow> array_get (virq_to_evtchn v) (nat virq);
          if old \<noteq> 0 then Some (w, Inl (- EEXIST))
          else do {
            (d1, port) \<leftarrow> get_free_port E d;
            let w1 = w(cur \<mapsto> d1);
            if port < 0 then Some (w1, Inl port)
            else do {
              w2 \<leftarrow> modify_evtchn w1 cur (nat port)
                     (\<lambda>c. c\<lparr>state := ECS_VIRQ (nat virq), notify_vcpu_id := to_u16 k\<rparr>);
              d2 \<leftarrow> w2 cur;
              v2 \<leftarrow> vcpu_at d2 (nat k);
              t \<leftarrow> array_set (virq_to_evtchn v2) (nat virq) (to_u16 port);
              Some (w2(cur \<mapsto> set_vcpu d2 (nat k) (v2\<lparr>virq_to_evtchn := t\<rparr>)), Inr (nat port))
            }
          }
        }
      })
   }"

definition evtchn_bind_ipi :: "env \<Rightarrow> hyp \<Rightarrow> domid \<Rightarrow> u32 \<Rightarrow> (hyp \<times> (int + nat)) option" where
  "evtchn_bind_ipi E w cur vcpu_arg = do {
     d \<leftarrow> w cur;
     let k = sint vcpu_arg;
     (if k < 0 \<or> k \<ge> int (max_vcpus d) \<or> vcpu d ! nat k = None then Some (w, Inl (- ENOENT))
      else do {
        (d1, port) \<leftarrow> get_free_port E d;
        let w1 = w(cur \<mapsto> d1);
        if port < 0 then Some (w1, Inl port)
        else do {
          w2 \<leftarrow> modify_evtchn w1 cur (nat port)
                 (\<lambda>c. c\<lparr>state := ECS_IPI, notify_vcpu_id := to_u16 k\<rparr>);
          Some (w2, Inr (nat port))
        }
      })
   }"

definition evtchn_bind_pirq :: "env \<Rightarrow> hyp \<Rightarrow> domid \<Rightarrow> u32 \<Rightarrow> bool \<Rightarrow> (hyp \<times> (int + nat)) option" where
  "evtchn_bind_pirq E w cur pirq_arg will_share = do {
     d \<leftarrow> w cur;
     let pirq = sint pirq_arg;
     (if pirq < 0 \<or> pirq \<ge> int (nr_pirqs d) then Some (w, Inl (- EINVAL))
      else do {
        ok \<leftarrow> irq_access_permitted (irq_caps d) (word_of_int pirq);
        if \<not> ok then Some (w, Inl (- EPERM))
        else do {
          old \<leftarrow> array_get (pirq_to_evtchn d) (nat pirq);
          if old \<noteq> 0 then Some (w, Inl (- EEXIST))
          else do {
            (d1, port) \<leftarrow> get_free_port E d;
            if port < 0 then Some (w(cur \<mapsto> d1), Inl port)
            else do {
              t \<leftarrow> array_set (pirq_to_evtchn d1) (nat pirq) (to_u16 port);
              _ \<leftarrow> vcpu_at d1 0;
              let rc = pirq_guest_bind E (nat pirq) will_share;
              if rc \<noteq> 0
              then do {
                t' \<leftarrow> array_set t (nat pirq) 0;
                Some (w(cur \<mapsto> d1\<lparr>pirq_to_evtchn := t'\<rparr>), Inl rc)
              }
              else do {
                w2 \<leftarrow> modify_evtchn (w(cur \<mapsto> d1\<lparr>pirq_to_evtchn := t, pirq_bound := insert (nat pirq) (pirq_bound d1)\<rparr>))
                       cur (nat port) (\<lambda>c. c\<lparr>state := ECS_PIRQ (to_u16 pirq)\<rparr>);
                Some (w2, Inr (nat port))
              }
            }
          }
        }
      })
   }"

section \<open>Closing a port\<close>

text \<open>The loop over the VCPUs that forgets a virtual interrupt bound to the port.\<close>

fun clear_virq :: "nat \<Rightarrow> nat \<Rightarrow> vcpu option list \<Rightarrow> vcpu option list option" where
  "clear_virq virq port [] = Some []"
| "clear_virq virq port (None # vs) = do { vs' \<leftarrow> clear_virq virq port vs; Some (None # vs') }"
| "clear_virq virq port (Some v # vs) = do {
     p \<leftarrow> array_get (virq_to_evtchn v) virq;
     t \<leftarrow> (if p \<noteq> port then Some (virq_to_evtchn v) else array_set (virq_to_evtchn v) virq 0);
     vs' \<leftarrow> clear_virq virq port vs;
     Some (Some (v\<lparr>virq_to_evtchn := t\<rparr>) # vs')
   }"

text \<open>The common tail of \<^verbatim>\<open>__evtchn_close\<close>.\<close>

definition close_tail :: "hyp \<Rightarrow> domid \<Rightarrow> nat \<Rightarrow> hyp option" where
  "close_tail w d1 port1 = do {
     x1 \<leftarrow> w d1;
     modify_evtchn (w(d1 \<mapsto> x1\<lparr>evtchn_pending := evtchn_pending x1 - {port1}\<rparr>)) d1 port1
       (\<lambda>c. c\<lparr>state := ECS_FREE, notify_vcpu_id := 0\<rparr>)
   }"

text \<open>The remote end of an interdomain channel goes back to the unbound state.\<close>

definition close_peer :: "hyp \<Rightarrow> domid \<Rightarrow> domid \<Rightarrow> nat \<Rightarrow> hyp option" where
  "close_peer w d1 d2 port2 = do {
     x2 \<leftarrow> w d2;
     bug_on (\<not> port_is_valid x2 (int port2));
     chn2 \<leftarrow> evtchn_from_port x2 port2;
     bug_on (case state chn2 of ECS_INTERDOMAIN r _ \<Rightarrow> r \<noteq> d1 | _ \<Rightarrow> True);
     modify_evtchn w d2 port2 (\<lambda>c. c\<lparr>state := ECS_UNBOUND d1\<rparr>)
   }"

text \<open>
  The body of \<^verbatim>\<open>__evtchn_close\<close> from the label \<^verbatim>\<open>again\<close>; \<open>d2\<close> is the variable of that name.
  \<open>Inr r\<close> is the jump back to \<^verbatim>\<open>again\<close> with \<open>d2 = r\<close>, taken after the lock of \<open>d1\<close> was
  dropped; \<open>Inl\<close> is a return.
\<close>

definition evtchn_close_pass ::
    "env \<Rightarrow> hyp \<Rightarrow> domid \<Rightarrow> int \<Rightarrow> domid option \<Rightarrow> ((hyp \<times> int) + domid) option" where
  "evtchn_close_pass E w d1 port1 d2 = do {
     x1 \<leftarrow> w d1;
     (if \<not> port_is_valid x1 port1 then Some (Inl (w, - EINVAL))
      else do {
        chn1 \<leftarrow> evtchn_from_port x1 (nat port1);
        if consumer_is_xen chn1 then Some (Inl (w, - EINVAL))
        else (case state chn1 of
            ECS_FREE \<Rightarrow> Some (Inl (w, - EINVAL))
          | ECS_RESERVED \<Rightarrow> Some (Inl (w, - EINVAL))
          | ECS_UNBOUND _ \<Rightarrow> do { w' \<leftarrow> close_tail w d1 (nat port1); Some (Inl (w', 0)) }
          | ECS_PIRQ pirq \<Rightarrow> do {
              t \<leftarrow> array_set (pirq_to_evtchn x1) pirq 0;
              w' \<leftarrow> close_tail (w(d1 \<mapsto> x1\<lparr>pirq_to_evtchn := t, pirq_bound := pirq_bound x1 - {pirq}\<rparr>))
                     d1 (nat port1);
              Some (Inl (w', 0))
            }
          | ECS_VIRQ virq \<Rightarrow> do {
              vs \<leftarrow> clear_virq virq (nat port1) (vcpu x1);
              w' \<leftarrow> close_tail (w(d1 \<mapsto> x1\<lparr>vcpu := vs\<rparr>)) d1 (nat port1);
              Some (Inl (w', 0))
            }
          | ECS_IPI \<Rightarrow> do { w' \<leftarrow> close_tail w d1 (nat port1); Some (Inl (w', 0)) }
          | ECS_INTERDOMAIN r port2 \<Rightarrow>
              (case d2 of
                 None \<Rightarrow>
                   if w r = None then None
                   else if \<not> domain_below E d1 r \<and> d1 \<noteq> r then Some (Inr r)
                   else do {
                     w' \<leftarrow> close_peer w d1 r port2;
                     w'' \<leftarrow> close_tail w' d1 (nat port1);
                     Some (Inl (w'', 0))
                   }
               | Some d2' \<Rightarrow>
                   if d2' \<noteq> r then Some (Inl (w, - EINVAL))
                   else do {
                     w' \<leftarrow> close_peer w d1 r port2;
                     w'' \<leftarrow> close_tail w' d1 (nat port1);
                     Some (Inl (w'', 0))
                   }))
      })
   }"

text \<open>
  \<^verbatim>\<open>__evtchn_close\<close>.  Between the two passes only the lock of \<open>d2\<close> has been requested, so
  \<open>itf\<close> may change everything.  The second pass has \<open>d2\<close> set and does not jump.
\<close>

definition evtchn_close_itf :: "env \<Rightarrow> (hyp \<Rightarrow> hyp) \<Rightarrow> hyp \<Rightarrow> domid \<Rightarrow> int \<Rightarrow> (hyp \<times> int) option" where
  "evtchn_close_itf E itf w d1 port1 = do {
     r \<leftarrow> evtchn_close_pass E w d1 port1 None;
     case r of
       Inl res \<Rightarrow> Some res
     | Inr d2 \<Rightarrow> do {
         r' \<leftarrow> evtchn_close_pass E (itf w) d1 port1 (Some d2);
         case r' of Inl res \<Rightarrow> Some res | Inr _ \<Rightarrow> None
       }
   }"

definition evtchn_close :: "env \<Rightarrow> hyp \<Rightarrow> domid \<Rightarrow> u32 \<Rightarrow> (hyp \<times> int) option" where
  "evtchn_close E w cur port = evtchn_close_itf E (unlocked E 0) w cur (sint port)"

section \<open>Sending an event\<close>

definition evtchn_send :: "env \<Rightarrow> hyp \<Rightarrow> domid \<Rightarrow> nat \<Rightarrow> (hyp \<times> int) option" where
  "evtchn_send E w ld lport = do {
     x \<leftarrow> w ld;
     (if \<not> port_is_valid x (int lport) then Some (w, - EINVAL)
      else do {
        lchn \<leftarrow> evtchn_from_port x lport;
        if consumer_is_xen lchn then Some (w, - EINVAL)
        else if xsm_evtchn_send E \<noteq> 0 then Some (w, xsm_evtchn_send E)
        else (case state lchn of
            ECS_INTERDOMAIN rd rport \<Rightarrow> do {
              y \<leftarrow> w rd;
              rchn \<leftarrow> evtchn_from_port y rport;
              if consumer_is_xen rchn then do {
                rvcpu \<leftarrow> vcpu_at y (notify_vcpu_id rchn);
                if VPF_blocked_in_xen \<in> pause_flags rvcpu then do {
                  y' \<leftarrow> vcpu_wake (set_vcpu y (notify_vcpu_id rchn)
                          (rvcpu\<lparr>pause_flags := pause_flags rvcpu - {VPF_blocked_in_xen}\<rparr>))
                          (notify_vcpu_id rchn);
                  Some (w(rd \<mapsto> y'), 0)
                } else Some (w, 0)
              }
              else do {
                (w', _) \<leftarrow> set_pending_on E w rd (notify_vcpu_id rchn) rport;
                Some (w', 0)
              }
            }
          | ECS_IPI \<Rightarrow> do {
              (w', _) \<leftarrow> set_pending_on E w ld (notify_vcpu_id lchn) lport;
              Some (w', 0)
            }
          | ECS_UNBOUND _ \<Rightarrow> Some (w, 0)
          | _ \<Rightarrow> Some (w, - EINVAL))
      })
   }"

definition guest_enabled_event :: "vcpu option \<Rightarrow> nat \<Rightarrow> bool option" where
  "guest_enabled_event v virq =
     (case v of None \<Rightarrow> Some False
      | Some v \<Rightarrow> do { p \<leftarrow> array_get (virq_to_evtchn v) virq; Some (p \<noteq> 0) })"

definition send_guest_vcpu_virq :: "env \<Rightarrow> hyp \<Rightarrow> domid \<Rightarrow> nat \<Rightarrow> nat \<Rightarrow> hyp option" where
  "send_guest_vcpu_virq E w i k virq = do {
     g \<leftarrow> virq_is_global virq;
     bug_on g;
     d \<leftarrow> w i;
     v \<leftarrow> vcpu_at d k;
     port \<leftarrow> array_get (virq_to_evtchn v) virq;
     if port = 0 then Some w
     else do { (w', _) \<leftarrow> set_pending_on E w i k port; Some w' }
   }"

text \<open>\<open>None\<close> for the domain is the null pointer; an empty VCPU array is a null \<^verbatim>\<open>d->vcpu\<close>.\<close>

definition send_guest_global_virq :: "env \<Rightarrow> hyp \<Rightarrow> domid option \<Rightarrow> nat \<Rightarrow> hyp option" where
  "send_guest_global_virq E w i virq = do {
     g \<leftarrow> virq_is_global virq;
     bug_on (\<not> g);
     case i of
       None \<Rightarrow> Some w
     | Some i \<Rightarrow> do {
         d \<leftarrow> w i;
         (if vcpu d = [] \<or> vcpu d ! 0 = None then Some w
          else do {
            v \<leftarrow> vcpu_at d 0;
            port \<leftarrow> array_get (virq_to_evtchn v) virq;
            if port = 0 then Some w
            else do {
              chn \<leftarrow> evtchn_from_port d port;
              (w', _) \<leftarrow> set_pending_on E w i (notify_vcpu_id chn) port;
              Some w'
            }
          })
       }
   }"

definition send_guest_pirq :: "env \<Rightarrow> hyp \<Rightarrow> domid \<Rightarrow> nat \<Rightarrow> (hyp \<times> int) option" where
  "send_guest_pirq E w i pirq = do {
     d \<leftarrow> w i;
     port \<leftarrow> array_get (pirq_to_evtchn d) pirq;
     bug_on (port = 0);
     chn \<leftarrow> evtchn_from_port d port;
     set_pending_on E w i (notify_vcpu_id chn) port
   }"

section \<open>Status, rebinding, unmasking, reset\<close>

datatype evtchn_stat =
    EVTCHNSTAT_closed
  | EVTCHNSTAT_unbound domid
  | EVTCHNSTAT_interdomain domid nat
  | EVTCHNSTAT_pirq nat
  | EVTCHNSTAT_virq nat
  | EVTCHNSTAT_ipi

definition evtchn_status :: "env \<Rightarrow> hyp \<Rightarrow> domid \<Rightarrow> domid \<Rightarrow> u32 \<Rightarrow> (int + (evtchn_stat \<times> nat)) option" where
  "evtchn_status E w cur dm port_arg = do {
     r \<leftarrow> rcu_lock_target_domain_by_id w cur dm;
     case r of
       Inl rc \<Rightarrow> Some (Inl rc)
     | Inr i \<Rightarrow> do {
         d \<leftarrow> w i;
         let port = sint port_arg;
         (if \<not> port_is_valid d port then Some (Inl (- EINVAL))
          else do {
            chn \<leftarrow> evtchn_from_port d (nat port);
            if xsm_evtchn_status E \<noteq> 0 then Some (Inl (xsm_evtchn_status E))
            else do {
              st \<leftarrow> (case state chn of
                  ECS_FREE \<Rightarrow> Some EVTCHNSTAT_closed
                | ECS_RESERVED \<Rightarrow> Some EVTCHNSTAT_closed
                | ECS_UNBOUND r \<Rightarrow> Some (EVTCHNSTAT_unbound r)
                | ECS_INTERDOMAIN r p \<Rightarrow>
                    do { x \<leftarrow> w r; Some (EVTCHNSTAT_interdomain r p) }
                | ECS_PIRQ q \<Rightarrow> Some (EVTCHNSTAT_pirq q)
                | ECS_VIRQ v \<Rightarrow> Some (EVTCHNSTAT_virq v)
                | ECS_IPI \<Rightarrow> Some EVTCHNSTAT_ipi);
              Some (Inr (st, notify_vcpu_id chn))
            }
          })
       }
   }"

definition evtchn_bind_vcpu :: "hyp \<Rightarrow> domid \<Rightarrow> nat \<Rightarrow> nat \<Rightarrow> (hyp \<times> int) option" where
  "evtchn_bind_vcpu w cur port k = do {
     d \<leftarrow> w cur;
     (if k \<ge> max_vcpus d \<or> vcpu d ! k = None then Some (w, - ENOENT)
      else if \<not> port_is_valid d (int port) then Some (w, - EINVAL)
      else do {
        chn \<leftarrow> evtchn_from_port d port;
        if consumer_is_xen chn then Some (w, - EINVAL)
        else do {
          let bind = do {
                w' \<leftarrow> modify_evtchn w cur port (\<lambda>c. c\<lparr>notify_vcpu_id := to_u16 (int k)\<rparr>);
                Some (w', 0)
              };
          case state chn of
            ECS_VIRQ virq \<Rightarrow> do {
              g \<leftarrow> virq_is_global virq;
              if g then bind else Some (w, - EINVAL)
            }
          | ECS_UNBOUND _ \<Rightarrow> bind
          | ECS_INTERDOMAIN _ _ \<Rightarrow> bind
          | ECS_PIRQ _ \<Rightarrow> bind
          | _ \<Rightarrow> Some (w, - EINVAL)
        }
      })
   }"

definition evtchn_unmask :: "env \<Rightarrow> hyp \<Rightarrow> domid \<Rightarrow> nat \<Rightarrow> (hyp \<times> int) option" where
  "evtchn_unmask E w cur port = do {
     d \<leftarrow> w cur;
     (if \<not> port_is_valid d (int port) then Some (w, - EINVAL)
      else do {
        chn \<leftarrow> evtchn_from_port d port;
        let k = notify_vcpu_id chn;
        let d1 = d\<lparr>evtchn_mask := evtchn_mask d - {port}\<rparr>;
        let sel = port div BITS_PER_EVTCHN_WORD d;
        bug_on (k \<ge> max_vcpus d);
        if port \<in> evtchn_mask d \<and> port \<in> evtchn_pending d then do {
          v \<leftarrow> vcpu_at d k;
          if sel \<notin> evtchn_pending_sel v then do {
            d2 \<leftarrow> vcpu_mark_events_pending (in_irq E)
                   (set_vcpu d1 k (v\<lparr>evtchn_pending_sel := insert sel (evtchn_pending_sel v)\<rparr>)) k;
            Some (w(cur \<mapsto> d2), 0)
          } else Some (w(cur \<mapsto> d1), 0)
        } else Some (w(cur \<mapsto> d1), 0)
      })
   }"

text \<open>
  The loops of \<^verbatim>\<open>evtchn_reset\<close> and \<^verbatim>\<open>evtchn_destroy\<close> over the valid ports.  No lock is held
  between two iterations: other processors act before iteration \<open>i\<close> (\<open>unlocked E (2 * i)\<close>)
  and in the window inside \<^verbatim>\<open>__evtchn_close\<close> (\<open>unlocked E (2 * i + 1)\<close>).  \<open>detach\<close> is the
  assignment \<^verbatim>\<open>consumer_is_xen = 0\<close> that only \<^verbatim>\<open>evtchn_destroy\<close> makes.
\<close>

fun close_all :: "env \<Rightarrow> bool \<Rightarrow> hyp \<Rightarrow> domid \<Rightarrow> nat \<Rightarrow> nat \<Rightarrow> hyp option" where
  "close_all E detach w i port 0 = Some w"
| "close_all E detach w i port (Suc n) = do {
     let w0 = unlocked E (2 * port) w;
     d \<leftarrow> w0 i;
     if port_is_valid d (int port) then do {
       w1 \<leftarrow> (if detach then modify_evtchn w0 i port (\<lambda>c. c\<lparr>consumer_is_xen := False\<rparr>) else Some w0);
       (w2, _) \<leftarrow> evtchn_close_itf E (unlocked E (2 * port + 1)) w1 i (int port);
       close_all E detach w2 i (Suc port) n
     } else Some w0
   }"

definition evtchn_reset :: "env \<Rightarrow> hyp \<Rightarrow> domid \<Rightarrow> domid \<Rightarrow> (hyp \<times> int) option" where
  "evtchn_reset E w cur dm = do {
     r \<leftarrow> rcu_lock_target_domain_by_id w cur dm;
     case r of
       Inl rc \<Rightarrow> Some (w, rc)
     | Inr i \<Rightarrow>
         if xsm_evtchn_reset E \<noteq> 0 then Some (w, xsm_evtchn_reset E)
         else do {
           d \<leftarrow> w i;
           w' \<leftarrow> close_all E False w i 0 (MAX_EVTCHNS d);
           Some (w', 0)
         }
   }"

section \<open>The hypercall\<close>

datatype evtchn_op =
    EVTCHNOP_alloc_unbound u16 u16
  | EVTCHNOP_bind_interdomain u16 u32
  | EVTCHNOP_bind_virq u32 u32
  | EVTCHNOP_bind_ipi u32
  | EVTCHNOP_bind_pirq u32 bool
  | EVTCHNOP_close u32
  | EVTCHNOP_send u32
  | EVTCHNOP_status u16 u32
  | EVTCHNOP_bind_vcpu u32 u32
  | EVTCHNOP_unmask u32
  | EVTCHNOP_reset u16
  | EVTCHNOP_unknown

datatype evtchn_out = No_out | Out_port nat | Out_status evtchn_stat nat

text \<open>What the hypercall does with the result of an operation that writes its argument back.\<close>

definition copy_back :: "env \<Rightarrow> (int + 'a) \<Rightarrow> ('a \<Rightarrow> evtchn_out) \<Rightarrow> int \<times> evtchn_out" where
  "copy_back E r out =
     (case r of
        Inl rc \<Rightarrow> (rc, No_out)
      | Inr x \<Rightarrow> if copy_to_guest_ok E then (0, out x) else (- EFAULT, No_out))"

definition do_event_channel_op :: "env \<Rightarrow> hyp \<Rightarrow> domid \<Rightarrow> evtchn_op \<Rightarrow> (hyp \<times> int \<times> evtchn_out) option" where
  "do_event_channel_op E w cur cmd =
     (if cmd = EVTCHNOP_unknown then Some (w, - ENOSYS, No_out)
      else if \<not> copy_from_guest_ok E then Some (w, - EFAULT, No_out)
      else (case cmd of
          EVTCHNOP_alloc_unbound dm rdm \<Rightarrow> do {
            (w', r) \<leftarrow> evtchn_alloc_unbound E w cur (unat dm) (unat rdm);
            Some (w', copy_back E r Out_port) }
        | EVTCHNOP_bind_interdomain rdm rport \<Rightarrow> do {
            (w', r) \<leftarrow> evtchn_bind_interdomain E w cur (unat rdm) rport;
            Some (w', copy_back E r Out_port) }
        | EVTCHNOP_bind_virq virq k \<Rightarrow> do {
            (w', r) \<leftarrow> evtchn_bind_virq E w cur virq k;
            Some (w', copy_back E r Out_port) }
        | EVTCHNOP_bind_ipi k \<Rightarrow> do {
            (w', r) \<leftarrow> evtchn_bind_ipi E w cur k;
            Some (w', copy_back E r Out_port) }
        | EVTCHNOP_bind_pirq pirq share \<Rightarrow> do {
            (w', r) \<leftarrow> evtchn_bind_pirq E w cur pirq share;
            Some (w', copy_back E r Out_port) }
        | EVTCHNOP_close port \<Rightarrow> do {
            (w', rc) \<leftarrow> evtchn_close E w cur port;
            Some (w', rc, No_out) }
        | EVTCHNOP_send port \<Rightarrow> do {
            (w', rc) \<leftarrow> evtchn_send E w cur (unat port);
            Some (w', rc, No_out) }
        | EVTCHNOP_status dm port \<Rightarrow> do {
            r \<leftarrow> evtchn_status E w cur (unat dm) port;
            Some (w, copy_back E r (\<lambda>(st, k). Out_status st k)) }
        | EVTCHNOP_bind_vcpu port k \<Rightarrow> do {
            (w', rc) \<leftarrow> evtchn_bind_vcpu w cur (unat port) (unat k);
            Some (w', rc, No_out) }
        | EVTCHNOP_unmask port \<Rightarrow> do {
            (w', rc) \<leftarrow> evtchn_unmask E w cur (unat port);
            Some (w', rc, No_out) }
        | EVTCHNOP_reset dm \<Rightarrow> do {
            (w', rc) \<leftarrow> evtchn_reset E w cur (unat dm);
            Some (w', rc, No_out) }
        | EVTCHNOP_unknown \<Rightarrow> Some (w, - ENOSYS, No_out)))"

section \<open>Channels consumed by the hypervisor, creation and destruction\<close>

definition alloc_unbound_xen_event_channel :: "env \<Rightarrow> hyp \<Rightarrow> domid \<Rightarrow> nat \<Rightarrow> domid \<Rightarrow> (hyp \<times> int) option" where
  "alloc_unbound_xen_event_channel E w i k remote_domid = do {
     d \<leftarrow> w i;
     (d1, port) \<leftarrow> get_free_port E d;
     let w1 = w(i \<mapsto> d1);
     if port < 0 then Some (w1, port)
     else do {
       w2 \<leftarrow> modify_evtchn w1 i (nat port)
              (\<lambda>c. c\<lparr>state := ECS_UNBOUND remote_domid, consumer_is_xen := True,
                     notify_vcpu_id := to_u16 (int k)\<rparr>);
       Some (w2, port)
     }
   }"

text \<open>
  \<^verbatim>\<open>free_xen_event_channel\<close> drops the event lock before it closes the port.
\<close>

definition free_xen_event_channel :: "env \<Rightarrow> hyp \<Rightarrow> domid \<Rightarrow> int \<Rightarrow> hyp option" where
  "free_xen_event_channel E w i port = do {
     d \<leftarrow> w i;
     (if is_dying d \<noteq> DOMDYING_alive then Some w
      else do {
        bug_on (\<not> port_is_valid d port);
        chn \<leftarrow> evtchn_from_port d (nat port);
        bug_on (\<not> consumer_is_xen chn);
        w1 \<leftarrow> modify_evtchn w i (nat port) (\<lambda>c. c\<lparr>consumer_is_xen := False\<rparr>);
        (w2, _) \<leftarrow> evtchn_close_itf E (unlocked E 1) (unlocked E 0 w1) i port;
        Some w2
      })
   }"

definition notify_via_xen_event_channel :: "env \<Rightarrow> hyp \<Rightarrow> domid \<Rightarrow> int \<Rightarrow> hyp option" where
  "notify_via_xen_event_channel E w ld lport = do {
     d \<leftarrow> w ld;
     bug_on (\<not> port_is_valid d lport);
     lchn \<leftarrow> evtchn_from_port d (nat lport);
     bug_on (\<not> consumer_is_xen lchn);
     case state lchn of
       ECS_INTERDOMAIN rd rport \<Rightarrow> do {
         y \<leftarrow> w rd;
         rchn \<leftarrow> evtchn_from_port y rport;
         (w', _) \<leftarrow> set_pending_on E w rd (notify_vcpu_id rchn) rport;
         Some w'
       }
     | _ \<Rightarrow> Some w
   }"

text \<open>\<open>mask_ok\<close>: the second allocation, of the polling mask, succeeds.\<close>

definition evtchn_init :: "env \<Rightarrow> bool \<Rightarrow> domain \<Rightarrow> (domain \<times> int) option" where
  "evtchn_init E mask_ok d = do {
     (d1, port) \<leftarrow> get_free_port E d;
     if port \<noteq> 0 then Some (d1, - EINVAL)
     else do {
       c \<leftarrow> evtchn_from_port d1 0;
       let d2 = set_evtchn d1 0 (c\<lparr>state := ECS_RESERVED\<rparr>);
       if \<not> mask_ok then Some (d2, - ENOMEM)
       else Some (d2\<lparr>poll_mask := {}\<rparr>, 0)
     }
   }"

definition evtchn_destroy :: "env \<Rightarrow> hyp \<Rightarrow> domid \<Rightarrow> hyp option" where
  "evtchn_destroy E w i = do {
     d \<leftarrow> w i;
     bug_on (is_dying d = DOMDYING_alive);
     w1 \<leftarrow> close_all E True w i 0 (MAX_EVTCHNS d);
     d1 \<leftarrow> w1 i;
     Some (w1(i \<mapsto> d1\<lparr>evtchn := replicate NR_EVTCHN_BUCKETS Null_bucket\<rparr>))
   }"

section \<open>Blocking and polling\<close>

text \<open>\<open>hvm_pending\<close> is the answer of \<^verbatim>\<open>hvm_local_events_need_delivery\<close>.\<close>

definition local_events_need_delivery :: "bool \<Rightarrow> domain \<Rightarrow> vcpu \<Rightarrow> bool" where
  "local_events_need_delivery hvm_pending d v =
     (if is_hvm d then hvm_pending else evtchn_upcall_pending v \<and> \<not> evtchn_upcall_mask v)"

definition do_block :: "bool \<Rightarrow> domain \<Rightarrow> nat \<Rightarrow> domain option" where
  "do_block hvm_pending d k = do {
     v \<leftarrow> vcpu_at d k;
     let v1 = v\<lparr>evtchn_upcall_mask := False, pause_flags := insert VPF_blocked (pause_flags v)\<rparr>;
     if local_events_need_delivery hvm_pending d v1
     then Some (set_vcpu d k (v1\<lparr>pause_flags := pause_flags v1 - {VPF_blocked}\<rparr>))
     else Some (set_vcpu d k v1)
   }"

text \<open>
  The loop of \<^verbatim>\<open>do_poll\<close> over the guest's list of ports: \<open>Some rc\<close> is \<^verbatim>\<open>goto out\<close>.  An entry
  \<open>None\<close> of the list is one that cannot be read from the guest.
\<close>

fun poll_loop :: "domain \<Rightarrow> u32 option list \<Rightarrow> int option" where
  "poll_loop d [] = None"
| "poll_loop d (None # ps) = Some (- EFAULT)"
| "poll_loop d (Some port # ps) =
     (if unat port \<ge> MAX_EVTCHNS d then Some (- EINVAL)
      else if unat port \<in> evtchn_pending d then Some 0
      else poll_loop d ps)"

text \<open>
  \<^verbatim>\<open>do_poll\<close> is one step, with no event of another processor between its writes.  The call of
  \<^verbatim>\<open>set_timer\<close> for a timeout is left to the timer component; \<open>poll_timer_fn\<close> is the function that
  the timer runs.
\<close>

definition do_poll :: "bool \<Rightarrow> bool \<Rightarrow> u32 option list \<Rightarrow> domain \<Rightarrow> nat \<Rightarrow> (domain \<times> int) option" where
  "do_poll handle_ok hvm_pending ports d k =
     (if length ports > 128 then Some (d, - EINVAL)
      else if \<not> handle_ok then Some (d, - EFAULT)
      else do {
        v \<leftarrow> vcpu_at d k;
        let v1 = v\<lparr>pause_flags := insert VPF_blocked (pause_flags v), poll_evtchn := - 1\<rparr>;
        let d1 = set_vcpu (d\<lparr>poll_mask := insert k (poll_mask d)\<rparr>) k v1;
        let out = set_vcpu (d1\<lparr>poll_mask := poll_mask d1 - {k}\<rparr>) k
               (v1\<lparr>poll_evtchn := 0, pause_flags := pause_flags v1 - {VPF_blocked}\<rparr>);
        if local_events_need_delivery hvm_pending d1 v1 then Some (out, 0)
        else (case poll_loop d1 ports of
                Some rc \<Rightarrow> Some (out, rc)
              | None \<Rightarrow>
                  (case ports of
                     [Some port] \<Rightarrow> Some (set_vcpu d1 k (v1\<lparr>poll_evtchn := sint port\<rparr>), 0)
                   | _ \<Rightarrow> Some (d1, 0)))
      })"

definition poll_timer_fn :: "domain \<Rightarrow> nat \<Rightarrow> domain option" where
  "poll_timer_fn d k =
     (if k \<in> poll_mask d then vcpu_unblock (d\<lparr>poll_mask := poll_mask d - {k}\<rparr>) k else Some d)"

end
