(* ===== verification/Event_Channel_Spec.thy ===== *)
theory Event_Channel_Spec
  imports Event_Channel
begin

text \<open>
  The abstract event-channel tables and their invariant.

  A table \<open>dtab\<close> is what the bucket array, the interrupt tables and the VCPU array of one domain
  mean: partial maps from ports to channels, from pairs of a VCPU and a virtual interrupt to
  ports, and from physical interrupts to ports.  The invariant has a part that spans domains
  (\<open>peers_ok\<close>: being connected is a symmetric relation between two different ports) and a part
  local to a domain (\<open>tab_ok\<close>: the interrupt tables and the channels name each other, port 0 is
  reserved, every channel notifies an existing VCPU, a free channel is clean).  The lemmas are
  the ways in which an operation may change the tables.
\<close>

section \<open>Abstract tables\<close>

record dtab =
  chans :: "nat \<Rightarrow> evtchn option"
  virqs :: "nat \<times> nat \<Rightarrow> nat option"
  pirqs :: "nat \<Rightarrow> nat option"
  vcpus :: "nat set"
  dead :: bool

type_synonym links = "domid \<Rightarrow> dtab option"

definition global_virq :: "nat \<Rightarrow> bool" where
  "global_virq v = (v \<notin> {VIRQ_TIMER, VIRQ_DEBUG, VIRQ_XENOPROF})"

text \<open>The VCPU whose table holds the port of a virtual interrupt.\<close>

definition virq_home :: "nat \<Rightarrow> evtchn \<Rightarrow> nat" where
  "virq_home v c = (if global_virq v then 0 else notify_vcpu_id c)"

definition chan_state :: "links \<Rightarrow> domid \<times> nat \<Rightarrow> ecs option" where
  "chan_state V a = do { x \<leftarrow> V (fst a); c \<leftarrow> chans x (snd a); Some (state c) }"

fun peer_of :: "ecs option \<Rightarrow> (domid \<times> nat) option" where
  "peer_of (Some (ECS_INTERDOMAIN j q)) = Some (j, q)"
| "peer_of _ = None"

text \<open>A partial map that pairs off elements.\<close>

definition pairing :: "('a \<Rightarrow> 'a option) \<Rightarrow> bool" where
  "pairing P \<longleftrightarrow> (\<forall>a b. P a = Some b \<longrightarrow> a \<noteq> b \<and> P b = Some a)"

definition peers_ok :: "(domid \<times> nat \<Rightarrow> ecs option) \<Rightarrow> bool" where
  "peers_ok S \<longleftrightarrow> pairing (peer_of \<circ> S)"

definition chan_ok :: "dtab \<Rightarrow> nat \<Rightarrow> evtchn \<Rightarrow> bool" where
  "chan_ok x p c \<longleftrightarrow>
     notify_vcpu_id c \<in> vcpus x \<and>
     (p = 0 \<longrightarrow> state c = ECS_RESERVED) \<and>
     (state c = ECS_FREE \<longrightarrow> notify_vcpu_id c = 0 \<and> \<not> consumer_is_xen c) \<and>
     (\<forall>q. state c = ECS_PIRQ q \<longrightarrow> pirqs x q = Some p) \<and>
     (\<forall>v. state c = ECS_VIRQ v \<longrightarrow> virqs x (virq_home v c, v) = Some p)"

definition tab_ok :: "dtab \<Rightarrow> bool" where
  "tab_ok x \<longleftrightarrow>
     0 \<in> vcpus x \<and>
     (\<forall>p c. chans x p = Some c \<longrightarrow> chan_ok x p c) \<and>
     (\<forall>k v p. virqs x (k, v) = Some p \<longrightarrow>
        (\<exists>c. chans x p = Some c \<and> state c = ECS_VIRQ v \<and> k = virq_home v c)) \<and>
     (\<forall>q p. pirqs x q = Some p \<longrightarrow> (\<exists>c. chans x p = Some c \<and> state c = ECS_PIRQ q))"

definition links_ok :: "links \<Rightarrow> bool" where
  "links_ok V \<longleftrightarrow> peers_ok (chan_state V) \<and> (\<forall>i x. V i = Some x \<longrightarrow> tab_ok x)"

definition linked :: "ecs \<Rightarrow> bool" where
  "linked s = (case s of ECS_INTERDOMAIN _ _ \<Rightarrow> True | ECS_PIRQ _ \<Rightarrow> True | ECS_VIRQ _ \<Rightarrow> True | _ \<Rightarrow> False)"

lemma linked_simps [simp]:
  "\<not> linked ECS_FREE" "\<not> linked ECS_RESERVED" "\<not> linked (ECS_UNBOUND r)" "\<not> linked ECS_IPI"
  "linked (ECS_INTERDOMAIN j q)" "linked (ECS_PIRQ i)" "linked (ECS_VIRQ v)"
  by (simp_all add: linked_def)

definition set_chan :: "dtab \<Rightarrow> nat \<Rightarrow> evtchn \<Rightarrow> dtab" where
  "set_chan x p c = x\<lparr>chans := (chans x)(p \<mapsto> c)\<rparr>"

lemma set_chan_sel [simp]:
  "chans (set_chan x p c) = (chans x)(p \<mapsto> c)" "virqs (set_chan x p c) = virqs x"
  "pirqs (set_chan x p c) = pirqs x" "vcpus (set_chan x p c) = vcpus x"
  "dead (set_chan x p c) = dead x"
  by (simp_all add: set_chan_def)

section \<open>Connections\<close>

lemma pairingD: "pairing P \<Longrightarrow> P a = Some b \<Longrightarrow> a \<noteq> b" "pairing P \<Longrightarrow> P a = Some b \<Longrightarrow> P b = Some a"
  unfolding pairing_def by blast+

lemma pairing_None:
  assumes "pairing P" "P a = None"
  shows "P b \<noteq> Some a"
  using pairingD(2) [OF assms(1), of b a] assms(2) by auto

lemma pairing_clear: "pairing P \<Longrightarrow> P a = None \<Longrightarrow> pairing (P(a := None))"
  by (simp add: fun_upd_idem)

lemma pairing_connect:
  assumes P: "pairing P" "P a = None" "P b = None" and ab: "a \<noteq> b"
  shows "pairing (P(a \<mapsto> b, b \<mapsto> a))"
  unfolding pairing_def
proof (intro allI impI)
  fix x y assume xy: "(P(a \<mapsto> b, b \<mapsto> a)) x = Some y"
  show "x \<noteq> y \<and> (P(a \<mapsto> b, b \<mapsto> a)) y = Some x"
  proof (cases "x = a \<or> x = b")
    case True
    then show ?thesis using xy ab by auto
  next
    case False
    then have "P x = Some y" using xy by simp
    then have "x \<noteq> y" "P y = Some x" by (rule pairingD [OF P(1)])+
    moreover have "y \<noteq> a" "y \<noteq> b" using calculation(2) P by auto
    ultimately show ?thesis by simp
  qed
qed

lemma pairing_disconnect:
  assumes P: "pairing P" "P a = Some b"
  shows "pairing (P(b := None, a := None))"
  unfolding pairing_def
proof (intro allI impI)
  fix x y assume xy: "(P(b := None, a := None)) x = Some y"
  then have x: "x \<noteq> a" "x \<noteq> b" "P x = Some y" by (auto split: if_splits)
  have y: "x \<noteq> y" "P y = Some x" using pairingD [OF P(1) x(3)] by blast+
  have "P b = Some a" using pairingD(2) [OF P] .
  then have "y \<noteq> a" "y \<noteq> b" using y P(2) x by auto
  then show "x \<noteq> y \<and> (P(b := None, a := None)) y = Some x" using y by simp
qed

lemma peer_of_Some: "peer_of s = Some b \<longleftrightarrow> s = Some (ECS_INTERDOMAIN (fst b) (snd b))"
  by (cases s rule: peer_of.cases) auto

lemma peer_of_unlinked [simp]: "\<not> linked s \<Longrightarrow> peer_of (Some s) = None"
  by (cases s) auto

lemma chan_state_upd:
  assumes "V i = Some x" "chans x' = (chans x)(p \<mapsto> c)"
  shows "chan_state (V(i \<mapsto> x')) = (chan_state V)((i, p) \<mapsto> state c)"
  using assms by (auto simp: chan_state_def fun_eq_iff)

lemma chan_state_same:
  assumes "V i = Some x" "chans x' = chans x"
  shows "chan_state (V(i \<mapsto> x')) = chan_state V"
  using assms by (auto simp: chan_state_def fun_eq_iff)

lemma chan_stateI: "V i = Some x \<Longrightarrow> chans x p = Some c \<Longrightarrow> chan_state V (i, p) = Some (state c)"
  by (simp add: chan_state_def)

lemma peers_ok_upd:
  assumes "peers_ok S" "peer_of (S a) = None" "peer_of s = None"
  shows "peers_ok (S(a := s))"
  using assms pairing_clear [of "peer_of \<circ> S" a] by (simp add: peers_ok_def fun_upd_comp)

lemma peers_ok_connect:
  assumes "peers_ok S" "peer_of (S a) = None" "peer_of (S b) = None" "a \<noteq> b"
    and "peer_of s = Some b" "peer_of t = Some a"
  shows "peers_ok (S(a := s, b := t))"
  using assms pairing_connect [of "peer_of \<circ> S" a b] by (simp add: peers_ok_def fun_upd_comp)

lemma peers_ok_disconnect:
  assumes "peers_ok S" "peer_of (S a) = Some b" "peer_of s = None" "peer_of t = None"
  shows "peers_ok (S(b := s, a := t))"
  using assms pairing_disconnect [of "peer_of \<circ> S" a b] by (simp add: peers_ok_def fun_upd_comp)

lemma links_ok_tab: "links_ok V \<Longrightarrow> V i = Some x \<Longrightarrow> tab_ok x"
  by (simp add: links_ok_def)

lemma links_ok_upd:
  assumes "links_ok V" "tab_ok x'" "peers_ok (chan_state (V(i \<mapsto> x')))"
  shows "links_ok (V(i \<mapsto> x'))"
  using assms by (auto simp: links_ok_def)

section \<open>Local updates\<close>

lemma tab_okD:
  assumes "tab_ok x"
  shows "0 \<in> vcpus x" "chans x p = Some c \<Longrightarrow> chan_ok x p c"
    "virqs x (k, v) = Some p \<Longrightarrow> \<exists>c. chans x p = Some c \<and> state c = ECS_VIRQ v \<and> k = virq_home v c"
    "pirqs x q = Some p \<Longrightarrow> \<exists>c. chans x p = Some c \<and> state c = ECS_PIRQ q"
  using assms by (auto simp: tab_ok_def)

lemma chan_ok_set_chan [simp]: "chan_ok (set_chan x q d) p c = chan_ok x p c"
  by (simp add: chan_ok_def)

text \<open>Replacing a channel that no interrupt table mentions, before or after.\<close>

lemma tab_ok_set_chan:
  assumes x: "tab_ok x" and c: "chans x p = Some c" "\<And>v. state c \<noteq> ECS_VIRQ v" "\<And>q. state c \<noteq> ECS_PIRQ q"
    and c': "chan_ok x p c'" "\<And>v. state c' \<noteq> ECS_VIRQ v" "\<And>q. state c' \<noteq> ECS_PIRQ q"
  shows "tab_ok (set_chan x p c')"
  unfolding tab_ok_def
proof (intro conjI allI impI)
  show "0 \<in> vcpus (set_chan x p c')" using tab_okD(1) [OF x] by simp
next
  fix q d assume "chans (set_chan x p c') q = Some d"
  then show "chan_ok (set_chan x p c') q d"
    using c' tab_okD(2) [OF x, of q d] by (auto split: if_splits)
next
  fix k v q assume "virqs (set_chan x p c') (k, v) = Some q"
  then show "\<exists>d. chans (set_chan x p c') q = Some d \<and> state d = ECS_VIRQ v \<and> k = virq_home v d"
    using tab_okD(3) [OF x, of k v q] c by auto
next
  fix q r assume "pirqs (set_chan x p c') q = Some r"
  then show "\<exists>d. chans (set_chan x p c') r = Some d \<and> state d = ECS_PIRQ q"
    using tab_okD(4) [OF x, of q r] c by auto
qed

text \<open>Changing the target VCPU or the consumer of a channel, not its state.\<close>

lemma tab_ok_same_state:
  assumes x: "tab_ok x" and c: "chans x p = Some c" and c': "chan_ok x p c'" "state c' = state c"
    "\<And>v. state c = ECS_VIRQ v \<Longrightarrow> virq_home v c' = virq_home v c"
  shows "tab_ok (set_chan x p c')"
  unfolding tab_ok_def
proof (intro conjI allI impI)
  show "0 \<in> vcpus (set_chan x p c')" using tab_okD(1) [OF x] by simp
next
  fix q d assume "chans (set_chan x p c') q = Some d"
  then show "chan_ok (set_chan x p c') q d"
    using c' tab_okD(2) [OF x, of q d] by (auto split: if_splits)
next
  fix k v q assume "virqs (set_chan x p c') (k, v) = Some q"
  then show "\<exists>d. chans (set_chan x p c') q = Some d \<and> state d = ECS_VIRQ v \<and> k = virq_home v d"
    using tab_okD(3) [OF x, of k v q] c c' by auto
next
  fix q r assume "pirqs (set_chan x p c') q = Some r"
  then show "\<exists>d. chans (set_chan x p c') r = Some d \<and> state d = ECS_PIRQ q"
    using tab_okD(4) [OF x, of q r] c c' by auto
qed

text \<open>Binding an interrupt to a free channel, and closing such a channel.\<close>

lemma tab_ok_bind_virq:
  assumes x: "tab_ok x" and c: "chans x p = Some c" "state c = ECS_FREE"
    and free: "virqs x (k, v) = None" and k: "k \<in> vcpus x" "global_virq v \<Longrightarrow> k = 0"
    and c': "state c' = ECS_VIRQ v" "notify_vcpu_id c' = k"
  shows "tab_ok ((set_chan x p c')\<lparr>virqs := (virqs x)((k, v) \<mapsto> p)\<rparr>)" (is "tab_ok ?x")
  unfolding tab_ok_def
proof (intro conjI allI impI)
  have p0: "p \<noteq> 0" using tab_okD(2) [OF x c(1)] c(2) by (auto simp: chan_ok_def)
  have home: "virq_home v c' = k" using k(2) c'(2) by (auto simp: virq_home_def)
  show "0 \<in> vcpus ?x" using tab_okD(1) [OF x] by simp
  fix q d assume q: "chans ?x q = Some d"
  show "chan_ok ?x q d"
  proof (cases "q = p")
    case True
    then have "d = c'" using q by simp
    then show ?thesis using True p0 home c' k by (simp add: chan_ok_def)
  next
    case False
    then have "chan_ok x q d" using q tab_okD(2) [OF x, of q d] by simp
    then show ?thesis using free False by (auto simp: chan_ok_def)
  qed
next
  have home: "virq_home v c' = k" using k(2) c'(2) by (auto simp: virq_home_def)
  fix j u q assume "virqs ?x (j, u) = Some q"
  then show "\<exists>d. chans ?x q = Some d \<and> state d = ECS_VIRQ u \<and> j = virq_home u d"
    using tab_okD(3) [OF x, of j u q] c c' home by (auto split: if_splits)
next
  fix q r assume "pirqs ?x q = Some r"
  then show "\<exists>d. chans ?x r = Some d \<and> state d = ECS_PIRQ q"
    using tab_okD(4) [OF x, of q r] c by auto
qed

lemma tab_ok_close_virq:
  assumes x: "tab_ok x" and c: "chans x p = Some c" "state c = ECS_VIRQ v"
    and c': "chan_ok x p c'" "state c' = ECS_FREE"
  shows "tab_ok ((set_chan x p c')\<lparr>virqs := (\<lambda>(k, u). if u = v \<and> virqs x (k, u) = Some p then None
                                               else virqs x (k, u))\<rparr>)" (is "tab_ok ?x")
  unfolding tab_ok_def
proof (intro conjI allI impI)
  show "0 \<in> vcpus ?x" using tab_okD(1) [OF x] by simp
  fix q d assume q: "chans ?x q = Some d"
  show "chan_ok ?x q d"
  proof (cases "q = p")
    case True
    then show ?thesis using q c' tab_okD(1) [OF x] by (simp add: chan_ok_def)
  next
    case False
    then have "chan_ok x q d" using q tab_okD(2) [OF x, of q d] by simp
    then show ?thesis using False by (auto simp: chan_ok_def)
  qed
next
  fix j u q assume "virqs ?x (j, u) = Some q"
  then have old: "virqs x (j, u) = Some q" "\<not> (u = v \<and> q = p)" by (auto split: if_splits)
  obtain d where d: "chans x q = Some d" "state d = ECS_VIRQ u" "j = virq_home u d"
    using tab_okD(3) [OF x old(1)] by auto
  then have "q \<noteq> p" using c old(2) by auto
  then show "\<exists>d. chans ?x q = Some d \<and> state d = ECS_VIRQ u \<and> j = virq_home u d"
    using d by simp
next
  fix q r assume "pirqs ?x q = Some r"
  then show "\<exists>d. chans ?x r = Some d \<and> state d = ECS_PIRQ q"
    using tab_okD(4) [OF x, of q r] c by auto
qed

lemma tab_ok_bind_pirq:
  assumes x: "tab_ok x" and c: "chans x p = Some c" "state c = ECS_FREE"
    and free: "pirqs x r = None" and c': "state c' = ECS_PIRQ r" "notify_vcpu_id c' \<in> vcpus x"
  shows "tab_ok ((set_chan x p c')\<lparr>pirqs := (pirqs x)(r \<mapsto> p)\<rparr>)" (is "tab_ok ?x")
  unfolding tab_ok_def
proof (intro conjI allI impI)
  have p0: "p \<noteq> 0" using tab_okD(2) [OF x c(1)] c(2) by (auto simp: chan_ok_def)
  show "0 \<in> vcpus ?x" using tab_okD(1) [OF x] by simp
  fix q d assume q: "chans ?x q = Some d"
  show "chan_ok ?x q d"
  proof (cases "q = p")
    case True
    then have "d = c'" using q by simp
    then show ?thesis using True p0 c' by (simp add: chan_ok_def)
  next
    case False
    then have "chan_ok x q d" using q tab_okD(2) [OF x, of q d] by simp
    then show ?thesis using free False by (auto simp: chan_ok_def)
  qed
next
  fix j u q assume "virqs ?x (j, u) = Some q"
  then show "\<exists>d. chans ?x q = Some d \<and> state d = ECS_VIRQ u \<and> j = virq_home u d"
    using tab_okD(3) [OF x, of j u q] c by auto
next
  fix q s assume "pirqs ?x q = Some s"
  then show "\<exists>d. chans ?x s = Some d \<and> state d = ECS_PIRQ q"
    using tab_okD(4) [OF x, of q s] c c' by (auto split: if_splits)
qed

lemma tab_ok_close_pirq:
  assumes x: "tab_ok x" and c: "chans x p = Some c" "state c = ECS_PIRQ r"
    and c': "chan_ok x p c'" "state c' = ECS_FREE"
  shows "tab_ok ((set_chan x p c')\<lparr>pirqs := (pirqs x)(r := None)\<rparr>)" (is "tab_ok ?x")
  unfolding tab_ok_def
proof (intro conjI allI impI)
  have r: "pirqs x r = Some p" using tab_okD(2) [OF x c(1)] c(2) by (simp add: chan_ok_def)
  show "0 \<in> vcpus ?x" using tab_okD(1) [OF x] by simp
  fix q d assume q: "chans ?x q = Some d"
  show "chan_ok ?x q d"
  proof (cases "q = p")
    case True
    then show ?thesis using q c' tab_okD(1) [OF x] by (simp add: chan_ok_def)
  next
    case False
    then have "chan_ok x q d" using q tab_okD(2) [OF x, of q d] by simp
    then show ?thesis using False r by (auto simp: chan_ok_def)
  qed
next
  fix j u q assume "virqs ?x (j, u) = Some q"
  then show "\<exists>d. chans ?x q = Some d \<and> state d = ECS_VIRQ u \<and> j = virq_home u d"
    using tab_okD(3) [OF x, of j u q] c by auto
next
  fix q s assume "pirqs ?x q = Some s"
  then show "\<exists>d. chans ?x s = Some d \<and> state d = ECS_PIRQ q"
    using tab_okD(4) [OF x, of q s] c by (auto split: if_splits)
qed

text \<open>A new bucket of clean channels, and freeing a table that has only closed ones.\<close>

lemma tab_ok_extend:
  assumes x: "tab_ok x" and B: "\<And>p. p \<in> B \<Longrightarrow> chans x p = None \<and> p \<noteq> 0"
  shows "tab_ok (x\<lparr>chans := (\<lambda>p. if p \<in> B then Some zero_evtchn else chans x p)\<rparr>)"
  using x B unfolding tab_ok_def chan_ok_def
  by (auto simp: zero_evtchn_def split: if_splits) (metis option.distinct(1))+

lemma tab_ok_closed:
  assumes x: "tab_ok x" and closed: "\<And>p c. chans x p = Some c \<Longrightarrow> \<not> linked (state c)"
  shows "virqs x = Map.empty" "pirqs x = Map.empty"
proof -
  have "virqs x (k, v) \<noteq> Some p" for k v p
    using tab_okD(3) [OF x, of k v p] closed by fastforce
  then have "virqs x (k, v) = None" for k v by (cases "virqs x (k, v)") simp_all
  then show "virqs x = Map.empty" by (simp add: fun_eq_iff)
  have "pirqs x q \<noteq> Some p" for q p
    using tab_okD(4) [OF x, of q p] closed by fastforce
  then have "pirqs x q = None" for q by (cases "pirqs x q") simp_all
  then show "pirqs x = Map.empty" by (simp add: fun_eq_iff)
qed

lemma tab_ok_release:
  assumes x: "tab_ok x" and closed: "\<And>p c. chans x p = Some c \<Longrightarrow> \<not> linked (state c)"
  shows "tab_ok (x\<lparr>chans := Map.empty\<rparr>)"
  using tab_ok_closed [OF assms] tab_okD(1) [OF x] by (simp add: tab_ok_def)

section \<open>Updates that span domains\<close>

lemma links_ok_local:
  assumes V: "links_ok V" "V i = Some x" and c: "chans x p = Some c" "peer_of (Some (state c)) = None"
    and x': "tab_ok x'" "chans x' = (chans x)(p \<mapsto> c')" "peer_of (Some (state c')) = None"
  shows "links_ok (V(i \<mapsto> x'))"
proof (rule links_ok_upd [OF V(1) x'(1)])
  show "peers_ok (chan_state (V(i \<mapsto> x')))"
    using V x' c by (simp add: chan_state_upd [of V i x x' p c'] links_ok_def chan_stateI peers_ok_upd)
qed

lemma links_ok_same_state:
  assumes V: "links_ok V" "V i = Some x" and c: "chans x p = Some c"
    and x': "tab_ok x'" "chans x' = (chans x)(p \<mapsto> c')" "state c' = state c"
  shows "links_ok (V(i \<mapsto> x'))"
proof (rule links_ok_upd [OF V(1) x'(1)])
  have "(chan_state V)((i, p) \<mapsto> state c') = chan_state V"
    using V(2) c x'(3) by (simp add: fun_upd_idem chan_stateI)
  then show "peers_ok (chan_state (V(i \<mapsto> x')))"
    using V chan_state_upd [of V i x x' p c'] x'(2) by (simp add: links_ok_def)
qed

lemma links_ok_same_chans:
  assumes "links_ok V" "V i = Some x" "tab_ok x'" "chans x' = chans x"
  shows "links_ok (V(i \<mapsto> x'))"
  using assms by (intro links_ok_upd) (auto simp: chan_state_same links_ok_def)

lemma links_ok_extend:
  assumes V: "links_ok V" "V i = Some x" and B: "\<And>p. p \<in> B \<Longrightarrow> chans x p = None \<and> p \<noteq> 0"
    and x': "x' = x\<lparr>chans := (\<lambda>p. if p \<in> B then Some zero_evtchn else chans x p)\<rparr>"
  shows "links_ok (V(i \<mapsto> x'))"
proof (rule links_ok_upd [OF V(1)])
  show "tab_ok x'" using tab_ok_extend [OF links_ok_tab [OF V] B] x' by simp
  have "peer_of (chan_state (V(i \<mapsto> x')) a) = peer_of (chan_state V a)" for a
    using V(2) B x' by (cases a) (auto simp: chan_state_def zero_evtchn_def)
  then show "peers_ok (chan_state (V(i \<mapsto> x')))"
    using V(1) by (simp add: links_ok_def peers_ok_def comp_def)
qed

lemma links_ok_release:
  assumes V: "links_ok V" "V i = Some x" and closed: "\<And>p c. chans x p = Some c \<Longrightarrow> \<not> linked (state c)"
    and x': "x' = x\<lparr>chans := Map.empty\<rparr>"
  shows "links_ok (V(i \<mapsto> x'))"
proof (rule links_ok_upd [OF V(1)])
  show "tab_ok x'" using tab_ok_release [OF links_ok_tab [OF V] closed] x' by simp
  have "peer_of (chan_state (V(i \<mapsto> x')) a) = peer_of (chan_state V a)" for a
    using V(2) closed x' by (cases a) (auto simp: chan_state_def split: bind_splits)
  then show "peers_ok (chan_state (V(i \<mapsto> x')))"
    using V(1) by (simp add: links_ok_def peers_ok_def comp_def)
qed

lemma links_ok_connect:
  assumes V: "links_ok V" "V i = Some x" "chans x p = Some c" "\<not> linked (state c)"
    and W: "V j = Some y" "chans y q = Some d" "\<not> linked (state d)" and ne: "(i, p) \<noteq> (j, q)"
    and c': "state c' = ECS_INTERDOMAIN j q" "chan_ok x p c'"
    and d': "state d' = ECS_INTERDOMAIN i p" "chan_ok y q d'"
    and y': "(V(i \<mapsto> set_chan x p c')) j = Some y'"
  shows "links_ok (V(i \<mapsto> set_chan x p c', j \<mapsto> set_chan y' q d'))"
proof -
  let ?V = "V(i \<mapsto> set_chan x p c')"
  have un: "state e \<noteq> ECS_VIRQ v" "state e \<noteq> ECS_PIRQ r" if "\<not> linked (state e)" for e :: evtchn and v r
    using that by auto
  have x': "tab_ok (set_chan x p c')"
    by (rule tab_ok_set_chan [OF links_ok_tab [of V i, OF V(1,2)] V(3)]) (use un V(4) c' in auto)
  have y1: "chans y' q = Some d" "tab_ok y'" "chan_ok y' q d'"
    using y' W V(2) ne x' d' links_ok_tab [of V j, OF V(1) W(1)] by (auto split: if_splits)
  have y2: "tab_ok (set_chan y' q d')"
    by (rule tab_ok_set_chan [OF y1(2,1)]) (use un W(3) d' y1(3) in auto)
  have "chan_state (?V(j \<mapsto> set_chan y' q d'))
      = (chan_state V)((i, p) := Some (state c'), (j, q) := Some (state d'))"
    using chan_state_upd [of V i x "set_chan x p c'" p c'] V(2)
      chan_state_upd [of ?V j y' "set_chan y' q d'" q d'] y' by simp
  moreover have "peers_ok ((chan_state V)((i, p) := Some (state c'), (j, q) := Some (state d')))"
    by (rule peers_ok_connect)
      (use V W c' d' ne in \<open>simp_all add: links_ok_def chan_stateI\<close>)
  ultimately show ?thesis
    using V(1) x' y2 by (auto simp: links_ok_def)
qed

lemma links_ok_disconnect:
  assumes V: "links_ok V" "V i = Some x" "chans x p = Some c" "state c = ECS_INTERDOMAIN j q"
    and W: "V j = Some y" "chans y q = Some d"
    and d': "state d' = ECS_UNBOUND i" "chan_ok y q d'"
    and x': "(V(j \<mapsto> set_chan y q d')) i = Some x'"
    and c': "state c' = ECS_FREE" "chan_ok x p c'"
  shows "links_ok (V(j \<mapsto> set_chan y q d', i \<mapsto> set_chan x' p c'))"
proof -
  have peer: "peer_of (chan_state V (i, p)) = Some (j, q)"
    using V by (simp add: chan_stateI)
  have "pairing (peer_of \<circ> chan_state V)" using V(1) by (simp add: links_ok_def peers_ok_def)
  from pairingD [OF this, of "(i, p)" "(j, q)"] peer
  have ne: "(i, p) \<noteq> (j, q)" "peer_of (chan_state V (j, q)) = Some (i, p)" by simp_all
  have d: "state d = ECS_INTERDOMAIN i p"
    using ne(2) W by (simp add: peer_of_Some chan_stateI)
  have y': "tab_ok (set_chan y q d')"
    by (rule tab_ok_set_chan [OF links_ok_tab [of V j, OF V(1) W(1)] W(2)]) (use d d' in auto)
  have x1: "chans x' p = Some c" "tab_ok x'" "chan_ok x' p c'"
    using x' V W ne(1) y' c' links_ok_tab [of V i, OF V(1,2)] by (auto split: if_splits)
  have x2: "tab_ok (set_chan x' p c')"
    by (rule tab_ok_set_chan [OF x1(2,1)]) (use V(4) c' x1(3) in auto)
  have "chan_state (V(j \<mapsto> set_chan y q d', i \<mapsto> set_chan x' p c'))
      = (chan_state V)((j, q) := Some (state d'), (i, p) := Some (state c'))"
    using chan_state_upd [of V j y "set_chan y q d'" q d'] W(1)
      chan_state_upd [of "V(j \<mapsto> set_chan y q d')" i x' "set_chan x' p c'" p c'] x' by simp
  moreover have "peers_ok ((chan_state V)((j, q) := Some (state d'), (i, p) := Some (state c')))"
    by (rule peers_ok_disconnect)
      (use V peer d' c' in \<open>simp_all add: links_ok_def\<close>)
  ultimately show ?thesis
    using V(1) x2 y' by (auto simp: links_ok_def)
qed

end
