(* ===== verification/Event_Channel_Inv.thy ===== *)
theory Event_Channel_Inv
  imports Event_Channel_Spec
begin

text \<open>
  The event-channel code implements the abstract tables: \<open>tab\<close> reads a table off a domain, and
  every operation changes the tables in one of the ways that \<open>Event_Channel_Spec\<close> allows.  The
  invariant \<open>evtchn_inv\<close> of the hypervisor state consists of the shape of each domain's data
  (\<open>dom_ok\<close>) and of the invariant of the tables.
\<close>

section \<open>Abstraction and invariant\<close>

definition chan :: "domain \<Rightarrow> nat \<Rightarrow> evtchn option" where
  "chan d p = (if port_is_valid d (int p) then evtchn_from_port d p else None)"

definition virq_port :: "domain \<Rightarrow> nat \<times> nat \<Rightarrow> nat option" where
  "virq_port d kv = do {
     v \<leftarrow> vcpu_at d (fst kv);
     p \<leftarrow> array_get (virq_to_evtchn v) (snd kv);
     if p = 0 then None else Some p
   }"

definition pirq_port :: "domain \<Rightarrow> nat \<Rightarrow> nat option" where
  "pirq_port d q = do { p \<leftarrow> array_get (pirq_to_evtchn d) q; if p = 0 then None else Some p }"

definition tab :: "domain \<Rightarrow> dtab" where
  "tab d = \<lparr>chans = chan d, virqs = virq_port d, pirqs = pirq_port d,
            vcpus = {k. vcpu_at d k \<noteq> None}, dead = (is_dying d \<noteq> DOMDYING_alive)\<rparr>"

definition links_of :: "hyp \<Rightarrow> links" where
  "links_of w i = map_option tab (w i)"

fun bucket_ok :: "nat \<Rightarrow> nat \<Rightarrow> bucket \<Rightarrow> bool" where
  "bucket_ok m b Null_bucket = True"
| "bucket_ok m b (Bucket cs) = (length cs = EVTCHNS_PER_BUCKET \<and> b * EVTCHNS_PER_BUCKET < m)"
| "bucket_ok m b Freed_bucket = False"

definition buckets_ok :: "nat \<Rightarrow> bucket list \<Rightarrow> bool" where
  "buckets_ok m bs \<longleftrightarrow>
     length bs = NR_EVTCHN_BUCKETS \<and>
     (\<forall>b < NR_EVTCHN_BUCKETS. bucket_ok m b (bs ! b)) \<and>
     (\<forall>a b. a < b \<longrightarrow> b < NR_EVTCHN_BUCKETS \<longrightarrow> bs ! b \<noteq> Null_bucket \<longrightarrow> bs ! a \<noteq> Null_bucket)"

definition arrays_ok :: "domain \<Rightarrow> bool" where
  "arrays_ok d \<longleftrightarrow>
     length (pirq_to_evtchn d) = nr_pirqs d \<and> nr_pirqs d \<le> 65536 \<and>
     length (vcpu d) \<le> MAX_VIRT_CPUS \<and>
     (\<forall>v. Some v \<in> set (vcpu d) \<longrightarrow> length (virq_to_evtchn v) = NR_VIRQS) \<and>
     (\<forall>k \<in> poll_mask d. vcpu_at d k \<noteq> None) \<and>
     rangeset_wf (irq_caps d) \<and>
     pirq_bound d = dom (pirq_port d)"

definition dom_ok :: "domain \<Rightarrow> bool" where
  "dom_ok d \<longleftrightarrow>
     buckets_ok (MAX_EVTCHNS d) (evtchn d) \<and>
     (is_dying d = DOMDYING_alive \<longrightarrow> evtchn d ! 0 \<noteq> Null_bucket) \<and>
     arrays_ok d"

definition evtchn_inv :: "hyp \<Rightarrow> bool" where
  "evtchn_inv w \<longleftrightarrow> (\<forall>i d. w i = Some d \<longrightarrow> dom_ok d) \<and> links_ok (links_of w)"

lemma tab_sel [simp]:
  "chans (tab d) = chan d" "virqs (tab d) = virq_port d" "pirqs (tab d) = pirq_port d"
  "vcpus (tab d) = {k. vcpu_at d k \<noteq> None}" "dead (tab d) = (is_dying d \<noteq> DOMDYING_alive)"
  by (simp_all add: tab_def)

lemma links_of_Some [simp]: "w i = Some d \<Longrightarrow> links_of w i = Some (tab d)"
  by (simp add: links_of_def)

lemma links_of_upd [simp]: "links_of (w(i \<mapsto> d)) = (links_of w)(i \<mapsto> tab d)"
  by (auto simp: links_of_def fun_eq_iff)

lemma evtchn_invD:
  assumes "evtchn_inv w"
  shows "w i = Some d \<Longrightarrow> dom_ok d" "links_ok (links_of w)" "w i = Some d \<Longrightarrow> tab_ok (tab d)"
proof -
  show "w i = Some d \<Longrightarrow> dom_ok d" "links_ok (links_of w)" using assms by (auto simp: evtchn_inv_def)
  then show "w i = Some d \<Longrightarrow> tab_ok (tab d)" using links_ok_tab [of "links_of w" i "tab d"] by simp
qed

lemma evtchn_inv_upd:
  assumes "evtchn_inv w" "dom_ok d'" "links_ok ((links_of w)(i \<mapsto> tab d'))"
  shows "evtchn_inv (w(i \<mapsto> d'))"
  using assms by (auto simp: evtchn_inv_def)

section \<open>Channels in buckets\<close>

lemma MAX_EVTCHNS_cases: "MAX_EVTCHNS d = 1024 \<or> MAX_EVTCHNS d = 4096"
  by (simp add: MAX_EVTCHNS_def BITS_PER_EVTCHN_WORD_def)

lemma MAX_EVTCHNS_le: "MAX_EVTCHNS d \<le> 4096"
  using MAX_EVTCHNS_cases [of d] by auto

lemma port_bucket_less: "p < MAX_EVTCHNS d \<Longrightarrow> p div EVTCHNS_PER_BUCKET < NR_EVTCHN_BUCKETS"
  using MAX_EVTCHNS_le [of d] by (simp add: EVTCHNS_PER_BUCKET_def NR_EVTCHN_BUCKETS_def less_mult_imp_div_less)

lemma buckets_okD:
  assumes "buckets_ok m bs"
  shows "length bs = NR_EVTCHN_BUCKETS" "b < NR_EVTCHN_BUCKETS \<Longrightarrow> bucket_ok m b (bs ! b)"
    "a < b \<Longrightarrow> b < NR_EVTCHN_BUCKETS \<Longrightarrow> bs ! b \<noteq> Null_bucket \<Longrightarrow> bs ! a \<noteq> Null_bucket"
  using assms unfolding buckets_ok_def by blast+

lemma arrays_okD:
  assumes "arrays_ok d"
  shows "length (pirq_to_evtchn d) = nr_pirqs d" "nr_pirqs d \<le> 65536" "max_vcpus d \<le> MAX_VIRT_CPUS"
    "Some v \<in> set (vcpu d) \<Longrightarrow> length (virq_to_evtchn v) = NR_VIRQS"
    "k \<in> poll_mask d \<Longrightarrow> vcpu_at d k \<noteq> None"
    "rangeset_wf (irq_caps d)" "pirq_bound d = dom (pirq_port d)"
  using assms unfolding arrays_ok_def max_vcpus_def by blast+

lemma dom_okD:
  assumes "dom_ok d"
  shows "buckets_ok (MAX_EVTCHNS d) (evtchn d)" "arrays_ok d"
    "is_dying d = DOMDYING_alive \<Longrightarrow> evtchn d ! 0 \<noteq> Null_bucket"
    "length (evtchn d) = NR_EVTCHN_BUCKETS"
  using assms unfolding dom_ok_def buckets_ok_def by blast+

lemma bucket_okE:
  assumes "bucket_ok m b x" "x \<noteq> Null_bucket"
  obtains cs where "x = Bucket cs" "length cs = EVTCHNS_PER_BUCKET" "b * EVTCHNS_PER_BUCKET < m"
  using assms by (cases x) auto

lemma port_mod_less [simp]: "p mod EVTCHNS_PER_BUCKET < EVTCHNS_PER_BUCKET"
  by (simp add: EVTCHNS_PER_BUCKET_def)

text \<open>The bucket behind a valid port.\<close>

lemma port_validE:
  assumes "dom_ok d" "port_is_valid d (int p)"
  obtains cs where "p < MAX_EVTCHNS d" "p div EVTCHNS_PER_BUCKET < NR_EVTCHN_BUCKETS"
    "evtchn d ! (p div EVTCHNS_PER_BUCKET) = Bucket cs" "length cs = EVTCHNS_PER_BUCKET"
    "evtchn_from_port d p = Some (cs ! (p mod EVTCHNS_PER_BUCKET))"
proof -
  have p: "p < MAX_EVTCHNS d" "evtchn d ! (p div EVTCHNS_PER_BUCKET) \<noteq> Null_bucket"
    using assms(2) by (simp_all add: port_is_valid_def bucket_from_port_def)
  note b = port_bucket_less [OF p(1)]
  obtain cs where "evtchn d ! (p div EVTCHNS_PER_BUCKET) = Bucket cs" "length cs = EVTCHNS_PER_BUCKET"
    using bucket_okE [OF buckets_okD(2) [OF dom_okD(1) [OF assms(1)] b] p(2)] by metis
  moreover have "evtchn_from_port d p = Some (cs ! (p mod EVTCHNS_PER_BUCKET))"
    using b calculation dom_okD(4) [OF assms(1)] by (simp add: evtchn_from_port_def)
  ultimately show thesis using that p(1) b by blast
qed

lemma valid_chan: "dom_ok d \<Longrightarrow> port_is_valid d (int p) \<longleftrightarrow> chan d p \<noteq> None"
  using port_validE [of d p] by (auto simp: chan_def)

lemma chan_from_port: "chan d p = Some c \<Longrightarrow> evtchn_from_port d p = Some c"
  by (simp add: chan_def split: if_splits)

lemma chan_valid: "chan d p = Some c \<Longrightarrow> port_is_valid d (int p)"
  by (simp add: chan_def split: if_splits)

lemma chan_less: "chan d p = Some c \<Longrightarrow> p < MAX_EVTCHNS d"
  by (simp add: chan_def port_is_valid_def split: if_splits)

lemma to_u16_port: "chan d p = Some c \<Longrightarrow> to_u16 (int p) = p"
  using chan_less [of d p c] MAX_EVTCHNS_le [of d] by (simp add: to_u16_def)

lemma port_is_valid_nat:
  "port_is_valid d p \<Longrightarrow> port_is_valid d (int (nat p))" "port_is_valid d p \<Longrightarrow> int (nat p) = p"
  by (auto simp: port_is_valid_def)

lemma port_validE_int:
  assumes "dom_ok d" "port_is_valid d p"
  obtains n c where "p = int n" "chan d n = Some c" "evtchn_from_port d n = Some c"
proof -
  have "chan d (nat p) \<noteq> None" using valid_chan [OF assms(1), of "nat p"] port_is_valid_nat [OF assms(2)] by simp
  then obtain c where "chan d (nat p) = Some c" by blast
  with that [of "nat p" c] show thesis
    using port_is_valid_nat [OF assms(2)] chan_from_port by simp
qed

section \<open>Writing a channel\<close>

lemma set_evtchn_sel [simp]:
  "vcpu (set_evtchn d p c) = vcpu d" "has_32bit_shinfo (set_evtchn d p c) = has_32bit_shinfo d"
  "pirq_to_evtchn (set_evtchn d p c) = pirq_to_evtchn d" "nr_pirqs (set_evtchn d p c) = nr_pirqs d"
  "is_dying (set_evtchn d p c) = is_dying d" "poll_mask (set_evtchn d p c) = poll_mask d"
  "irq_caps (set_evtchn d p c) = irq_caps d" "evtchn_pending (set_evtchn d p c) = evtchn_pending d"
  "evtchn_mask (set_evtchn d p c) = evtchn_mask d" "is_hvm (set_evtchn d p c) = is_hvm d"
  "pirq_bound (set_evtchn d p c) = pirq_bound d"
  by (simp_all add: set_evtchn_def split: bucket.splits)

lemma MAX_EVTCHNS_cong: "has_32bit_shinfo d' = has_32bit_shinfo d \<Longrightarrow> MAX_EVTCHNS d' = MAX_EVTCHNS d"
  by (simp add: MAX_EVTCHNS_def BITS_PER_EVTCHN_WORD_def)

lemma vcpu_at_cong: "vcpu d' = vcpu d \<Longrightarrow> vcpu_at d' k = vcpu_at d k"
  by (simp add: vcpu_at_def)

lemma pirq_port_cong: "pirq_to_evtchn d' = pirq_to_evtchn d \<Longrightarrow> pirq_port d' = pirq_port d"
  by (simp add: pirq_port_def fun_eq_iff)

lemma set_evtchn_pirq_port [simp]: "pirq_port (set_evtchn d p c) = pirq_port d"
  by (rule pirq_port_cong) simp

lemma set_evtchn_MAX [simp]: "MAX_EVTCHNS (set_evtchn d p c) = MAX_EVTCHNS d"
  by (rule MAX_EVTCHNS_cong) simp

lemma set_evtchn_vcpu_at [simp]: "vcpu_at (set_evtchn d p c) k = vcpu_at d k"
  by (rule vcpu_at_cong) simp

lemma port_eqI:
  assumes "p div EVTCHNS_PER_BUCKET = q div EVTCHNS_PER_BUCKET"
    "p mod EVTCHNS_PER_BUCKET = q mod EVTCHNS_PER_BUCKET"
  shows "p = q"
  using assms by (metis div_mult_mod_eq)

lemma buckets_ok_update:
  assumes bs: "buckets_ok m bs" and b: "b < NR_EVTCHN_BUCKETS" "bs ! b \<noteq> Null_bucket"
    and cs: "length cs = EVTCHNS_PER_BUCKET"
  shows "buckets_ok m (bs[b := Bucket cs])"
proof -
  have null: "bs[b := Bucket cs] ! a = Null_bucket \<longleftrightarrow> bs ! a = Null_bucket" for a
    using b buckets_okD(1) [OF bs] by (cases "a = b") auto
  have "bucket_ok m a (bs[b := Bucket cs] ! a)" if "a < NR_EVTCHN_BUCKETS" for a
    using buckets_okD(1) [OF bs] buckets_okD(2) [OF bs that] bucket_okE b(2) cs that
    by (cases "a = b") auto
  then show ?thesis
    using bs unfolding buckets_ok_def null by simp
qed

lemma chan_set_evtchn:
  assumes d: "dom_ok d" and c: "chan d p = Some c"
  shows "chan (set_evtchn d p c') = (chan d)(p \<mapsto> c')"
proof
  fix q
  obtain cs where cs: "p div EVTCHNS_PER_BUCKET < NR_EVTCHN_BUCKETS"
    "evtchn d ! (p div EVTCHNS_PER_BUCKET) = Bucket cs" "length cs = EVTCHNS_PER_BUCKET"
    using port_validE [OF d chan_valid [OF c]] by blast
  have ev: "evtchn (set_evtchn d p c') =
      (evtchn d)[p div EVTCHNS_PER_BUCKET := Bucket (cs[p mod EVTCHNS_PER_BUCKET := c'])]"
    using cs by (simp add: set_evtchn_def bucket_from_port_def)
  have valid: "port_is_valid (set_evtchn d p c') (int q) = port_is_valid d (int q)"
    using cs by (cases "q div EVTCHNS_PER_BUCKET = p div EVTCHNS_PER_BUCKET")
      (auto simp: port_is_valid_def bucket_from_port_def ev dom_okD(4) [OF d])
  show "chan (set_evtchn d p c') q = ((chan d)(p \<mapsto> c')) q"
  proof (cases "q = p")
    case True
    then show ?thesis
      using cs valid chan_valid [OF c] dom_okD(4) [OF d] by (simp add: chan_def evtchn_from_port_def ev)
  next
    case False
    have "evtchn_from_port (set_evtchn d p c') q = evtchn_from_port d q"
    proof (cases "q div EVTCHNS_PER_BUCKET = p div EVTCHNS_PER_BUCKET")
      case True
      then have "q mod EVTCHNS_PER_BUCKET \<noteq> p mod EVTCHNS_PER_BUCKET" using False port_eqI by blast
      then show ?thesis using cs True dom_okD(4) [OF d] by (simp add: evtchn_from_port_def ev)
    next
      case False
      then show ?thesis by (simp add: evtchn_from_port_def ev array_get_update)
    qed
    then show ?thesis using False valid by (simp add: chan_def)
  qed
qed

lemma dom_ok_set_evtchn:
  assumes d: "dom_ok d" and c: "chan d p = Some c"
  shows "dom_ok (set_evtchn d p c')"
proof -
  let ?b = "p div EVTCHNS_PER_BUCKET"
  obtain cs where cs: "?b < NR_EVTCHN_BUCKETS" "evtchn d ! ?b = Bucket cs" "length cs = EVTCHNS_PER_BUCKET"
    using port_validE [OF d chan_valid [OF c]] by blast
  have ev: "evtchn (set_evtchn d p c') = (evtchn d)[?b := Bucket (cs[p mod EVTCHNS_PER_BUCKET := c'])]"
    using cs by (simp add: set_evtchn_def bucket_from_port_def)
  have "buckets_ok (MAX_EVTCHNS d) (evtchn (set_evtchn d p c'))"
    unfolding ev by (rule buckets_ok_update [OF dom_okD(1) [OF d] cs(1)]) (simp_all add: cs)
  moreover have "arrays_ok (set_evtchn d p c')"
    using dom_okD(2) [OF d] by (simp add: arrays_ok_def)
  moreover have "evtchn (set_evtchn d p c') ! 0 \<noteq> Null_bucket" if "is_dying d = DOMDYING_alive"
    using dom_okD(3,4) [OF d] that cs by (cases "?b = 0") (auto simp: ev)
  ultimately show ?thesis by (simp add: dom_ok_def)
qed

lemma tab_set_evtchn:
  assumes "dom_ok d" "chan d p = Some c"
  shows "tab (set_evtchn d p c') = set_chan (tab d) p c'"
  using chan_set_evtchn [OF assms] by (simp add: tab_def set_chan_def virq_port_def pirq_port_def fun_eq_iff)

section \<open>Allocating a port\<close>

text \<open>The channel of port \<open>p\<close> exists and is not free.\<close>

definition busy :: "domain \<Rightarrow> nat \<Rightarrow> bool" where
  "busy d p \<longleftrightarrow> (\<exists>c. chan d p = Some c \<and> state c \<noteq> ECS_FREE)"

lemma free_port_loop_spec:
  assumes "dom_ok d" "port + n = MAX_EVTCHNS d" "\<forall>q < port. busy d q"
  shows "(\<exists>p c. free_port_loop d port n = Some (Inl p) \<and> chan d p = Some c \<and> state c = ECS_FREE \<and> (\<forall>q < p. busy d q)) \<or>
         (\<exists>p. free_port_loop d port n = Some (Inr p) \<and> chan d p = None \<and> p \<le> MAX_EVTCHNS d \<and> (\<forall>q < p. busy d q))"
  using assms(2,3)
proof (induction n arbitrary: port)
  case 0
  then have "chan d port = None" by (auto simp: chan_def port_is_valid_def)
  then show ?case using 0 by simp
next
  case (Suc n)
  show ?case
  proof (cases "port_is_valid d (int port)")
    case True
    then obtain c where c: "chan d port = Some c"
      using valid_chan [OF assms(1)] by blast
    show ?thesis
    proof (cases "state c = ECS_FREE")
      case True
      then show ?thesis using Suc.prems c chan_valid [OF c] chan_from_port [OF c] by simp
    next
      case False
      then have "\<forall>q < Suc port. busy d q" using Suc.prems(2) c by (auto simp: busy_def less_Suc_eq)
      then show ?thesis
        using Suc.IH [of "Suc port"] Suc.prems(1) False chan_valid [OF c] chan_from_port [OF c] by simp
    qed
  next
    case False
    then show ?thesis using Suc.prems by (simp add: chan_def)
  qed
qed

text \<open>The verdict of the security module on the labels of a new bucket.\<close>

definition labels_ok :: "env \<Rightarrow> bool" where
  "labels_ok E = list_all (\<lambda>i. \<not> xsm_alloc_security_evtchn E i) [0..<EVTCHNS_PER_BUCKET]"

definition add_bucket :: "domain \<Rightarrow> nat \<Rightarrow> domain" where
  "add_bucket d b = d\<lparr>evtchn := (evtchn d)[b := Bucket (replicate EVTCHNS_PER_BUCKET zero_evtchn)]\<rparr>"

lemma get_free_port_cases:
  assumes d: "dom_ok d" and E: "labels_ok E"
  obtains
    (fail) e where "get_free_port E d = Some (d, - e)" "e = EINVAL \<or> e = ENOSPC \<or> e = ENOMEM"
  | (old) p c where "get_free_port E d = Some (d, int p)" "is_dying d = DOMDYING_alive"
      "chan d p = Some c" "state c = ECS_FREE"
  | (new) p where "get_free_port E d = Some (add_bucket d (p div EVTCHNS_PER_BUCKET), int p)"
      "is_dying d = DOMDYING_alive" "p < MAX_EVTCHNS d" "chan d p = None" "\<forall>q < p. busy d q"
proof -
  have "\<not> list_ex (xsm_alloc_security_evtchn E) [0..<EVTCHNS_PER_BUCKET]"
    using E by (auto simp: labels_ok_def list_all_iff list_ex_iff)
  note lbl = this
  consider "is_dying d \<noteq> DOMDYING_alive"
    | p c where "is_dying d = DOMDYING_alive" "free_port_loop d 0 (MAX_EVTCHNS d) = Some (Inl p)"
        "chan d p = Some c" "state c = ECS_FREE"
    | p where "is_dying d = DOMDYING_alive" "free_port_loop d 0 (MAX_EVTCHNS d) = Some (Inr p)"
        "chan d p = None" "p \<le> MAX_EVTCHNS d" "\<forall>q < p. busy d q"
    using free_port_loop_spec [OF d, of 0 "MAX_EVTCHNS d"] by auto
  then show thesis
  proof cases
    case 1
    then show thesis by (intro fail [of EINVAL]) (simp_all add: get_free_port_def)
  next
    case (2 p c)
    then show thesis by (intro old [of p c]) (simp_all add: get_free_port_def)
  next
    case (3 p)
    note p = 3
    consider "p = MAX_EVTCHNS d" | "p \<noteq> MAX_EVTCHNS d" "\<not> xmalloc_ok E"
      | "p < MAX_EVTCHNS d" "xmalloc_ok E" using 3(4) by linarith
    then show thesis
    proof cases
      case 1
      then show thesis using p by (intro fail [of ENOSPC]) (simp_all add: get_free_port_def)
    next
      case 2
      then show thesis using p by (intro fail [of ENOMEM]) (simp_all add: get_free_port_def)
    next
      case 3
      then have "p div EVTCHNS_PER_BUCKET < length (evtchn d)"
        using port_bucket_less dom_okD(4) [OF d] by metis
      then show thesis using p 3 lbl
        by (intro new [of p]) (simp_all add: get_free_port_def add_bucket_def)
    qed
  qed
qed

lemma add_bucket_sel [simp]:
  "vcpu (add_bucket d b) = vcpu d" "has_32bit_shinfo (add_bucket d b) = has_32bit_shinfo d"
  "pirq_to_evtchn (add_bucket d b) = pirq_to_evtchn d" "nr_pirqs (add_bucket d b) = nr_pirqs d"
  "is_dying (add_bucket d b) = is_dying d" "poll_mask (add_bucket d b) = poll_mask d"
  "irq_caps (add_bucket d b) = irq_caps d" "evtchn_pending (add_bucket d b) = evtchn_pending d"
  "evtchn_mask (add_bucket d b) = evtchn_mask d" "pirq_bound (add_bucket d b) = pirq_bound d"
  "evtchn (add_bucket d b) = (evtchn d)[b := Bucket (replicate EVTCHNS_PER_BUCKET zero_evtchn)]"
  by (simp_all add: add_bucket_def)

lemma add_bucket_pirq_port [simp]: "pirq_port (add_bucket d b) = pirq_port d"
  by (rule pirq_port_cong) simp

lemma add_bucket_MAX [simp]: "MAX_EVTCHNS (add_bucket d b) = MAX_EVTCHNS d"
  by (rule MAX_EVTCHNS_cong) simp

lemma add_bucket_vcpu_at [simp]: "vcpu_at (add_bucket d b) k = vcpu_at d k"
  by (rule vcpu_at_cong) simp

lemma busy_bucket: "busy d q \<Longrightarrow> evtchn d ! (q div EVTCHNS_PER_BUCKET) \<noteq> Null_bucket"
  by (auto simp: busy_def chan_def port_is_valid_def bucket_from_port_def split: if_splits)

lemma same_bucket_less:
  assumes "p < MAX_EVTCHNS d" "q div EVTCHNS_PER_BUCKET = p div EVTCHNS_PER_BUCKET"
  shows "q < MAX_EVTCHNS d"
proof -
  obtain m where m: "MAX_EVTCHNS d = m * EVTCHNS_PER_BUCKET"
    using MAX_EVTCHNS_cases [of d] that [of 8] that [of 32] by (auto simp: EVTCHNS_PER_BUCKET_def)
  have "0 < EVTCHNS_PER_BUCKET" by (simp add: EVTCHNS_PER_BUCKET_def)
  then show ?thesis using assms unfolding m by (metis div_less_iff_less_mult)
qed

lemma new_bucket:
  assumes d: "dom_ok d" and p: "p < MAX_EVTCHNS d" "chan d p = None" "\<forall>q < p. busy d q"
    and b: "b = p div EVTCHNS_PER_BUCKET"
  shows "evtchn d ! b = Null_bucket" "b < NR_EVTCHN_BUCKETS" "p = b * EVTCHNS_PER_BUCKET"
    "a < b \<Longrightarrow> evtchn d ! a \<noteq> Null_bucket"
proof -
  have inv: "\<not> port_is_valid d (int p)" using valid_chan [OF d] p(2) by blast
  show null: "evtchn d ! b = Null_bucket"
    using inv p(1) b by (simp add: port_is_valid_def bucket_from_port_def)
  show "b < NR_EVTCHN_BUCKETS" using port_bucket_less [OF p(1)] b by simp
  show "p = b * EVTCHNS_PER_BUCKET"
  proof (rule ccontr)
    assume "p \<noteq> b * EVTCHNS_PER_BUCKET"
    then have "b * EVTCHNS_PER_BUCKET < p" using b by (simp add: le_neq_implies_less)
    then have "busy d (b * EVTCHNS_PER_BUCKET)" using p(3) by blast
    from busy_bucket [OF this] null show False by (simp add: EVTCHNS_PER_BUCKET_def)
  qed
  show "evtchn d ! a \<noteq> Null_bucket" if "a < b"
  proof -
    have "a * EVTCHNS_PER_BUCKET < p" using that b by (simp add: EVTCHNS_PER_BUCKET_def)
    then have "busy d (a * EVTCHNS_PER_BUCKET)" using p(3) by blast
    from busy_bucket [OF this] show ?thesis by (simp add: EVTCHNS_PER_BUCKET_def)
  qed
qed

lemma dom_ok_add_bucket:
  assumes d: "dom_ok d" and p: "p < MAX_EVTCHNS d" "chan d p = None" "\<forall>q < p. busy d q"
    and b: "b = p div EVTCHNS_PER_BUCKET"
  shows "dom_ok (add_bucket d b)"
proof -
  note nb = new_bucket [OF d p b]
  note bs = dom_okD(1) [OF d]
  let ?bs = "evtchn (add_bucket d b)"
  have "bucket_ok (MAX_EVTCHNS d) a (?bs ! a)" if "a < NR_EVTCHN_BUCKETS" for a
    using that buckets_okD(2) [OF bs that] dom_okD(4) [OF d] p(1) nb(3) by (cases "a = b") auto
  moreover have "?bs ! a \<noteq> Null_bucket" if "a < c" "c < NR_EVTCHN_BUCKETS" "?bs ! c \<noteq> Null_bucket" for a c
  proof -
    have "evtchn d ! a \<noteq> Null_bucket \<or> a = b"
      using buckets_okD(3) [OF bs that(1,2)] that nb(4) dom_okD(4) [OF d] by (cases "c = b") auto
    then show ?thesis using that dom_okD(4) [OF d] by (cases "a = b") auto
  qed
  ultimately have "buckets_ok (MAX_EVTCHNS d) ?bs"
    using dom_okD(4) [OF d] unfolding buckets_ok_def by simp
  moreover have "arrays_ok (add_bucket d b)" using dom_okD(2) [OF d] by (simp add: arrays_ok_def)
  moreover have "?bs ! 0 \<noteq> Null_bucket" if "is_dying d = DOMDYING_alive"
    using dom_okD(3,4) [OF d] that nb(2) by (cases "b = 0") auto
  ultimately show ?thesis by (simp add: dom_ok_def)
qed

lemma chan_add_bucket:
  assumes d: "dom_ok d" and p: "p < MAX_EVTCHNS d" "chan d p = None" "\<forall>q < p. busy d q"
    and b: "b = p div EVTCHNS_PER_BUCKET"
  shows "chan (add_bucket d b) = (\<lambda>q. if q div EVTCHNS_PER_BUCKET = b then Some zero_evtchn else chan d q)"
proof
  fix q
  note nb = new_bucket [OF d p b]
  note len = dom_okD(4) [OF d]
  have b0: "b < length (evtchn d)" using nb(2) len by simp
  show "chan (add_bucket d b) q = (if q div EVTCHNS_PER_BUCKET = b then Some zero_evtchn else chan d q)"
  proof (cases "q div EVTCHNS_PER_BUCKET = b")
    case True
    then have "q < MAX_EVTCHNS d" using same_bucket_less [OF p(1)] b by simp
    then have "port_is_valid (add_bucket d b) (int q)"
      using True b0 by (simp add: port_is_valid_def bucket_from_port_def)
    moreover have "evtchn_from_port (add_bucket d b) q = Some zero_evtchn"
      using True b0 by (simp add: evtchn_from_port_def)
    ultimately show ?thesis using True by (simp add: chan_def)
  next
    case False
    then show ?thesis
      by (simp add: chan_def port_is_valid_def bucket_from_port_def evtchn_from_port_def array_get_update)
  qed
qed

lemma tab_add_bucket:
  assumes "dom_ok d" "p < MAX_EVTCHNS d" "chan d p = None" "\<forall>q < p. busy d q" "b = p div EVTCHNS_PER_BUCKET"
  shows "tab (add_bucket d b) = (tab d)\<lparr>chans := (\<lambda>q. if q \<in> {q. q div EVTCHNS_PER_BUCKET = b}
           then Some zero_evtchn else chans (tab d) q)\<rparr>"
  using chan_add_bucket [OF assms] by (simp add: tab_def virq_port_def pirq_port_def fun_eq_iff)

text \<open>
  What every caller of \<^verbatim>\<open>get_free_port\<close> relies on.  Apart from new, clean channels the domain is
  unchanged.
\<close>

definition grown :: "domain \<Rightarrow> domain \<Rightarrow> bool" where
  "grown d d' \<longleftrightarrow>
     (\<exists>bs. d' = d\<lparr>evtchn := bs\<rparr>) \<and>
     (\<forall>q. chan d' q = chan d q \<or> is_dying d = DOMDYING_alive \<and> chan d q = None \<and> chan d' q = Some zero_evtchn)"

lemma grown_refl [simp]: "grown d d"
  unfolding grown_def by (auto intro: exI [of _ "evtchn d"])

lemma grown_sel:
  assumes "grown d d'"
  shows "vcpu d' = vcpu d" "vcpu_at d' k = vcpu_at d k" "pirq_to_evtchn d' = pirq_to_evtchn d"
    "nr_pirqs d' = nr_pirqs d" "is_dying d' = is_dying d" "irq_caps d' = irq_caps d"
    "MAX_EVTCHNS d' = MAX_EVTCHNS d" "virq_port d' = virq_port d" "pirq_port d' = pirq_port d"
    "max_vcpus d' = max_vcpus d" "evtchn_pending d' = evtchn_pending d"
  using assms
  by (auto simp: grown_def vcpu_at_def MAX_EVTCHNS_def BITS_PER_EVTCHN_WORD_def virq_port_def
      pirq_port_def fun_eq_iff max_vcpus_def)

lemma grown_chan: "grown d d' \<Longrightarrow> chan d q = Some c \<Longrightarrow> chan d' q = Some c"
  unfolding grown_def by (metis option.distinct(1))

lemma grown_add_bucket:
  assumes d: "dom_ok d" "is_dying d = DOMDYING_alive" and p: "p < MAX_EVTCHNS d" "chan d p = None" "\<forall>q < p. busy d q"
  shows "grown d (add_bucket d (p div EVTCHNS_PER_BUCKET))"
    "q div EVTCHNS_PER_BUCKET = p div EVTCHNS_PER_BUCKET \<Longrightarrow> chan d q = None \<and> q \<noteq> 0"
proof -
  let ?b = "p div EVTCHNS_PER_BUCKET"
  have nb: "evtchn d ! ?b = Null_bucket" by (rule new_bucket [OF d(1) p refl])
  show none: "q div EVTCHNS_PER_BUCKET = ?b \<Longrightarrow> chan d q = None \<and> q \<noteq> 0" for q
    using nb dom_okD(3) [OF d]
    by (cases "q = 0") (auto simp: chan_def port_is_valid_def bucket_from_port_def)
  show "grown d (add_bucket d ?b)"
    using chan_add_bucket [OF d(1) p refl] none d(2) unfolding grown_def by (auto simp: add_bucket_def)
qed

lemma get_free_port_inv:
  assumes w: "evtchn_inv w" "w i = Some d" and E: "labels_ok E"
  obtains d' r where "get_free_port E d = Some (d', r)" "evtchn_inv (w(i \<mapsto> d'))" "dom_ok d'" "grown d d'"
    "r < 0 \<Longrightarrow> d' = d"
    "0 \<le> r \<Longrightarrow> is_dying d = DOMDYING_alive \<and> (\<exists>c. chan d' (nat r) = Some c \<and> state c = ECS_FREE)"
proof -
  note d = evtchn_invD(1) [OF w]
  show thesis
  proof (cases rule: get_free_port_cases [OF d E])
    case (1 e)
    then have "e > 0" by (auto simp: errno)
    moreover have "w(i \<mapsto> d) = w" using w(2) by (simp add: fun_upd_idem)
    ultimately show thesis using that [OF 1(1)] w(1) d by simp
  next
    case (2 p c)
    moreover have "w(i \<mapsto> d) = w" using w(2) by (simp add: fun_upd_idem)
    ultimately show thesis using that [OF 2(1)] w(1) d by simp
  next
    case (3 p)
    let ?b = "p div EVTCHNS_PER_BUCKET"
    let ?d = "add_bucket d ?b"
    have ch: "chan ?d = (\<lambda>q. if q div EVTCHNS_PER_BUCKET = ?b then Some zero_evtchn else chan d q)"
      by (rule chan_add_bucket [OF d 3(3-5) refl])
    note grown = grown_add_bucket [OF d 3(2-5)]
    have "dom_ok ?d" by (rule dom_ok_add_bucket [OF d 3(3-5) refl])
    moreover have "links_ok ((links_of w)(i \<mapsto> tab ?d))"
      by (rule links_ok_extend [where x = "tab d" and B = "{q. q div EVTCHNS_PER_BUCKET = ?b}"])
        (use w evtchn_invD(2) [OF w(1)] grown(2) tab_add_bucket [OF d 3(3-5) refl] in auto)
    ultimately have "evtchn_inv (w(i \<mapsto> ?d))" using evtchn_inv_upd [OF w(1)] by blast
    then show thesis
      using that [OF 3(1)] \<open>dom_ok ?d\<close> grown(1) 3(2) ch by (simp add: zero_evtchn_def)
  qed
qed

end
