(* ===== verification/Event_Channel_Sched.thy ===== *)
theory Event_Channel_Sched
  imports Event_Channel_Inv
begin

text \<open>
  Delivering an event changes pending bits and the scheduling state of VCPUs and nothing else:
  the frame relation \<open>sched_frame\<close>, which preserves the tables and the shape of a domain.  The
  functional facts about delivery and polling follow.
\<close>

section \<open>The frame of event delivery\<close>

definition sched_frame :: "domain \<Rightarrow> domain \<Rightarrow> bool" where
  "sched_frame d d' \<longleftrightarrow>
     (\<exists>vs pn mk pm. d' = d\<lparr>vcpu := vs, evtchn_pending := pn, evtchn_mask := mk, poll_mask := pm\<rparr> \<and>
        pm \<subseteq> poll_mask d \<and>
        map (map_option virq_to_evtchn) vs = map (map_option virq_to_evtchn) (vcpu d))"

lemma sched_frame_refl [simp]: "sched_frame d d"
  unfolding sched_frame_def
  by (intro exI [of _ "vcpu d"] exI [of _ "evtchn_pending d"] exI [of _ "evtchn_mask d"]
      exI [of _ "poll_mask d"]) simp

lemma sched_frame_trans:
  assumes "sched_frame a b" "sched_frame b c"
  shows "sched_frame a c"
proof -
  obtain vs pn mk pm where b: "b = a\<lparr>vcpu := vs, evtchn_pending := pn, evtchn_mask := mk, poll_mask := pm\<rparr>"
    "pm \<subseteq> poll_mask a" "map (map_option virq_to_evtchn) vs = map (map_option virq_to_evtchn) (vcpu a)"
    using assms(1) unfolding sched_frame_def by blast
  obtain vs' pn' mk' pm' where c: "c = b\<lparr>vcpu := vs', evtchn_pending := pn', evtchn_mask := mk', poll_mask := pm'\<rparr>"
    "pm' \<subseteq> poll_mask b" "map (map_option virq_to_evtchn) vs' = map (map_option virq_to_evtchn) (vcpu b)"
    using assms(2) unfolding sched_frame_def by blast
  show ?thesis
    unfolding sched_frame_def
    by (intro exI [of _ vs'] exI [of _ pn'] exI [of _ mk'] exI [of _ pm']) (use b c in auto)
qed

lemma sched_frame_bits:
  assumes "pm \<subseteq> poll_mask d"
  shows "sched_frame d (d\<lparr>evtchn_pending := pn, evtchn_mask := mk, poll_mask := pm\<rparr>)"
  unfolding sched_frame_def
  by (intro exI [of _ "vcpu d"] exI [of _ pn] exI [of _ mk] exI [of _ pm]) (use assms in auto)

lemma sched_frame_pending [simp]: "sched_frame d (d\<lparr>evtchn_pending := pn\<rparr>)"
  using sched_frame_bits [where pm = "poll_mask d" and d = d and pn = pn and mk = "evtchn_mask d"] by simp

lemma sched_frame_mask [simp]: "sched_frame d (d\<lparr>evtchn_mask := mk\<rparr>)"
  using sched_frame_bits [where pm = "poll_mask d" and d = d and pn = "evtchn_pending d" and mk = mk] by simp

lemma sched_frame_poll [simp]: "pm \<subseteq> poll_mask d \<Longrightarrow> sched_frame d (d\<lparr>poll_mask := pm\<rparr>)"
  using sched_frame_bits [where pm = pm and d = d and pn = "evtchn_pending d" and mk = "evtchn_mask d"] by simp

lemma vcpu_at_Some: "vcpu_at d k = Some v \<longleftrightarrow> k < length (vcpu d) \<and> vcpu d ! k = Some v"
  by (auto simp: vcpu_at_def array_get_def)

lemma sched_frame_set_vcpu:
  assumes "vcpu_at d k = Some v" "virq_to_evtchn v' = virq_to_evtchn v"
  shows "sched_frame d (set_vcpu d k v')"
proof -
  have "map (map_option virq_to_evtchn) ((vcpu d)[k := Some v']) = map (map_option virq_to_evtchn) (vcpu d)"
    using assms by (auto simp: vcpu_at_Some map_update list_update_same_conv)
  then show ?thesis
    unfolding sched_frame_def set_vcpu_def
    by (intro exI [of _ "(vcpu d)[k := Some v']"] exI [of _ "evtchn_pending d"]
        exI [of _ "evtchn_mask d"] exI [of _ "poll_mask d"]) simp
qed

lemma vcpu_at_set_vcpu:
  "k < max_vcpus d \<Longrightarrow> vcpu_at (set_vcpu d k v) j = (if j = k then Some v else vcpu_at d j)"
  by (auto simp: vcpu_at_def set_vcpu_def array_get_update max_vcpus_def)

lemma vcpu_at_less: "vcpu_at d k = Some v \<Longrightarrow> k < max_vcpus d"
  by (simp add: vcpu_at_Some max_vcpus_def)

lemma set_vcpu_sel [simp]:
  "evtchn (set_vcpu d k v) = evtchn d" "evtchn_pending (set_vcpu d k v) = evtchn_pending d"
  "evtchn_mask (set_vcpu d k v) = evtchn_mask d" "poll_mask (set_vcpu d k v) = poll_mask d"
  "is_hvm (set_vcpu d k v) = is_hvm d" "is_hvm_pv_evtchn (set_vcpu d k v) = is_hvm_pv_evtchn d"
  "has_32bit_shinfo (set_vcpu d k v) = has_32bit_shinfo d" "max_vcpus (set_vcpu d k v) = max_vcpus d"
  "domain_pause_count (set_vcpu d k v) = domain_pause_count d" "is_dying (set_vcpu d k v) = is_dying d"
  "pirq_to_evtchn (set_vcpu d k v) = pirq_to_evtchn d" "nr_pirqs (set_vcpu d k v) = nr_pirqs d"
  "irq_caps (set_vcpu d k v) = irq_caps d" "pirq_bound (set_vcpu d k v) = pirq_bound d"
  by (simp_all add: set_vcpu_def max_vcpus_def)

lemma vcpu_at_bits [simp]:
  "vcpu_at (d\<lparr>evtchn_pending := pn\<rparr>) = vcpu_at d" "vcpu_at (d\<lparr>evtchn_mask := mk\<rparr>) = vcpu_at d"
  "vcpu_at (d\<lparr>poll_mask := pm\<rparr>) = vcpu_at d"
  "max_vcpus (d\<lparr>evtchn_pending := pn\<rparr>) = max_vcpus d" "max_vcpus (d\<lparr>evtchn_mask := mk\<rparr>) = max_vcpus d"
  "max_vcpus (d\<lparr>poll_mask := pm\<rparr>) = max_vcpus d"
  by (simp_all add: vcpu_at_def max_vcpus_def fun_eq_iff)

section \<open>What the frame preserves\<close>

lemma sched_frame_vcpu:
  assumes "sched_frame d d'"
  shows "map_option virq_to_evtchn (vcpu_at d' k) = map_option virq_to_evtchn (vcpu_at d k)"
proof -
  have m: "map (map_option virq_to_evtchn) (vcpu d') = map (map_option virq_to_evtchn) (vcpu d)"
    using assms by (auto simp: sched_frame_def)
  then have len: "length (vcpu d') = length (vcpu d)" by (metis length_map)
  then show ?thesis
    using arg_cong [OF m, of "\<lambda>xs. xs ! k"]
    by (cases "k < length (vcpu d)") (auto simp: vcpu_at_def array_get_def)
qed

lemma sched_frame_vcpu_None: "sched_frame d d' \<Longrightarrow> vcpu_at d' k = None \<longleftrightarrow> vcpu_at d k = None"
  using sched_frame_vcpu [of d d' k] by (cases "vcpu_at d k"; cases "vcpu_at d' k") auto

lemma sched_frame_sel:
  assumes "sched_frame d d'"
  shows "evtchn d' = evtchn d" "has_32bit_shinfo d' = has_32bit_shinfo d"
    "pirq_to_evtchn d' = pirq_to_evtchn d" "nr_pirqs d' = nr_pirqs d" "is_dying d' = is_dying d"
    "irq_caps d' = irq_caps d" "poll_mask d' \<subseteq> poll_mask d" "length (vcpu d') = length (vcpu d)"
    "MAX_EVTCHNS d' = MAX_EVTCHNS d" "pirq_bound d' = pirq_bound d"
proof -
  have "map (map_option virq_to_evtchn) (vcpu d') = map (map_option virq_to_evtchn) (vcpu d)"
    using assms by (auto simp: sched_frame_def)
  then show "length (vcpu d') = length (vcpu d)" by (metis length_map)
qed (use assms in \<open>auto simp: sched_frame_def MAX_EVTCHNS_def BITS_PER_EVTCHN_WORD_def\<close>)

lemma sched_frame_virq_port:
  assumes "sched_frame d d'"
  shows "virq_port d' = virq_port d"
proof
  fix kv
  show "virq_port d' kv = virq_port d kv"
    using sched_frame_vcpu [OF assms, of "fst kv"]
    by (cases "vcpu_at d (fst kv)"; cases "vcpu_at d' (fst kv)") (auto simp: virq_port_def)
qed

lemma sched_frame_chan: "sched_frame d d' \<Longrightarrow> chan d' = chan d"
  using sched_frame_sel [of d d']
  by (simp add: chan_def port_is_valid_def bucket_from_port_def evtchn_from_port_def fun_eq_iff)

lemma sched_frame_tab: "sched_frame d d' \<Longrightarrow> tab d' = tab d"
  using sched_frame_sel [of d d'] sched_frame_virq_port [of d d'] sched_frame_chan [of d d']
  by (simp add: tab_def pirq_port_def sched_frame_vcpu_None fun_eq_iff)

lemma set_Some_vcpu_at: "Some v \<in> set (vcpu d) \<longleftrightarrow> (\<exists>k. vcpu_at d k = Some v)"
  by (auto simp: in_set_conv_nth vcpu_at_Some)

lemma sched_frame_arrays_ok:
  assumes f: "sched_frame d d'" and a: "arrays_ok d"
  shows "arrays_ok d'"
proof -
  note sel = sched_frame_sel [OF f]
  have "length (virq_to_evtchn v) = NR_VIRQS" if "Some v \<in> set (vcpu d')" for v
  proof -
    obtain k where k: "vcpu_at d' k = Some v" using \<open>Some v \<in> set (vcpu d')\<close> by (auto simp: set_Some_vcpu_at)
    then obtain u where u: "vcpu_at d k = Some u" "virq_to_evtchn u = virq_to_evtchn v"
      using sched_frame_vcpu [OF f, of k] by (cases "vcpu_at d k") auto
    then show ?thesis using arrays_okD(4) [OF a, of u] by (auto simp: set_Some_vcpu_at)
  qed
  moreover have "vcpu_at d' k \<noteq> None" if "k \<in> poll_mask d'" for k
    using that sel(7) arrays_okD(5) [OF a, of k] sched_frame_vcpu_None [OF f, of k] by auto
  moreover have "pirq_port d' = pirq_port d" using sel(3) by (simp add: pirq_port_def fun_eq_iff)
  ultimately show ?thesis using a sel unfolding arrays_ok_def by simp
qed

lemma sched_frame_dom_ok: "sched_frame d d' \<Longrightarrow> dom_ok d \<Longrightarrow> dom_ok d'"
  using sched_frame_arrays_ok [OF _ dom_okD(2)] sched_frame_sel [of d d'] by (simp add: dom_ok_def)

lemma sched_frame_inv:
  assumes "evtchn_inv w" "w i = Some d" "sched_frame d d'"
  shows "evtchn_inv (w(i \<mapsto> d'))"
proof (rule evtchn_inv_upd [OF assms(1)])
  show "dom_ok d'" using assms evtchn_invD(1) sched_frame_dom_ok by blast
  have "(links_of w)(i \<mapsto> tab d') = links_of w"
    using assms sched_frame_tab [OF assms(3)] by (simp add: fun_upd_idem)
  then show "links_ok ((links_of w)(i \<mapsto> tab d'))" using evtchn_invD(2) [OF assms(1)] by simp
qed

section \<open>Waking\<close>

text \<open>
  The effect of an operation that wakes VCPU \<open>k\<close>: event bits and the other VCPUs are unchanged,
  and of the polling mask at most the bit of \<open>k\<close> is cleared.
\<close>

definition wakes :: "nat \<Rightarrow> domain \<Rightarrow> domain \<Rightarrow> bool" where
  "wakes k d d' \<longleftrightarrow>
     sched_frame d d' \<and> (\<forall>j. j \<noteq> k \<longrightarrow> vcpu_at d' j = vcpu_at d j) \<and>
     evtchn_pending d' = evtchn_pending d \<and> evtchn_mask d' = evtchn_mask d \<and>
     poll_mask d - {k} \<subseteq> poll_mask d' \<and> poll_mask d' \<subseteq> poll_mask d \<and>
     domain_pause_count d' = domain_pause_count d"

lemma wakes_refl [simp]: "wakes k d d"
  by (auto simp: wakes_def)

lemma wakes_trans: "wakes k a b \<Longrightarrow> wakes k b c \<Longrightarrow> wakes k a c"
  unfolding wakes_def by (auto intro: sched_frame_trans)

lemma wakes_set_vcpu:
  assumes "vcpu_at d k = Some v" "virq_to_evtchn v' = virq_to_evtchn v"
  shows "wakes k d (set_vcpu d k v')"
  using assms sched_frame_set_vcpu [OF assms] vcpu_at_set_vcpu [of k d v'] vcpu_at_less [OF assms(1)]
  by (auto simp: wakes_def)

lemma wakes_clear_poll: "wakes k d (d\<lparr>poll_mask := poll_mask d - {k}\<rparr>)"
  by (auto simp: wakes_def)

lemma vcpu_wake_spec:
  assumes v: "vcpu_at d k = Some v"
  obtains d' v' where "vcpu_wake d k = Some d'" "wakes k d d'" "poll_mask d' = poll_mask d"
    "vcpu_at d' k = Some v'" "v' = v\<lparr>runstate := runstate v'\<rparr>"
    "vcpu_runnable d v \<Longrightarrow> runstate v' = RUNSTATE_runnable \<or> runstate v' = RUNSTATE_running"
proof -
  let ?wake = "\<lambda>s. set_vcpu d k (v\<lparr>runstate := s\<rparr>)"
  have wk: "wakes k d (?wake s)" "vcpu_at (?wake s) k = Some (v\<lparr>runstate := s\<rparr>)" for s
    using wakes_set_vcpu [OF v, of "v\<lparr>runstate := s\<rparr>"] vcpu_at_set_vcpu [of k d] vcpu_at_less [OF v]
    by simp_all
  have def: "vcpu_wake d k = Some (if vcpu_runnable d v then
             (if runstate v \<in> {RUNSTATE_blocked, RUNSTATE_offline} then ?wake RUNSTATE_runnable else d)
           else if VPF_blocked \<notin> pause_flags v \<and> runstate v = RUNSTATE_blocked
           then ?wake RUNSTATE_offline else d)"
    using v by (simp only: vcpu_wake_def bind.bind_lunit)
  consider (run) "vcpu_runnable d v" "runstate v \<in> {RUNSTATE_blocked, RUNSTATE_offline}"
    | (running) "vcpu_runnable d v" "runstate v \<notin> {RUNSTATE_blocked, RUNSTATE_offline}"
    | (offline) "\<not> vcpu_runnable d v" "VPF_blocked \<notin> pause_flags v \<and> runstate v = RUNSTATE_blocked"
    | (same) "\<not> vcpu_runnable d v" "\<not> (VPF_blocked \<notin> pause_flags v \<and> runstate v = RUNSTATE_blocked)"
    by blast
  then show thesis
  proof cases
    case run
    then show thesis using that [of "?wake RUNSTATE_runnable"] def wk by simp
  next
    case running
    then have "runstate v = RUNSTATE_runnable \<or> runstate v = RUNSTATE_running" by (cases "runstate v") auto
    then show thesis using that [of d v] running def v by simp
  next
    case offline
    then show thesis using that [of "?wake RUNSTATE_offline"] def wk by simp
  next
    case same
    then have "vcpu_wake d k = Some d" using def by (simp only: if_False)
    then show thesis using that [of d v] same v by simp
  qed
qed

lemma vcpu_update_swap:
  "v\<lparr>poll_evtchn := a, pause_flags := b\<rparr> = v\<lparr>pause_flags := b, poll_evtchn := a\<rparr>" for v :: vcpu
  by (cases v) simp

lemma vcpu_unblock_spec:
  assumes v: "vcpu_at d k = Some v"
  obtains d' v' where "vcpu_unblock d k = Some d'" "wakes k d d'" "vcpu_at d' k = Some v'"
    "pause_flags v' = pause_flags v - {VPF_blocked}"
    "poll_evtchn v' = poll_evtchn v \<and> poll_mask d' = poll_mask d \<or> poll_evtchn v' = 0 \<and> k \<notin> poll_mask d'"
    "virq_to_evtchn v' = virq_to_evtchn v"
    "evtchn_pending_sel v' = evtchn_pending_sel v" "evtchn_upcall_pending v' = evtchn_upcall_pending v"
proof (cases "VPF_blocked \<in> pause_flags v")
  case False
  then show thesis using that [of d v] v by (simp add: vcpu_unblock_def)
next
  case True
  let ?v1 = "v\<lparr>pause_flags := pause_flags v - {VPF_blocked}\<rparr>"
  define v2 where "v2 = (if poll_evtchn v = 0 then ?v1 else ?v1\<lparr>poll_evtchn := 0\<rparr>)"
  define d1 where "d1 = (if poll_evtchn v \<noteq> 0 \<and> k \<in> poll_mask d then d\<lparr>poll_mask := poll_mask d - {k}\<rparr> else d)"
  have at: "vcpu_at d1 k = Some v" using v by (simp add: d1_def)
  have step: "vcpu_unblock d k = vcpu_wake (set_vcpu d1 k v2) k"
    using True v by (simp add: vcpu_unblock_def d1_def v2_def Let_def vcpu_update_swap)
  have at2: "vcpu_at (set_vcpu d1 k v2) k = Some v2"
    using vcpu_at_set_vcpu [of k d1] vcpu_at_less [OF at] by simp
  obtain d' v' where w: "vcpu_wake (set_vcpu d1 k v2) k = Some d'" "wakes k (set_vcpu d1 k v2) d'"
    "poll_mask d' = poll_mask (set_vcpu d1 k v2)" "vcpu_at d' k = Some v'" "v' = v2\<lparr>runstate := runstate v'\<rparr>"
    by (rule vcpu_wake_spec [OF at2]) blast
  have "wakes k d d1" by (simp add: d1_def wakes_clear_poll)
  moreover have "wakes k d1 (set_vcpu d1 k v2)"
    by (rule wakes_set_vcpu [OF at]) (simp add: v2_def)
  ultimately have "wakes k d d'" using w(2) wakes_trans by blast
  moreover have "pause_flags v' = pause_flags v2" "poll_evtchn v' = poll_evtchn v2"
    "virq_to_evtchn v' = virq_to_evtchn v2" "evtchn_pending_sel v' = evtchn_pending_sel v2"
    "evtchn_upcall_pending v' = evtchn_upcall_pending v2"
    by (subst w(5), simp)+
  ultimately show thesis
    using that [of d' v'] step w by (simp add: v2_def d1_def)
qed

lemma mark_events_spec:
  assumes v: "vcpu_at d k = Some v"
  obtains d' v' where "vcpu_mark_events_pending irq d k = Some d'" "wakes k d d'" "vcpu_at d' k = Some v'"
    "evtchn_upcall_pending v'" "evtchn_pending_sel v' = evtchn_pending_sel v"
    "pause_flags v' \<subseteq> pause_flags v"
    "poll_evtchn v' = poll_evtchn v \<and> poll_mask d' = poll_mask d \<or>
       poll_evtchn v' = 0 \<and> k \<notin> poll_mask d' \<and> VPF_blocked \<notin> pause_flags v'"
    "\<not> is_hvm d \<Longrightarrow> \<not> evtchn_upcall_pending v \<Longrightarrow> VPF_blocked \<notin> pause_flags v'"
proof (cases "evtchn_upcall_pending v")
  case True
  then show thesis using that [of d v] v by (simp add: vcpu_mark_events_pending_def)
next
  case False
  let ?v1 = "v\<lparr>evtchn_upcall_pending := True\<rparr>"
  let ?d1 = "set_vcpu d k ?v1"
  have at: "vcpu_at ?d1 k = Some ?v1" using vcpu_at_set_vcpu [of k d] vcpu_at_less [OF v] by simp
  have wk: "wakes k d ?d1" by (rule wakes_set_vcpu [OF v]) simp
  show thesis
  proof (cases "is_hvm d \<and> (irq \<or> \<not> is_hvm_pv_evtchn d)")
    case True
    then have "vcpu_mark_events_pending irq d k = Some ?d1"
      using False v by (auto simp: vcpu_mark_events_pending_def hvm_assert_evtchn_irq_def Let_def)
    then show thesis using that [of ?d1 ?v1] wk at True by simp
  next
    case kick: False
    then have step: "vcpu_mark_events_pending irq d k = vcpu_unblock ?d1 k"
      using False v by (auto simp: vcpu_mark_events_pending_def hvm_assert_evtchn_irq_def vcpu_kick_def Let_def)
    obtain d' v' where u: "vcpu_unblock ?d1 k = Some d'" "wakes k ?d1 d'" "vcpu_at d' k = Some v'"
      "pause_flags v' = pause_flags ?v1 - {VPF_blocked}"
      "poll_evtchn v' = poll_evtchn ?v1 \<and> poll_mask d' = poll_mask ?d1 \<or> poll_evtchn v' = 0 \<and> k \<notin> poll_mask d'"
      "evtchn_pending_sel v' = evtchn_pending_sel ?v1" "evtchn_upcall_pending v' = evtchn_upcall_pending ?v1"
      by (rule vcpu_unblock_spec [OF at]) blast
    have "wakes k d d'" using wakes_trans [OF wk u(2)] .
    then show thesis using that [of d' v'] step u by auto
  qed
qed

section \<open>Polling\<close>

text \<open>
  VCPU \<open>j\<close> polls for \<open>port\<close> (or for anything), and VCPU \<open>j\<close> has been woken from polling.
\<close>

definition polls :: "domain \<Rightarrow> nat \<Rightarrow> nat \<Rightarrow> bool" where
  "polls d j port \<longleftrightarrow>
     j \<in> poll_mask d \<and> (\<exists>v. vcpu_at d j = Some v \<and> (poll_evtchn v \<le> 0 \<or> poll_evtchn v = int port))"

definition released :: "domain \<Rightarrow> nat \<Rightarrow> bool" where
  "released d j \<longleftrightarrow> j \<notin> poll_mask d \<and> (\<exists>v. vcpu_at d j = Some v \<and> VPF_blocked \<notin> pause_flags v)"

lemma wakes_other:
  assumes "wakes k d d'" "j \<noteq> k"
  shows "polls d' j port = polls d j port" "released d' j = released d j"
proof -
  have "j \<in> poll_mask d' \<longleftrightarrow> j \<in> poll_mask d" "vcpu_at d' j = vcpu_at d j"
    using assms by (auto simp: wakes_def)
  then show "polls d' j port = polls d j port" "released d' j = released d j"
    by (simp_all add: polls_def released_def)
qed

text \<open>The event part of the page a VCPU shares with the guest.\<close>

definition event_info :: "vcpu \<Rightarrow> nat set \<times> bool" where
  "event_info v = (evtchn_pending_sel v, evtchn_upcall_pending v)"

definition infos :: "domain \<Rightarrow> nat \<Rightarrow> (nat set \<times> bool) option" where
  "infos d j = map_option event_info (vcpu_at d j)"

lemma wake_pollers_spec:
  assumes "\<forall>j \<in> poll_mask d. vcpu_at d j \<noteq> None"
  obtains d' where "wake_pollers d port k n = Some d'" "sched_frame d d'"
    "evtchn_pending d' = evtchn_pending d" "evtchn_mask d' = evtchn_mask d"
    "infos d' = infos d" "\<And>j. released d j \<Longrightarrow> released d' j"
    "\<And>j. polls d j port \<Longrightarrow> polls d' j port \<or> released d' j"
    "\<And>j. polls d j port \<Longrightarrow> k \<le> j \<Longrightarrow> j < k + n \<Longrightarrow> released d' j"
  using assms
proof (induction n arbitrary: d k thesis)
  case 0
  then show ?case by auto
next
  case (Suc n)
  show ?case
  proof (cases "k \<in> poll_mask d")
    case False
    obtain d' where d': "wake_pollers d port (Suc k) n = Some d'" "sched_frame d d'"
      "evtchn_pending d' = evtchn_pending d" "evtchn_mask d' = evtchn_mask d"
      "infos d' = infos d" "\<And>j. released d j \<Longrightarrow> released d' j"
      "\<And>j. polls d j port \<Longrightarrow> polls d' j port \<or> released d' j"
      "\<And>j. polls d j port \<Longrightarrow> Suc k \<le> j \<Longrightarrow> j < Suc k + n \<Longrightarrow> released d' j"
      by (rule Suc.IH [of d "Suc k"]) (use Suc.prems(2) in blast)+
    show ?thesis
    proof (rule Suc.prems(1))
      show "wake_pollers d port k (Suc n) = Some d'" using False d'(1) by simp
      show "released d' j" if "polls d j port" "k \<le> j" "j < k + Suc n" for j
        using that False d'(8) [of j] by (cases "j = k") (auto simp: polls_def)
    qed (use d' in auto)
  next
    case True
    then obtain v where v: "vcpu_at d k = Some v" using Suc.prems(2) by blast
    let ?int = "poll_evtchn v \<le> 0 \<or> poll_evtchn v = int port"
    obtain d1 where d1: "(if ?int then vcpu_unblock (set_vcpu (d\<lparr>poll_mask := poll_mask d - {k}\<rparr>) k
            (v\<lparr>poll_evtchn := 0\<rparr>)) k else Some d) = Some d1"
      "wakes k d d1" "?int \<Longrightarrow> released d1 k" "infos d1 = infos d"
    proof (cases ?int)
      case True
      let ?e = "d\<lparr>poll_mask := poll_mask d - {k}\<rparr>"
      let ?d = "set_vcpu ?e k (v\<lparr>poll_evtchn := 0\<rparr>)"
      have at: "vcpu_at ?e k = Some v" using v by simp
      have at': "vcpu_at ?d k = Some (v\<lparr>poll_evtchn := 0\<rparr>)"
        using vcpu_at_set_vcpu [of k ?e] vcpu_at_less [OF at] by simp
      obtain d' v' where u: "vcpu_unblock ?d k = Some d'" "wakes k ?d d'" "vcpu_at d' k = Some v'"
        "pause_flags v' = pause_flags (v\<lparr>poll_evtchn := 0\<rparr>) - {VPF_blocked}"
        "evtchn_pending_sel v' = evtchn_pending_sel (v\<lparr>poll_evtchn := 0\<rparr>)"
        "evtchn_upcall_pending v' = evtchn_upcall_pending (v\<lparr>poll_evtchn := 0\<rparr>)"
        by (rule vcpu_unblock_spec [OF at']) blast
      have "wakes k ?e ?d" by (rule wakes_set_vcpu [OF at]) simp
      then have wk: "wakes k d d'" using wakes_clear_poll wakes_trans u(2) by blast
      have "infos d' j = infos d j" for j
        using wk u v by (cases "j = k") (auto simp: infos_def event_info_def wakes_def)
      then have "infos d' = infos d" by blast
      moreover have "released d' k" using u by (auto simp: released_def wakes_def)
      ultimately show thesis using that True u(1) wk by simp
    next
      case False
      then show thesis using that [of d] by simp
    qed
    have all: "\<forall>j \<in> poll_mask d1. vcpu_at d1 j \<noteq> None"
      using Suc.prems(2) d1(2) sched_frame_vcpu_None [of d d1] by (auto simp: wakes_def)
    obtain d' where d': "wake_pollers d1 port (Suc k) n = Some d'" "sched_frame d1 d'"
      "evtchn_pending d' = evtchn_pending d1" "evtchn_mask d' = evtchn_mask d1"
      "infos d' = infos d1" "\<And>j. released d1 j \<Longrightarrow> released d' j"
      "\<And>j. polls d1 j port \<Longrightarrow> polls d' j port \<or> released d' j"
      "\<And>j. polls d1 j port \<Longrightarrow> Suc k \<le> j \<Longrightarrow> j < Suc k + n \<Longrightarrow> released d' j"
      by (rule Suc.IH [of d1 "Suc k"]) (use all in blast)+
    have here: "released d' k" if "polls d k port" using that v d1(3) d'(6) by (auto simp: polls_def)
    show ?thesis
    proof (rule Suc.prems(1))
      show "wake_pollers d port k (Suc n) = Some d'" using True v d1(1) d'(1) by simp
      show "sched_frame d d'" using sched_frame_trans d1(2) d'(2) by (auto simp: wakes_def)
      show "evtchn_pending d' = evtchn_pending d" "evtchn_mask d' = evtchn_mask d"
        using d1(2) d' by (auto simp: wakes_def)
      show "infos d' = infos d" using d1(4) d'(5) by simp
      show "released d' j" if "released d j" for j
        using that True wakes_other [OF d1(2), of j] d'(6) by (cases "j = k") (auto simp: released_def)
      show "polls d' j port \<or> released d' j" if "polls d j port" for j
        using that here wakes_other [OF d1(2), of j] d'(7) by (cases "j = k") auto
      show "released d' j" if "polls d j port" "k \<le> j" "j < k + Suc n" for j
        using that here wakes_other [OF d1(2), of j] d'(8) [of j] by (cases "j = k") auto
    qed
  qed
qed

section \<open>Delivery\<close>

lemma evtchn_set_pending_spec:
  assumes d: "arrays_ok d" and v: "vcpu_at d k = Some v"
  obtains d' r where "evtchn_set_pending E d k port = Some (d', r)" "sched_frame d d'"
    "evtchn_pending d' = insert port (evtchn_pending d)" "evtchn_mask d' = evtchn_mask d"
    "r = (if port \<in> evtchn_pending d then 1 else 0)"
    "port \<in> evtchn_pending d \<Longrightarrow> d' = d"
    "\<And>j. port \<notin> evtchn_pending d \<Longrightarrow> polls d j port \<Longrightarrow> released d' j"
    "port \<notin> evtchn_pending d \<Longrightarrow> port \<notin> evtchn_mask d \<Longrightarrow>
       \<exists>v'. vcpu_at d' k = Some v' \<and> port div BITS_PER_EVTCHN_WORD d \<in> evtchn_pending_sel v' \<and>
         (port div BITS_PER_EVTCHN_WORD d \<notin> evtchn_pending_sel v \<longrightarrow> evtchn_upcall_pending v')"
proof (cases "port \<in> evtchn_pending d")
  case True
  then show thesis using that [of d 1] v by (simp add: evtchn_set_pending_def insert_absorb)
next
  case False
  let ?d1 = "d\<lparr>evtchn_pending := insert port (evtchn_pending d)\<rparr>"
  let ?sel = "port div BITS_PER_EVTCHN_WORD d"
  let ?v1 = "v\<lparr>evtchn_pending_sel := insert ?sel (evtchn_pending_sel v)\<rparr>"
  let ?m = "port \<notin> evtchn_mask ?d1 \<and> ?sel \<notin> evtchn_pending_sel v"
  have at: "vcpu_at ?d1 k = Some v" using v by simp
  have po: "polls ?d1 j port = polls d j port" for j by (simp add: polls_def)
  obtain d2 v2 where d2: "(if ?m then vcpu_mark_events_pending (in_irq E) (set_vcpu ?d1 k ?v1) k else Some ?d1) = Some d2"
    "wakes k ?d1 d2" "\<And>j. polls ?d1 j port \<Longrightarrow> polls d2 j port \<or> released d2 j"
    "vcpu_at d2 k = Some v2" "port \<notin> evtchn_mask d \<Longrightarrow> ?sel \<in> evtchn_pending_sel v2"
    "?m \<Longrightarrow> evtchn_upcall_pending v2"
  proof (cases ?m)
    case True
    have at1: "vcpu_at (set_vcpu ?d1 k ?v1) k = Some ?v1"
      using vcpu_at_set_vcpu [of k ?d1] vcpu_at_less [OF at] by simp
    have wk1: "wakes k ?d1 (set_vcpu ?d1 k ?v1)" by (rule wakes_set_vcpu [OF at]) simp
    obtain d2 v2 where m: "vcpu_mark_events_pending (in_irq E) (set_vcpu ?d1 k ?v1) k = Some d2"
      "wakes k (set_vcpu ?d1 k ?v1) d2" "vcpu_at d2 k = Some v2" "evtchn_upcall_pending v2"
      "evtchn_pending_sel v2 = evtchn_pending_sel ?v1"
      "poll_evtchn v2 = poll_evtchn ?v1 \<and> poll_mask d2 = poll_mask (set_vcpu ?d1 k ?v1) \<or>
       poll_evtchn v2 = 0 \<and> k \<notin> poll_mask d2 \<and> VPF_blocked \<notin> pause_flags v2"
      by (rule mark_events_spec [OF at1, of "in_irq E"]) blast
    have wk: "wakes k ?d1 d2" using wakes_trans [OF wk1 m(2)] .
    have "polls d2 j port \<or> released d2 j" if "polls ?d1 j port" for j
      using that m v wakes_other [OF wk, of j] by (cases "j = k") (auto simp: polls_def released_def)
    then show thesis using that [of d2 v2] True m wk by simp
  next
    case False
    then show thesis using that [of ?d1 v] at by auto
  qed
  have all: "\<forall>j \<in> poll_mask d2. vcpu_at d2 j \<noteq> None"
    using arrays_okD(5) [OF d] d2(2) sched_frame_vcpu_None [of ?d1 d2] by (auto simp: wakes_def)
  have fr: "sched_frame d d2" using sched_frame_trans [of d ?d1 d2] d2(2) by (simp add: wakes_def)
  show thesis
  proof (cases "list_all (\<lambda>j. j \<notin> poll_mask d2) [0..<max_vcpus d2]")
    case True
    then have "\<not> polls d2 j port" for j
      using vcpu_at_less [of d2 j] by (auto simp: polls_def list_all_iff)
    then show thesis
      using True False v that [of d2 0] d2 fr po
      by (auto simp: evtchn_set_pending_def Let_def wakes_def)
  next
    case pollers: False
    obtain d3 where d3: "wake_pollers d2 port 0 (max_vcpus d2) = Some d3" "sched_frame d2 d3"
      "evtchn_pending d3 = evtchn_pending d2" "evtchn_mask d3 = evtchn_mask d2" "infos d3 = infos d2"
      "\<And>j. released d2 j \<Longrightarrow> released d3 j" "\<And>j. polls d2 j port \<Longrightarrow> polls d3 j port \<or> released d3 j"
      "\<And>j. polls d2 j port \<Longrightarrow> 0 \<le> j \<Longrightarrow> j < 0 + max_vcpus d2 \<Longrightarrow> released d3 j"
      by (rule wake_pollers_spec [OF all, of port 0 "max_vcpus d2"]) blast
    have res: "evtchn_set_pending E d k port = Some (d3, 0)"
      using pollers False v d2(1) d3(1) by (simp add: evtchn_set_pending_def Let_def)
    have info: "\<exists>v'. vcpu_at d3 k = Some v' \<and> event_info v' = event_info v2"
      using d2(4) fun_cong [OF d3(5), of k] by (auto simp: infos_def)
    show thesis
    proof (rule that [OF res])
      show "sched_frame d d3" using sched_frame_trans [OF fr d3(2)] .
      show "evtchn_pending d3 = insert port (evtchn_pending d)" "evtchn_mask d3 = evtchn_mask d"
        using d3 d2(2) by (auto simp: wakes_def)
      show "released d3 j" if "polls d j port" for j
        using that d2(3) po d3(6) d3(8) [of j] vcpu_at_less by (fastforce simp: polls_def)
      show "\<exists>v'. vcpu_at d3 k = Some v' \<and> ?sel \<in> evtchn_pending_sel v' \<and>
         (?sel \<notin> evtchn_pending_sel v \<longrightarrow> evtchn_upcall_pending v')" if "port \<notin> evtchn_mask d"
        using info d2(5,6) that by (auto simp: event_info_def)
    qed (use False in auto)
  qed
qed

end
