(* ===== verification/Event_Channel_Ops.thy ===== *)
theory Event_Channel_Ops
  imports Event_Channel_Sched
begin

text \<open>
  Every event-channel operation returns without crashing, keeps the invariant, and changes the
  state only in ways that concurrent operations can rely on: \<open>steady\<close> says that no domain
  disappears and that a port of a dying domain is either closed for good or keeps the domain it
  is bound to.  The operations that
  release the event lock on their way are correct for every interference that has these same
  two properties.
\<close>

section \<open>What other processors may do\<close>

definition closed :: "domain \<Rightarrow> nat \<Rightarrow> bool" where
  "closed d p \<longleftrightarrow> (\<forall>c. chan d p = Some c \<longrightarrow> state c = ECS_FREE \<or> state c = ECS_RESERVED)"

text \<open>
  The binding of a channel up to being connected or waiting: an interdomain channel and an
  unbound one that belong to the same remote domain turn into each other.
\<close>

definition kind :: "ecs \<Rightarrow> ecs" where
  "kind s = (case s of ECS_INTERDOMAIN r _ \<Rightarrow> ECS_UNBOUND r | _ \<Rightarrow> s)"

lemma kind_simps [simp]:
  "kind ECS_FREE = ECS_FREE" "kind ECS_RESERVED = ECS_RESERVED" "kind (ECS_UNBOUND r) = ECS_UNBOUND r"
  "kind (ECS_INTERDOMAIN r q) = ECS_UNBOUND r" "kind (ECS_PIRQ n) = ECS_PIRQ n"
  "kind (ECS_VIRQ n) = ECS_VIRQ n" "kind ECS_IPI = ECS_IPI"
  by (simp_all add: kind_def)

definition settled :: "domain \<Rightarrow> domain \<Rightarrow> nat \<Rightarrow> bool" where
  "settled d d' p \<longleftrightarrow>
     closed d' p \<or>
     (\<exists>c c'. chan d p = Some c \<and> chan d' p = Some c' \<and> kind (state c') = kind (state c) \<and>
        (consumer_is_xen c' \<longrightarrow> consumer_is_xen c))"

definition steady :: "hyp \<Rightarrow> hyp \<Rightarrow> bool" where
  "steady w w' \<longleftrightarrow>
     (\<forall>i d. w i = Some d \<longrightarrow>
        (\<exists>d'. w' i = Some d' \<and> has_32bit_shinfo d' = has_32bit_shinfo d \<and>
           (is_dying d \<noteq> DOMDYING_alive \<longrightarrow>
              is_dying d' \<noteq> DOMDYING_alive \<and> (\<forall>p. settled d d' p))))"

definition good :: "hyp \<Rightarrow> hyp \<Rightarrow> bool" where
  "good w w' \<longleftrightarrow> evtchn_inv w' \<and> steady w w'"

text \<open>An environment whose other processors respect the invariant and \<open>steady\<close>.\<close>

definition tame :: "env \<Rightarrow> bool" where
  "tame E \<longleftrightarrow> (\<forall>n w. evtchn_inv w \<longrightarrow> good w (unlocked E n w))"

lemma kind_closed: "kind s = kind t \<Longrightarrow> s = ECS_FREE \<or> s = ECS_RESERVED \<Longrightarrow> t = s"
  by (cases t) auto

lemma settled_closed:
  assumes "settled d d' p" "closed d p"
  shows "closed d' p"
  using assms kind_closed unfolding settled_def closed_def by (metis option.inject)

lemma settled_same: "chan d' p = chan d p \<Longrightarrow> settled d d' p"
  by (cases "chan d p") (auto simp: settled_def closed_def)

lemma settled_frame: "chan d' = chan d \<Longrightarrow> settled d d' = (\<lambda>p. True)"
  by (simp add: fun_eq_iff settled_same)

lemma settled_trans:
  assumes "settled a b p" "settled b c p"
  shows "settled a c p"
proof (cases "closed b p \<or> closed c p")
  case True
  then show ?thesis using settled_closed [OF assms(2)] by (auto simp: settled_def)
next
  case False
  then show ?thesis using assms unfolding settled_def by (metis option.inject)
qed

lemma settled_upd:
  assumes "chan d' = (chan d)(p \<mapsto> c')" "chan d p = Some c"
    "state c' = ECS_FREE \<or> kind (state c') = kind (state c) \<and> (consumer_is_xen c' \<longrightarrow> consumer_is_xen c)"
  shows "settled d d' q"
  using assms settled_same [of d' q d] by (cases "q = p") (auto simp: settled_def closed_def)

lemma steady_refl [simp]: "steady w w"
  by (simp add: steady_def settled_frame)

lemma steady_trans:
  assumes "steady a b" "steady b c"
  shows "steady a c"
  unfolding steady_def
proof (intro allI impI)
  fix i x assume "a i = Some x"
  then obtain y where y: "b i = Some y" "has_32bit_shinfo y = has_32bit_shinfo x"
    "is_dying x \<noteq> DOMDYING_alive \<longrightarrow> is_dying y \<noteq> DOMDYING_alive \<and> (\<forall>p. settled x y p)"
    using assms(1) unfolding steady_def by blast
  then obtain z where z: "c i = Some z" "has_32bit_shinfo z = has_32bit_shinfo y"
    "is_dying y \<noteq> DOMDYING_alive \<longrightarrow> is_dying z \<noteq> DOMDYING_alive \<and> (\<forall>p. settled y z p)"
    using assms(2) unfolding steady_def by blast
  show "\<exists>z. c i = Some z \<and> has_32bit_shinfo z = has_32bit_shinfo x \<and>
      (is_dying x \<noteq> DOMDYING_alive \<longrightarrow> is_dying z \<noteq> DOMDYING_alive \<and> (\<forall>p. settled x z p))"
    using y z by (auto intro: settled_trans)
qed

lemma good_refl: "evtchn_inv w \<Longrightarrow> good w w"
  by (simp add: good_def)

lemma good_trans: "good a b \<Longrightarrow> good b c \<Longrightarrow> good a c"
  unfolding good_def using steady_trans by blast

lemma goodD: "good w w' \<Longrightarrow> evtchn_inv w'" "good w w' \<Longrightarrow> steady w w'"
  by (simp_all add: good_def)

lemma steady_upd:
  assumes "w i = Some d" "has_32bit_shinfo d' = has_32bit_shinfo d" "is_dying d' = is_dying d"
    "\<And>p. is_dying d \<noteq> DOMDYING_alive \<Longrightarrow> settled d d' p"
  shows "steady w (w(i \<mapsto> d'))"
  using assms by (auto simp: steady_def settled_frame)

lemma steadyE:
  assumes "steady w w'" "w i = Some d"
  obtains d' where "w' i = Some d'" "has_32bit_shinfo d' = has_32bit_shinfo d"
    "is_dying d \<noteq> DOMDYING_alive \<Longrightarrow> is_dying d' \<noteq> DOMDYING_alive"
    "\<And>p. is_dying d \<noteq> DOMDYING_alive \<Longrightarrow> settled d d' p"
  using assms unfolding steady_def by blast

section \<open>Elementary steps\<close>

lemma modify_evtchn_eq:
  assumes "w i = Some d" "chan d p = Some c"
  shows "modify_evtchn w i p f = Some (w(i \<mapsto> set_evtchn d p (f c)))"
  using assms chan_from_port [OF assms(2)] by (simp add: modify_evtchn_def)

text \<open>A frame step of the scheduler or of event bits.\<close>

lemma good_sched_frame:
  assumes "evtchn_inv w" "w i = Some d" "sched_frame d d'"
  shows "good w (w(i \<mapsto> d'))"
  unfolding good_def
proof
  show "evtchn_inv (w(i \<mapsto> d'))" by (rule sched_frame_inv [OF assms])
  show "steady w (w(i \<mapsto> d'))"
    by (rule steady_upd [of w i d])
      (use assms(2) sched_frame_sel(2,5) [OF assms(3)] settled_same [of d' _ d] sched_frame_chan [OF assms(3)] in auto)
qed

lemma set_pending_on_good:
  assumes w: "evtchn_inv w" "w i = Some d" and k: "vcpu_at d k \<noteq> None"
  obtains d' r where "set_pending_on E w i k port = Some (w(i \<mapsto> d'), r)" "good w (w(i \<mapsto> d'))"
    "sched_frame d d'" "evtchn_pending d' = insert port (evtchn_pending d)"
    "r = (if port \<in> evtchn_pending d then 1 else 0)"
proof -
  obtain v where v: "vcpu_at d k = Some v" using k by blast
  obtain d' r where s: "evtchn_set_pending E d k port = Some (d', r)" "sched_frame d d'"
    "evtchn_pending d' = insert port (evtchn_pending d)" "r = (if port \<in> evtchn_pending d then 1 else 0)"
    by (rule evtchn_set_pending_spec [OF dom_okD(2) [OF evtchn_invD(1) [OF w]] v, of E port]) blast
  show thesis
    by (rule that [of d' r]) (use s w good_sched_frame [OF w s(2)] in \<open>simp_all add: set_pending_on_def\<close>)
qed

text \<open>Writing a channel that is linked to nothing, before and after.\<close>

lemma good_set_unlinked:
  assumes w: "evtchn_inv w" "w i = Some d" and c: "chan d p = Some c" "\<not> linked (state c)"
    and c': "\<not> linked (state c')" "chan_ok (tab d) p c'"
    and st: "is_dying d = DOMDYING_alive \<or> state c' = ECS_FREE"
  shows "good w (w(i \<mapsto> set_evtchn d p c'))"
  unfolding good_def
proof
  note d = evtchn_invD(1) [OF w]
  have t: "tab (set_evtchn d p c') = set_chan (tab d) p c'" by (rule tab_set_evtchn [OF d c(1)])
  have un: "state e \<noteq> ECS_VIRQ v" "state e \<noteq> ECS_PIRQ r" if "\<not> linked (state e)" for e :: evtchn and v r
    using that by auto
  have tok: "tab_ok (set_chan (tab d) p c')"
    by (rule tab_ok_set_chan [where c = c]) (use evtchn_invD(3) [OF w] c c' un in auto)
  have "links_ok ((links_of w)(i \<mapsto> set_chan (tab d) p c'))"
    by (rule links_ok_local [where x = "tab d" and c = c and p = p and c' = c'])
      (use evtchn_invD(2) [OF w(1)] w(2) c c' tok in auto)
  then show "evtchn_inv (w(i \<mapsto> set_evtchn d p c'))"
    using evtchn_inv_upd [OF w(1) dom_ok_set_evtchn [OF d c(1)]] t by simp
  show "steady w (w(i \<mapsto> set_evtchn d p c'))"
    by (rule steady_upd [of w i d]) (use st w(2) settled_upd [OF chan_set_evtchn [OF d c(1)] c(1)] in auto)
qed

text \<open>Changing the target VCPU or the consumer of a channel.\<close>

lemma good_same_state:
  assumes w: "evtchn_inv w" "w i = Some d" and c: "chan d p = Some c"
    and c': "state c' = state c" "chan_ok (tab d) p c'" "consumer_is_xen c' \<Longrightarrow> consumer_is_xen c"
    "\<And>v. state c = ECS_VIRQ v \<Longrightarrow> virq_home v c' = virq_home v c"
  shows "good w (w(i \<mapsto> set_evtchn d p c'))"
  unfolding good_def
proof
  note d = evtchn_invD(1) [OF w]
  have t: "tab (set_evtchn d p c') = set_chan (tab d) p c'" by (rule tab_set_evtchn [OF d c])
  have tok: "tab_ok (set_chan (tab d) p c')"
    by (rule tab_ok_same_state [where c = c]) (use evtchn_invD(3) [OF w] c c' in auto)
  have "links_ok ((links_of w)(i \<mapsto> set_chan (tab d) p c'))"
    by (rule links_ok_same_state [where x = "tab d" and c = c and p = p and c' = c'])
      (use evtchn_invD(2) [OF w(1)] w(2) c c' tok in auto)
  then show "evtchn_inv (w(i \<mapsto> set_evtchn d p c'))"
    using evtchn_inv_upd [OF w(1) dom_ok_set_evtchn [OF d c]] t by simp
  show "steady w (w(i \<mapsto> set_evtchn d p c'))"
    by (rule steady_upd [of w i d]) (use w(2) c' settled_upd [OF chan_set_evtchn [OF d c] c] in auto)
qed

text \<open>The start of every allocation.\<close>

lemma get_free_port_good:
  assumes w: "evtchn_inv w" "w i = Some d" and E: "labels_ok E"
  obtains d' r where "get_free_port E d = Some (d', r)" "good w (w(i \<mapsto> d'))" "dom_ok d'" "grown d d'"
    "r < 0 \<Longrightarrow> d' = d"
    "0 \<le> r \<Longrightarrow> is_dying d = DOMDYING_alive \<and> (\<exists>c. chan d' (nat r) = Some c \<and> state c = ECS_FREE)"
proof -
  obtain d' r where g: "get_free_port E d = Some (d', r)" "evtchn_inv (w(i \<mapsto> d'))" "dom_ok d'" "grown d d'"
    "r < 0 \<Longrightarrow> d' = d"
    "0 \<le> r \<Longrightarrow> is_dying d = DOMDYING_alive \<and> (\<exists>c. chan d' (nat r) = Some c \<and> state c = ECS_FREE)"
    by (rule get_free_port_inv [OF w E]) blast
  have "has_32bit_shinfo d' = has_32bit_shinfo d" using g(4) by (auto simp: grown_def)
  moreover have "settled d d' p" if "is_dying d \<noteq> DOMDYING_alive" for p
    using g(4) that by (auto simp: grown_def intro: settled_same)
  ultimately have "steady w (w(i \<mapsto> d'))"
    using w(2) grown_sel(5) [OF g(4)] by (intro steady_upd [of w i d d']) auto
  then show thesis using that [of d' r] g by (simp add: good_def)
qed

section \<open>Allocation\<close>

lemma chan_okI_unlinked:
  assumes "chan_ok x p c" "state c = ECS_FREE" "\<not> linked (state c')" "state c' \<noteq> ECS_FREE"
    "notify_vcpu_id c' \<in> vcpus x"
  shows "chan_ok x p c'"
  using assms by (auto simp: chan_ok_def)

lemma chan_okD:
  assumes w: "evtchn_inv w" "w i = Some d" and c: "chan d p = Some c"
  shows "chan_ok (tab d) p c" "vcpu_at d (notify_vcpu_id c) \<noteq> None"
    "state c = ECS_FREE \<Longrightarrow> notify_vcpu_id c = 0 \<and> \<not> consumer_is_xen c \<and> p \<noteq> 0"
proof -
  show ok: "chan_ok (tab d) p c" using tab_okD(2) [OF evtchn_invD(3) [OF w]] c by simp
  then show "vcpu_at d (notify_vcpu_id c) \<noteq> None"
    "state c = ECS_FREE \<Longrightarrow> notify_vcpu_id c = 0 \<and> \<not> consumer_is_xen c \<and> p \<noteq> 0"
    by (auto simp: chan_ok_def)
qed

lemma lock_target_cases:
  assumes "w cur = Some x"
  obtains (err) rc where "rcu_lock_target_domain_by_id w cur dm = Some (Inl rc)" "rc = - ESRCH \<or> rc = - EPERM"
  | (dom) i d where "rcu_lock_target_domain_by_id w cur dm = Some (Inr i)" "w i = Some d"
      "i = (if dm = DOMID_SELF then cur else dm)"
proof (cases "dm = DOMID_SELF")
  case True
  then show thesis using dom [of cur x] assms by (simp add: rcu_lock_target_domain_by_id_def)
next
  case False
  show thesis
  proof (cases "w dm")
    case None
    then show thesis using False err [of "- ESRCH"] by (simp add: rcu_lock_target_domain_by_id_def)
  next
    case (Some d)
    then show thesis
      using False assms dom [of dm d] err [of "- EPERM"]
      by (cases "is_privileged x \<or> target x = Some dm")
        (auto simp: rcu_lock_target_domain_by_id_def IS_PRIV_FOR_def)
  qed
qed

text \<open>A free channel gets a new state that no table mentions.\<close>

lemma good_open:
  assumes w: "evtchn_inv w" "w i = Some d" and E: "labels_ok E"
    and f: "\<And>c. state c = ECS_FREE \<Longrightarrow> notify_vcpu_id c = 0 \<Longrightarrow>
      \<not> linked (state (f c)) \<and> state (f c) \<noteq> ECS_FREE \<and> vcpu_at d (notify_vcpu_id (f c)) \<noteq> None"
  obtains (fail) r where "get_free_port E d = Some (d, r)" "r < 0" "w(i \<mapsto> d) = w"
  | (ok) d1 p c d' where "get_free_port E d = Some (d1, int p)" "is_dying d = DOMDYING_alive"
      "chan d1 p = Some c" "state c = ECS_FREE" "good w (w(i \<mapsto> d1))" "grown d d1"
      "modify_evtchn (w(i \<mapsto> d1)) i p f = Some (w(i \<mapsto> d'))" "good w (w(i \<mapsto> d'))"
      "chan d' = (chan d1)(p \<mapsto> f c)" "chan d p \<noteq> None \<Longrightarrow> chan d p = Some c"
proof -
  obtain d1 r where g: "get_free_port E d = Some (d1, r)" "good w (w(i \<mapsto> d1))" "dom_ok d1" "grown d d1"
    "r < 0 \<Longrightarrow> d1 = d"
    "0 \<le> r \<Longrightarrow> is_dying d = DOMDYING_alive \<and> (\<exists>c. chan d1 (nat r) = Some c \<and> state c = ECS_FREE)"
    by (rule get_free_port_good [OF w E]) blast
  show thesis
  proof (cases "r < 0")
    case True
    then show thesis using g fail [of r] w(2) by (simp add: fun_upd_idem)
  next
    case False
    let ?w = "w(i \<mapsto> d1)"
    have w1: "evtchn_inv ?w" "?w i = Some d1" using goodD(1) [OF g(2)] by simp_all
    obtain c where c: "chan d1 (nat r) = Some c" "state c = ECS_FREE" "is_dying d = DOMDYING_alive"
      using False g(6) by auto
    note ok1 = chan_okD [OF w1 c(1)]
    have fc: "\<not> linked (state (f c))" "state (f c) \<noteq> ECS_FREE" "vcpu_at d1 (notify_vcpu_id (f c)) \<noteq> None"
      using f [of c] c(2) ok1(3) grown_sel(2) [OF g(4)] by auto
    have okc: "chan_ok (tab d1) (nat r) (f c)"
      by (rule chan_okI_unlinked [OF ok1(1) c(2)]) (use fc in auto)
    have "good ?w (?w(i \<mapsto> set_evtchn d1 (nat r) (f c)))"
      by (rule good_set_unlinked [OF w1 c(1)]) (use c fc okc grown_sel(5) [OF g(4)] in auto)
    then have "good w (w(i \<mapsto> set_evtchn d1 (nat r) (f c)))"
      using good_trans [OF g(2)] by simp
    moreover have "modify_evtchn ?w i (nat r) f = Some (w(i \<mapsto> set_evtchn d1 (nat r) (f c)))"
      using modify_evtchn_eq [of ?w i d1 "nat r" c f] w1(2) c(1) by simp
    moreover have "chan d (nat r) \<noteq> None \<Longrightarrow> chan d (nat r) = Some c"
      using grown_chan [OF g(4)] c(1) by (cases "chan d (nat r)") auto
    ultimately show thesis
      using ok [of d1 "nat r" c "set_evtchn d1 (nat r) (f c)"] g c False chan_set_evtchn [OF g(3) c(1)]
      by simp
  qed
qed

lemma evtchn_alloc_unbound_good:
  assumes w: "evtchn_inv w" "w cur = Some x" and E: "labels_ok E"
  shows "\<exists>w' r. evtchn_alloc_unbound E w cur dm rdm = Some (w', r) \<and> good w w'"
proof (cases rule: lock_target_cases [of w cur x dm, OF w(2)])
  case (1 rc)
  then show ?thesis using good_refl [OF w(1)] by (simp add: evtchn_alloc_unbound_def)
next
  case (2 i d)
  note t = 2
  have v0: "vcpu_at d 0 \<noteq> None" using tab_okD(1) [OF evtchn_invD(3) [of w i d]] w(1) t(2) by simp
  show ?thesis
  proof (rule good_open [of w i d E
        "\<lambda>c. c\<lparr>state := ECS_UNBOUND (if rdm = DOMID_SELF then cur else rdm)\<rparr>"], goal_cases)
    case (5 r)
    then show ?thesis using t(1,2) good_refl [OF w(1)] by (simp add: evtchn_alloc_unbound_def)
  next
    case (6 d1 p c d')
    then show ?thesis using t(1,2) by (simp add: evtchn_alloc_unbound_def Let_def)
  qed (use w E t v0 in auto)
qed

lemma to_u16_vcpu:
  assumes "dom_ok d" "vcpu_at d k \<noteq> None"
  shows "to_u16 (int k) = k"
proof -
  have "k < 8192"
    using assms(2) vcpu_at_less [of d k] arrays_okD(3) [OF dom_okD(2) [OF assms(1)]]
    by (auto simp: MAX_VIRT_CPUS_def)
  then show ?thesis by (simp add: to_u16_def)
qed

text \<open>The VCPU number a guest passes, once the bounds are checked.\<close>

lemma vcpu_arg:
  assumes "\<not> (k < 0 \<or> k \<ge> int (max_vcpus d) \<or> vcpu d ! nat k = None)" "dom_ok d"
  shows "vcpu_at d (nat k) \<noteq> None" "to_u16 k = nat k"
proof -
  show k: "vcpu_at d (nat k) \<noteq> None" using assms(1) by (auto simp: vcpu_at_def array_get_def max_vcpus_def)
  show "to_u16 k = nat k" using to_u16_vcpu [OF assms(2) k] assms(1) by simp
qed

lemma evtchn_bind_ipi_good:
  assumes w: "evtchn_inv w" "w cur = Some d" and E: "labels_ok E"
  shows "\<exists>w' r. evtchn_bind_ipi E w cur ka = Some (w', r) \<and> good w w'"
proof (cases "sint ka < 0 \<or> sint ka \<ge> int (max_vcpus d) \<or> vcpu d ! nat (sint ka) = None")
  case True
  then show ?thesis using w good_refl [OF w(1)] by (auto simp: evtchn_bind_ipi_def Let_def)
next
  case False
  note k = vcpu_arg [OF False evtchn_invD(1) [OF w]]
  show ?thesis
  proof (rule good_open [OF w E, of "\<lambda>c. c\<lparr>state := ECS_IPI, notify_vcpu_id := to_u16 (sint ka)\<rparr>"], goal_cases)
    case (1 c)
    then show ?case using k by simp
  next
    case (2 r)
    then show ?thesis using w good_refl [OF w(1)] False by (auto simp: evtchn_bind_ipi_def Let_def)
  next
    case (3 d1 p c d')
    then show ?thesis using w(2) False by (auto simp: evtchn_bind_ipi_def Let_def)
  qed
qed

lemma alloc_unbound_xen_good:
  assumes w: "evtchn_inv w" "w i = Some d" and E: "labels_ok E" and k: "vcpu_at d k \<noteq> None"
  shows "\<exists>w' r. alloc_unbound_xen_event_channel E w i k rdm = Some (w', r) \<and> good w w'"
proof (rule good_open [OF w E, of "\<lambda>c. c\<lparr>state := ECS_UNBOUND rdm, consumer_is_xen := True,
        notify_vcpu_id := to_u16 (int k)\<rparr>"], goal_cases)
  case (1 c)
  then show ?case using k to_u16_vcpu [OF evtchn_invD(1) [OF w] k] by simp
next
  case (2 r)
  then show ?thesis using w good_refl [OF w(1)] by (simp add: alloc_unbound_xen_event_channel_def Let_def)
next
  case (3 d1 p c d')
  then show ?thesis using w(2) by (simp add: alloc_unbound_xen_event_channel_def Let_def)
qed

section \<open>Interrupts\<close>

text \<open>Updates of the two interrupt tables.\<close>

definition set_virq :: "domain \<Rightarrow> nat \<Rightarrow> vcpu \<Rightarrow> nat \<Rightarrow> nat \<Rightarrow> domain" where
  "set_virq d k v virq p = set_vcpu d k (v\<lparr>virq_to_evtchn := (virq_to_evtchn v)[virq := p]\<rparr>)"

lemma set_vcpu_chan [simp]: "chan (set_vcpu d k v) = chan d"
  by (simp add: chan_def port_is_valid_def bucket_from_port_def evtchn_from_port_def MAX_EVTCHNS_def
      BITS_PER_EVTCHN_WORD_def fun_eq_iff)

lemma set_vcpu_pirq_port [simp]: "pirq_port (set_vcpu d k v) = pirq_port d"
  by (simp add: pirq_port_def fun_eq_iff)

lemma virq_port_set_virq:
  assumes v: "vcpu_at d k = Some v" "virq < length (virq_to_evtchn v)" "p \<noteq> 0"
  shows "virq_port (set_virq d k v virq p) = (virq_port d)((k, virq) \<mapsto> p)"
proof
  fix a :: "nat \<times> nat"
  obtain j u where a: "a = (j, u)" by (cases a)
  show "virq_port (set_virq d k v virq p) a = ((virq_port d)((k, virq) \<mapsto> p)) a"
    unfolding a set_virq_def virq_port_def
    using v vcpu_at_less [OF v(1)] by (auto simp: vcpu_at_set_vcpu array_get_update)
qed

lemma tab_set_virq:
  assumes "vcpu_at d k = Some v" "virq < length (virq_to_evtchn v)" "p \<noteq> 0"
  shows "tab (set_virq d k v virq p) = (tab d)\<lparr>virqs := (virqs (tab d))((k, virq) \<mapsto> p)\<rparr>"
proof -
  have "{j. vcpu_at (set_virq d k v virq p) j \<noteq> None} = {j. vcpu_at d j \<noteq> None}"
    using assms(1) vcpu_at_less [OF assms(1)] by (auto simp: set_virq_def vcpu_at_set_vcpu)
  then show ?thesis
    using virq_port_set_virq [OF assms] by (simp add: tab_def set_virq_def)
qed

lemma virqs_length: "dom_ok d \<Longrightarrow> vcpu_at d k = Some v \<Longrightarrow> length (virq_to_evtchn v) = NR_VIRQS"
  using arrays_okD(4) [OF dom_okD(2)] set_Some_vcpu_at by blast

lemma dom_ok_set_virq:
  assumes d: "dom_ok d" and v: "vcpu_at d k = Some v"
  shows "dom_ok (set_virq d k v virq p)"
proof -
  note a = dom_okD(2) [OF d]
  let ?d = "set_virq d k v virq p"
  have at: "vcpu_at ?d j = (if j = k then Some (v\<lparr>virq_to_evtchn := (virq_to_evtchn v)[virq := p]\<rparr>) else vcpu_at d j)" for j
    using vcpu_at_less [OF v] by (simp add: set_virq_def vcpu_at_set_vcpu)
  have "length (virq_to_evtchn u) = NR_VIRQS" if "Some u \<in> set (vcpu ?d)" for u
  proof -
    obtain j where j: "vcpu_at ?d j = Some u" using \<open>Some u \<in> set (vcpu ?d)\<close> by (auto simp: set_Some_vcpu_at)
    show ?thesis using j v virqs_length [OF d] by (cases "j = k") (auto simp: at)
  qed
  moreover have "vcpu_at ?d j \<noteq> None" if "j \<in> poll_mask ?d" for j
  proof -
    have "j \<in> poll_mask d" using that by (simp add: set_virq_def)
    then show ?thesis using arrays_okD(5) [OF a, of j] by (simp add: at)
  qed
  moreover have "length (vcpu ?d) \<le> MAX_VIRT_CPUS" using arrays_okD(3) [OF a] by (simp add: set_virq_def set_vcpu_def max_vcpus_def)
  moreover have "pirq_port ?d = pirq_port d" by (rule pirq_port_cong) (simp add: set_virq_def)
  ultimately have "arrays_ok ?d" using a unfolding arrays_ok_def by (simp add: set_virq_def)
  moreover have "MAX_EVTCHNS ?d = MAX_EVTCHNS d" by (rule MAX_EVTCHNS_cong) (simp add: set_virq_def)
  ultimately show ?thesis using d by (simp add: dom_ok_def set_virq_def)
qed

lemma virq_is_global_eq: "virq < NR_VIRQS \<Longrightarrow> virq_is_global virq = Some (global_virq virq)"
  by (simp add: virq_is_global_def global_virq_def arch_virq_is_global_def)

text \<open>A free channel is bound to a virtual interrupt.\<close>

lemma good_bind_virq:
  assumes w: "evtchn_inv w" "w i = Some d" and c: "chan d p = Some c" "state c = ECS_FREE"
    and v: "vcpu_at d k = Some v" "virq < length (virq_to_evtchn v)" "virq_to_evtchn v ! virq = 0"
    and home: "global_virq virq \<Longrightarrow> k = 0" and al: "is_dying d = DOMDYING_alive"
    and d': "d' = set_virq (set_evtchn d p (c\<lparr>state := ECS_VIRQ virq, notify_vcpu_id := k\<rparr>)) k v virq p"
  shows "good w (w(i \<mapsto> d'))" "virq_port d' = (virq_port d)((k, virq) \<mapsto> p)"
    "chan d' = (chan d)(p \<mapsto> c\<lparr>state := ECS_VIRQ virq, notify_vcpu_id := k\<rparr>)"
proof -
  note d = evtchn_invD(1) [OF w]
  let ?c = "c\<lparr>state := ECS_VIRQ virq, notify_vcpu_id := k\<rparr>"
  have p0: "p \<noteq> 0" using chan_okD(3) [OF w c] by simp
  have t: "tab d' = (set_chan (tab d) p ?c)\<lparr>virqs := (virqs (tab d))((k, virq) \<mapsto> p)\<rparr>"
    using tab_set_virq [of "set_evtchn d p ?c" k v virq p] v p0 tab_set_evtchn [OF d c(1), of ?c] by (simp add: d')
  have ok: "dom_ok d'" using dom_ok_set_virq [OF dom_ok_set_evtchn [OF d c(1)]] v(1) by (simp add: d')
  have tok: "tab_ok (tab d')"
    unfolding t by (rule tab_ok_bind_virq [OF evtchn_invD(3) [OF w]]) (use c v home in \<open>auto simp: virq_port_def\<close>)
  have "links_ok ((links_of w)(i \<mapsto> tab d'))"
    by (rule links_ok_local [of _ _ "tab d" p c _ ?c]) (use evtchn_invD(2) [OF w(1)] w(2) c tok in \<open>auto simp: t\<close>)
  then have "evtchn_inv (w(i \<mapsto> d'))" by (rule evtchn_inv_upd [OF w(1) ok])
  moreover have "steady w (w(i \<mapsto> d'))"
    by (rule steady_upd [of w i d]) (use w(2) al in \<open>auto simp: d' set_virq_def\<close>)
  ultimately show "good w (w(i \<mapsto> d'))" by (simp add: good_def)
  show "virq_port d' = (virq_port d)((k, virq) \<mapsto> p)" "chan d' = (chan d)(p \<mapsto> ?c)"
    using arg_cong [OF t, of virqs] arg_cong [OF t, of chans] by simp_all
qed

lemma evtchn_bind_virq_cases:
  assumes w: "evtchn_inv w" "w cur = Some d" and E: "labels_ok E"
  obtains (err) w' rc where "evtchn_bind_virq E w cur va ka = Some (w', Inl rc)" "good w w'"
  | (ok) d' p where "evtchn_bind_virq E w cur va ka = Some (w(cur \<mapsto> d'), Inr p)" "good w (w(cur \<mapsto> d'))"
      "0 \<le> sint va" "nat (sint va) < NR_VIRQS" "0 \<le> sint ka" "global_virq (nat (sint va)) \<Longrightarrow> sint ka = 0"
      "virq_port d (nat (sint ka), nat (sint va)) = None" "evtchn_pending d' = evtchn_pending d"
      "virq_port d' = (virq_port d)((nat (sint ka), nat (sint va)) \<mapsto> p)" "chan d p \<in> {None, Some zero_evtchn}"
proof -
  note d = evtchn_invD(1) [OF w] and g0 = good_refl [OF w(1)]
  let ?virq = "nat (sint va)" and ?k = "nat (sint ka)"
  let ?novcpu = "sint ka < 0 \<or> sint ka \<ge> int (max_vcpus d) \<or> vcpu d ! ?k = None"
  note defs = evtchn_bind_virq_def Let_def
  consider (bad) "sint va < 0 \<or> sint va \<ge> int NR_VIRQS"
    | (bad2) "0 \<le> sint va" "?virq < NR_VIRQS" "global_virq ?virq \<and> sint ka \<noteq> 0 \<or> ?novcpu"
    | (good) "0 \<le> sint va" "?virq < NR_VIRQS" "\<not> ?novcpu" "global_virq ?virq \<longrightarrow> sint ka = 0"
    by linarith
  then show thesis
  proof cases
    case bad
    then show thesis using err [of w "- EINVAL"] w(2) g0 by (simp add: defs)
  next
    case bad2
    then have "sint va < int NR_VIRQS" by linarith
    with bad2 show thesis
      using err [of w "if global_virq ?virq \<and> sint ka \<noteq> 0 then - EINVAL else - ENOENT"] w(2) g0
        virq_is_global_eq [OF bad2(2)] by (auto simp: defs)
  next
    case good
    have va: "sint va < int NR_VIRQS" using good(1,2) by linarith
    note gl = virq_is_global_eq [OF good(2)] and k = vcpu_arg [OF good(3) d]
    obtain v where v: "vcpu_at d ?k = Some v" using k(1) by blast
    note len = virqs_length [OF d v]
    show thesis
    proof (cases "virq_to_evtchn v ! ?virq = 0")
      case False
      then show thesis using err [of w "- EEXIST"] good va w(2) gl v len g0 by (auto simp: defs)
    next
      case free: True
      obtain d1 r where g: "get_free_port E d = Some (d1, r)" "good w (w(cur \<mapsto> d1))" "dom_ok d1" "grown d d1"
        "r < 0 \<Longrightarrow> d1 = d"
        "0 \<le> r \<Longrightarrow> is_dying d = DOMDYING_alive \<and> (\<exists>c. chan d1 (nat r) = Some c \<and> state c = ECS_FREE)"
        by (rule get_free_port_good [OF w E]) blast
      have pre: "evtchn_bind_virq E w cur va ka =
          (if r < 0 then Some (w(cur \<mapsto> d1), Inl r)
           else do {
             w2 \<leftarrow> modify_evtchn (w(cur \<mapsto> d1)) cur (nat r)
                   (\<lambda>c. c\<lparr>state := ECS_VIRQ ?virq, notify_vcpu_id := to_u16 (sint ka)\<rparr>);
             d2 \<leftarrow> w2 cur;
             v2 \<leftarrow> vcpu_at d2 ?k;
             t \<leftarrow> array_set (virq_to_evtchn v2) ?virq (to_u16 r);
             Some (w2(cur \<mapsto> set_vcpu d2 ?k (v2\<lparr>virq_to_evtchn := t\<rparr>)), Inr (nat r))
           })"
        using good va w(2) gl v len free g(1) by (auto simp: defs)
      show thesis
      proof (cases "r < 0")
        case True
        then show thesis using err pre g(2) by auto
      next
        case False
        let ?w = "w(cur \<mapsto> d1)"
        obtain c where c: "chan d1 (nat r) = Some c" "state c = ECS_FREE" "is_dying d = DOMDYING_alive"
          using False g(6) by auto
        have w1: "evtchn_inv ?w" "?w cur = Some d1" using goodD(1) [OF g(2)] by simp_all
        let ?c = "c\<lparr>state := ECS_VIRQ ?virq, notify_vcpu_id := ?k\<rparr>"
        define d3 where "d3 = set_virq (set_evtchn d1 (nat r) ?c) ?k v ?virq (nat r)"
        have v1: "vcpu_at d1 ?k = Some v" using v grown_sel(2) [OF g(4)] by simp
        have cz: "c = zero_evtchn" using chan_okD(3) [OF w1 c(1,2)] c(2) by (simp add: zero_evtchn_def)
        note b = good_bind_virq [of ?w cur d1 "nat r" c ?k v ?virq d3, OF w1 c(1,2) v1]
        have b: "good ?w (?w(cur \<mapsto> d3))" "virq_port d3 = (virq_port d1)((?k, ?virq) \<mapsto> nat r)"
          using b good len free c(3) grown_sel(5) [OF g(4)] d3_def by auto
        have "evtchn_bind_virq E w cur va ka = Some (w(cur \<mapsto> d3), Inr (nat r))"
          using pre False modify_evtchn_eq [of ?w cur d1 "nat r" c] c(1) v1 good len k(2) to_u16_port [OF c(1)]
          by (simp add: d3_def set_virq_def)
        then show thesis
        proof (rule ok)
          show "good w (w(cur \<mapsto> d3))" using good_trans [OF g(2) b(1)] by simp
          show "virq_port d (?k, ?virq) = None" using v free len good(2) by (simp add: virq_port_def)
          show "virq_port d3 = (virq_port d)((?k, ?virq) \<mapsto> nat r)" using b(2) grown_sel(8) [OF g(4)] by simp
          show "evtchn_pending d3 = evtchn_pending d" using grown_sel(11) [OF g(4)] by (simp add: d3_def set_virq_def)
          show "chan d (nat r) \<in> {None, Some zero_evtchn}"
            using grown_chan [OF g(4), of "nat r"] c(1) cz by (cases "chan d (nat r)") auto
        qed (use good in auto)
      qed
    qed
  qed
qed

lemma evtchn_bind_virq_good:
  assumes "evtchn_inv w" "w cur = Some d" "labels_ok E"
  shows "\<exists>w' r. evtchn_bind_virq E w cur va ka = Some (w', r) \<and> good w w'"
  by (rule evtchn_bind_virq_cases [OF assms, of va ka]) blast+

lemma irq_permitted: "rangeset_wf c \<Longrightarrow> irq_access_permitted c i = Some (i \<in> rangeset_set c)"
  by (simp add: irq_access_permitted_def rangeset_contains_singleton_def caps.contains_one)

definition set_pirq :: "domain \<Rightarrow> nat \<Rightarrow> nat \<Rightarrow> domain" where
  "set_pirq d q p = d\<lparr>pirq_to_evtchn := (pirq_to_evtchn d)[q := p],
     pirq_bound := (if p = 0 then pirq_bound d - {q} else insert q (pirq_bound d))\<rparr>"

lemma set_pirq_simps [simp]:
  "chan (set_pirq d q p) = chan d" "virq_port (set_pirq d q p) = virq_port d"
  "vcpu_at (set_pirq d q p) = vcpu_at d" "is_dying (set_pirq d q p) = is_dying d"
  "has_32bit_shinfo (set_pirq d q p) = has_32bit_shinfo d" "evtchn_pending (set_pirq d q p) = evtchn_pending d"
  by (simp_all add: set_pirq_def chan_def port_is_valid_def bucket_from_port_def evtchn_from_port_def
      MAX_EVTCHNS_def BITS_PER_EVTCHN_WORD_def virq_port_def vcpu_at_def fun_eq_iff)

lemma pirq_port_set_pirq:
  assumes "q < length (pirq_to_evtchn d)"
  shows "pirq_port (set_pirq d q p) = (pirq_port d)(q := (if p = 0 then None else Some p))"
  using assms by (auto simp: pirq_port_def set_pirq_def array_get_update fun_eq_iff)

lemma dom_ok_set_pirq:
  assumes "dom_ok d" "q < length (pirq_to_evtchn d)"
  shows "dom_ok (set_pirq d q p)"
proof -
  have "MAX_EVTCHNS (set_pirq d q p) = MAX_EVTCHNS d" by (rule MAX_EVTCHNS_cong) simp
  moreover have "pirq_bound (set_pirq d q p) = dom (pirq_port (set_pirq d q p))"
    using arrays_okD(7) [OF dom_okD(2) [OF assms(1)]] unfolding pirq_port_set_pirq [OF assms(2)]
    by (auto simp: set_pirq_def)
  ultimately show ?thesis using assms(1) by (simp add: dom_ok_def arrays_ok_def) (simp add: set_pirq_def)
qed

lemma tab_set_pirq:
  assumes "q < length (pirq_to_evtchn d)"
  shows "tab (set_pirq d q p) = (tab d)\<lparr>pirqs := (pirqs (tab d))(q := (if p = 0 then None else Some p))\<rparr>"
  using pirq_port_set_pirq [OF assms] by (simp add: tab_def)

lemma set_evtchn_set_pirq: "set_evtchn (set_pirq d q p) n c = set_pirq (set_evtchn d n c) q p"
  by (simp add: set_evtchn_def set_pirq_def bucket_from_port_def split: bucket.splits)

text \<open>A free channel is bound to a physical interrupt.\<close>

lemma good_bind_pirq:
  assumes w: "evtchn_inv w" "w i = Some d" and c: "chan d p = Some c" "state c = ECS_FREE"
    and q: "q < length (pirq_to_evtchn d)" "pirq_to_evtchn d ! q = 0" and al: "is_dying d = DOMDYING_alive"
  shows "good w (w(i \<mapsto> set_evtchn (set_pirq d q p) p (c\<lparr>state := ECS_PIRQ q\<rparr>)))"
proof -
  note d = evtchn_invD(1) [OF w]
  let ?c = "c\<lparr>state := ECS_PIRQ q\<rparr>"
  let ?d = "set_pirq (set_evtchn d p ?c) q p"
  have p0: "p \<noteq> 0" "notify_vcpu_id c \<in> vcpus (tab d)" using chan_okD [OF w c(1)] c(2) by auto
  have t: "tab ?d = (set_chan (tab d) p ?c)\<lparr>pirqs := (pirqs (tab d))(q \<mapsto> p)\<rparr>"
    using tab_set_pirq [of q "set_evtchn d p ?c" p] q p0 tab_set_evtchn [OF d c(1), of ?c] by simp
  have ok: "dom_ok ?d" by (rule dom_ok_set_pirq [OF dom_ok_set_evtchn [OF d c(1)]]) (use q in simp)
  have tok: "tab_ok (tab ?d)"
    unfolding t by (rule tab_ok_bind_pirq [OF evtchn_invD(3) [OF w]]) (use c q p0 in \<open>auto simp: pirq_port_def\<close>)
  have "links_ok ((links_of w)(i \<mapsto> tab ?d))"
    by (rule links_ok_local [of _ _ "tab d" p c _ ?c])
      (use evtchn_invD(2) [OF w(1)] w(2) c tok in \<open>auto simp: t\<close>)
  then have "evtchn_inv (w(i \<mapsto> ?d))" by (rule evtchn_inv_upd [OF w(1) ok])
  moreover have "steady w (w(i \<mapsto> ?d))" by (rule steady_upd [of w i d]) (use w(2) al in auto)
  ultimately show ?thesis by (simp add: good_def set_evtchn_set_pirq)
qed

lemma evtchn_bind_pirq_good:
  assumes w: "evtchn_inv w" "w cur = Some d" and E: "labels_ok E"
  shows "\<exists>w' r. evtchn_bind_pirq E w cur pa sh = Some (w', r) \<and> good w w'"
proof -
  note d = evtchn_invD(1) [OF w]
  let ?q = "nat (sint pa)"
  let ?ok = "word_of_int (sint pa) \<in> rangeset_set (irq_caps d)"
  note perm = irq_permitted [OF arrays_okD(6) [OF dom_okD(2) [OF d]]]
  note defs = evtchn_bind_pirq_def Let_def perm
  note g0 = good_refl [OF w(1)]
  show ?thesis
  proof (cases "sint pa < 0 \<or> sint pa \<ge> int (nr_pirqs d) \<or> \<not> ?ok")
    case True
    then show ?thesis using w(2) g0 by (auto simp: defs)
  next
    case False
    have q: "?q < length (pirq_to_evtchn d)" "?q < 65536" "to_u16 (sint pa) = ?q"
      using False arrays_okD(1,2) [OF dom_okD(2) [OF d]] by (auto simp: to_u16_def)
    show ?thesis
    proof (cases "pirq_to_evtchn d ! ?q = 0")
      case busy: False
      then show ?thesis using False q w(2) g0 by (auto simp: defs)
    next
      case free: True
      obtain d1 r where g: "get_free_port E d = Some (d1, r)" "good w (w(cur \<mapsto> d1))" "dom_ok d1" "grown d d1"
        "r < 0 \<Longrightarrow> d1 = d"
        "0 \<le> r \<Longrightarrow> is_dying d = DOMDYING_alive \<and> (\<exists>c. chan d1 (nat r) = Some c \<and> state c = ECS_FREE)"
        by (rule get_free_port_good [OF w E]) blast
      let ?w = "w(cur \<mapsto> d1)"
      have q1: "?q < length (pirq_to_evtchn d1)" "pirq_to_evtchn d1 ! ?q = 0"
        using q free grown_sel(3) [OF g(4)] by simp_all
      have w1: "evtchn_inv ?w" "?w cur = Some d1" using goodD(1) [OF g(2)] by simp_all
      obtain v0 where v0: "vcpu_at d1 0 = Some v0" using tab_okD(1) [OF evtchn_invD(3) [OF w1]] by auto
      consider (fail) "r < 0" | (unbound) "0 \<le> r" "pirq_guest_bind E ?q sh \<noteq> 0"
        | (bound) "0 \<le> r" "pirq_guest_bind E ?q sh = 0" by linarith
      then show ?thesis
      proof cases
        case fail
        then show ?thesis using False q free w(2) g(1,2) by (auto simp: defs)
      next
        case unbound
        have "d1\<lparr>pirq_to_evtchn := (pirq_to_evtchn d1)[?q := 0]\<rparr> = d1"
          using q1 list_update_id [of "pirq_to_evtchn d1" ?q] by simp
        then have "evtchn_bind_pirq E w cur pa sh = Some (?w, Inl (pirq_guest_bind E ?q sh))"
          using False unbound q q1 free w(2) g(1) v0 by (simp add: defs)
        then show ?thesis using g(2) by blast
      next
        case bound
        obtain c where c: "chan d1 (nat r) = Some c" "state c = ECS_FREE" "is_dying d = DOMDYING_alive"
          using bound(1) g(6) by auto
        have r: "to_u16 r = nat r" using to_u16_port [OF c(1)] bound(1) by simp
        have r0: "nat r \<noteq> 0" using chan_okD(3) [OF w1 c(1,2)] by blast
        let ?d = "set_evtchn (set_pirq d1 ?q (nat r)) (nat r) (c\<lparr>state := ECS_PIRQ ?q\<rparr>)"
        have sp: "d1\<lparr>pirq_to_evtchn := (pirq_to_evtchn d1)[?q := nat r], pirq_bound := insert ?q (pirq_bound d1)\<rparr> =
            set_pirq d1 ?q (nat r)"
          using r0 by (simp only: set_pirq_def if_False)
        have m: "modify_evtchn (w(cur \<mapsto> set_pirq d1 ?q (nat r))) cur (nat r) (\<lambda>c. c\<lparr>state := ECS_PIRQ ?q\<rparr>) =
            Some (w(cur \<mapsto> ?d))"
          using modify_evtchn_eq [of "w(cur \<mapsto> set_pirq d1 ?q (nat r))" cur "set_pirq d1 ?q (nat r)" "nat r" c] c(1)
          by simp
        have "evtchn_bind_pirq E w cur pa sh = Some (w(cur \<mapsto> ?d), Inr (nat r))"
          using False bound q q1 free w(2) g(1) r v0 m by (simp add: defs sp)
        moreover have "good w (w(cur \<mapsto> ?d))"
          using good_trans [OF g(2) good_bind_pirq [of ?w cur d1 "nat r" c ?q, OF w1 c(1,2) q1]] c(3) grown_sel(5) [OF g(4)] by simp
        ultimately show ?thesis by blast
      qed
    qed
  qed
qed

section \<open>Interdomain channels\<close>

lemma good_connect:
  assumes w: "evtchn_inv w" "w i = Some x" "chan x p = Some c" "state c = ECS_FREE" "is_dying x = DOMDYING_alive"
    and v: "w j = Some y" "chan y q = Some e" "state e = ECS_UNBOUND i"
    and c': "c' = c\<lparr>state := ECS_INTERDOMAIN j q\<rparr>" and e': "e' = e\<lparr>state := ECS_INTERDOMAIN i p\<rparr>"
  obtains y' where "(w(i \<mapsto> set_evtchn x p c')) j = Some y'" "chan y' q = Some e"
    "good w (w(i \<mapsto> set_evtchn x p c', j \<mapsto> set_evtchn y' q e'))"
    "dom_ok (set_evtchn y' q e')" "chan (set_evtchn y' q e') = (chan y')(q \<mapsto> e')"
proof -
  note dx = evtchn_invD(1) [OF w(1,2)] and dy = evtchn_invD(1) [of w j y, OF w(1) v(1)]
  have ne: "(i, p) \<noteq> (j, q)" using w v by auto
  let ?x = "set_evtchn x p c'"
  have x': "dom_ok ?x" "chan ?x = (chan x)(p \<mapsto> c')" "tab ?x = set_chan (tab x) p c'"
    using dom_ok_set_evtchn [OF dx w(3)] chan_set_evtchn [OF dx w(3)] tab_set_evtchn [OF dx w(3)] by auto
  define y' where "y' = (if i = j then ?x else y)"
  have y': "(w(i \<mapsto> ?x)) j = Some y'" "dom_ok y'" "chan y' q = Some e"
    using v dy x' w(2) ne by (auto simp: y'_def)
  let ?y = "set_evtchn y' q e'"
  have y2: "dom_ok ?y" "chan ?y = (chan y')(q \<mapsto> e')" "tab ?y = set_chan (tab y') q e'"
    using dom_ok_set_evtchn [OF y'(2,3)] chan_set_evtchn [OF y'(2,3)] tab_set_evtchn [OF y'(2,3)] by auto
  have okc: "chan_ok (tab x) p c'" "chan_ok (tab y) q e'"
    using chan_okD(1,3) [OF w(1-3)] chan_okD(1) [of w j y q e, OF w(1) v(1,2)] w(4) v(3) c' e'
    by (auto simp: chan_ok_def)
  have "links_ok ((links_of w)(i \<mapsto> set_chan (tab x) p c', j \<mapsto> set_chan (tab y') q e'))"
    by (rule links_ok_connect [of "links_of w" i "tab x" p c j "tab y" q e])
      (use evtchn_invD(2) [OF w(1)] w v ne okc c' e' x'(3) in \<open>auto simp: y'_def\<close>)
  then have inv: "evtchn_inv (w(i \<mapsto> ?x, j \<mapsto> ?y))"
    using w(1) x' y2 by (auto simp: evtchn_inv_def)
  have "settled y ?y z" if "i \<noteq> j" for z
    using that v y2(2) settled_upd [of ?y y q e' e z] e' by (simp add: y'_def)
  then have "steady w (w(i \<mapsto> ?x, j \<mapsto> ?y))"
    using w(2,5) v(1) by (auto simp: steady_def y'_def settled_frame)
  then show thesis using that [of y'] y' y2 inv by (simp add: good_def)
qed

lemma grown_old:
  assumes "grown d d'" "chan d' q = Some c" "state c \<noteq> ECS_FREE"
  shows "chan d q = Some c"
proof -
  have "chan d' q = chan d q \<or> chan d' q = Some zero_evtchn" using assms(1) by (auto simp: grown_def)
  then show ?thesis using assms(2,3) by (auto simp: zero_evtchn_def)
qed

lemma links_of_sched_frame:
  assumes "w i = Some x" "sched_frame x x'"
  shows "links_of (w(i \<mapsto> x')) = links_of w"
  using assms sched_frame_tab [OF assms(2)] by (auto simp: links_of_def fun_eq_iff)

text \<open>The three writes that bind two ports, and the notification that follows.\<close>

lemma good_bind:
  assumes w: "evtchn_inv w" "w i = Some x" "chan x p = Some c" "state c = ECS_FREE" "is_dying x = DOMDYING_alive"
    and v: "w j = Some y" "chan y q = Some e" "state e = ECS_UNBOUND i"
  obtains w2 w3 x3 c' w4 z where
    "modify_evtchn w i p (\<lambda>c. c\<lparr>state := ECS_INTERDOMAIN j q\<rparr>) = Some w2"
    "modify_evtchn w2 j q (\<lambda>c. c\<lparr>state := ECS_INTERDOMAIN i p\<rparr>) = Some w3"
    "w3 i = Some x3" "evtchn_from_port x3 p = Some c'"
    "set_pending_on E w3 i (notify_vcpu_id c') p = Some (w4, z)" "good w w4"
    "chan_state (links_of w4) (i, p) = Some (ECS_INTERDOMAIN j q)"
    "chan_state (links_of w4) (j, q) = Some (ECS_INTERDOMAIN i p)"
    "\<exists>x. w4 i = Some x \<and> p \<in> evtchn_pending x"
proof -
  define c' where "c' = c\<lparr>state := ECS_INTERDOMAIN j q\<rparr>"
  define e' where "e' = e\<lparr>state := ECS_INTERDOMAIN i p\<rparr>"
  define w2 where "w2 = w(i \<mapsto> set_evtchn x p c')"
  obtain y' where y': "w2 j = Some y'" "chan y' q = Some e" "good w (w2(j \<mapsto> set_evtchn y' q e'))"
    "dom_ok (set_evtchn y' q e')" "chan (set_evtchn y' q e') = (chan y')(q \<mapsto> e')"
    unfolding w2_def by (rule good_connect [OF w v c'_def e'_def]) blast
  define w3 where "w3 = w2(j \<mapsto> set_evtchn y' q e')"
  have ne: "(i, p) \<noteq> (j, q)" using w v by auto
  have m2: "modify_evtchn w i p (\<lambda>c. c\<lparr>state := ECS_INTERDOMAIN j q\<rparr>) = Some w2"
    using modify_evtchn_eq [of w i x p c] w by (simp add: c'_def w2_def)
  have m3: "modify_evtchn w2 j q (\<lambda>c. c\<lparr>state := ECS_INTERDOMAIN i p\<rparr>) = Some w3"
    using modify_evtchn_eq [of w2 j y' q e] y' by (simp add: e'_def w3_def)
  obtain x3 where x3: "w3 i = Some x3" "chan x3 p = Some c'"
    using y' ne chan_set_evtchn [OF evtchn_invD(1) [OF w(1,2)] w(3), of c']
    by (cases "j = i") (auto simp: w3_def w2_def)
  have inv3: "evtchn_inv w3" using goodD(1) [OF y'(3)] by (simp add: w3_def)
  obtain d4 z where s: "set_pending_on E w3 i (notify_vcpu_id c') p = Some (w3(i \<mapsto> d4), z)"
    "good w3 (w3(i \<mapsto> d4))" "sched_frame x3 d4" "evtchn_pending d4 = insert p (evtchn_pending x3)"
    by (rule set_pending_on_good [OF inv3 x3(1) chan_okD(2) [OF inv3 x3], of E p]) blast
  note l = links_of_sched_frame [of w3 i x3 d4, OF x3(1) s(3)]
  show thesis
  proof (rule that [OF m2 m3 x3(1) chan_from_port [OF x3(2)] s(1)])
    show "good w (w3(i \<mapsto> d4))" using good_trans [OF y'(3)] s(2) by (simp add: w3_def)
    show "chan_state (links_of (w3(i \<mapsto> d4))) (i, p) = Some (ECS_INTERDOMAIN j q)"
      unfolding l using chan_stateI [of "links_of w3" i "tab x3" p c'] x3 by (simp add: c'_def)
    show "chan_state (links_of (w3(i \<mapsto> d4))) (j, q) = Some (ECS_INTERDOMAIN i p)"
      unfolding l using chan_stateI [of "links_of w3" j "tab (set_evtchn y' q e')" q e'] y'(5)
      by (simp add: e'_def w3_def)
  qed (use s(4) in auto)
qed

lemma chan_state_at: "w i = Some x \<Longrightarrow> chan_state (links_of w) (i, p) = map_option state (chan x p)"
  by (cases "chan x p") (simp_all add: chan_state_def)

lemma evtchn_bind_interdomain_cases:
  assumes w: "evtchn_inv w" "w cur = Some ld" and E: "labels_ok E"
  obtains (err) w' rc where "evtchn_bind_interdomain E w cur rdm rp = Some (w', Inl rc)" "good w w'"
      "xsm_evtchn_interdomain E = 0 \<Longrightarrow> 0 \<le> sint rp \<Longrightarrow>
         chan_state (links_of w) (if rdm = DOMID_SELF then cur else rdm, nat (sint rp)) = Some (ECS_UNBOUND cur) \<Longrightarrow>
         \<exists>e. get_free_port E ld = Some (ld, e) \<and> e < 0"
  | (ok) w' rd rport y c lport where "evtchn_bind_interdomain E w cur rdm rp = Some (w', Inr lport)" "good w w'"
      "rd = (if rdm = DOMID_SELF then cur else rdm)" "rport = nat (sint rp)" "0 \<le> sint rp"
      "w rd = Some y" "chan y rport = Some c" "state c = ECS_UNBOUND cur"
      "chan_state (links_of w') (cur, lport) = Some (ECS_INTERDOMAIN rd rport)"
      "chan_state (links_of w') (rd, rport) = Some (ECS_INTERDOMAIN cur lport)"
      "\<exists>x. w' cur = Some x \<and> lport \<in> evtchn_pending x"
      "chan_state (links_of w) (cur, lport) \<in> {None, Some ECS_FREE}"
proof -
  define rd where "rd = (if rdm = DOMID_SELF then cur else rdm)"
  note defs = evtchn_bind_interdomain_def Let_def rd_def [symmetric]
  note g0 = good_refl [OF w(1)]
  show thesis
  proof (cases "w rd")
    case None
    then show thesis using err [of w "- ESRCH"] g0 by (simp add: defs chan_state_def links_of_def)
  next
    case (Some y)
    note y = Some
    obtain d1 r where g: "get_free_port E ld = Some (d1, r)" "good w (w(cur \<mapsto> d1))" "dom_ok d1" "grown ld d1"
      "r < 0 \<Longrightarrow> d1 = ld"
      "0 \<le> r \<Longrightarrow> is_dying ld = DOMDYING_alive \<and> (\<exists>c. chan d1 (nat r) = Some c \<and> state c = ECS_FREE)"
      by (rule get_free_port_good [OF w E]) blast
    let ?w = "w(cur \<mapsto> d1)"
    have w1: "evtchn_inv ?w" "?w cur = Some d1" using goodD(1) [OF g(2)] by simp_all
    obtain y1 where y1: "?w rd = Some y1" using y by (cases "rd = cur") auto
    have dy1: "dom_ok y1" using evtchn_invD(1) [of ?w rd y1] w1(1) y1 by blast
    have st: "\<exists>e. chan y1 n = Some e \<and> state e = s" if "chan_state (links_of w) (rd, n) = Some s" for n s
      using that chan_state_at [of w rd y n, OF y] y y1 w(2) grown_chan [OF g(4), of n]
      by (cases "chan y n"; cases "rd = cur") auto
    show thesis
    proof (cases "r < 0 \<or> \<not> port_is_valid y1 (sint rp)")
      case True
      have "evtchn_bind_interdomain E w cur rdm rp = Some (?w, Inl (if r < 0 then r else - EINVAL))"
        using True g(1) w(2) y y1 by (auto simp: defs)
      then show thesis
      proof (rule err [OF _ g(2)])
        assume "0 \<le> sint rp" "chan_state (links_of w) (if rdm = DOMID_SELF then cur else rdm, nat (sint rp)) = Some (ECS_UNBOUND cur)"
        then have "port_is_valid y1 (sint rp)"
          using st [of "nat (sint rp)"] chan_valid [of y1 "nat (sint rp)"] by (auto simp: rd_def [symmetric])
        then show "\<exists>e. get_free_port E ld = Some (ld, e) \<and> e < 0" using True g by auto
      qed
    next
      case False
      then obtain q e where q: "sint rp = int q" "chan y1 q = Some e" "evtchn_from_port y1 q = Some e"
        using port_validE_int [OF dy1] by blast
      show thesis
      proof (cases "state e \<noteq> ECS_UNBOUND cur \<or> xsm_evtchn_interdomain E \<noteq> 0")
        case True
        then have "evtchn_bind_interdomain E w cur rdm rp =
            Some (?w, Inl (if state e \<noteq> ECS_UNBOUND cur then - EINVAL else xsm_evtchn_interdomain E))"
          using False g(1) w(2) y y1 q by (auto simp: defs)
        then show thesis by (rule err [OF _ g(2)]) (use st [of q] q True in \<open>auto simp: rd_def [symmetric]\<close>)
      next
        case ok2: False
        obtain c where c: "chan d1 (nat r) = Some c" "state c = ECS_FREE" "is_dying ld = DOMDYING_alive"
          using False g(6) by auto
        have al: "is_dying d1 = DOMDYING_alive" using c(3) grown_sel(5) [OF g(4)] by simp
        have un: "state e = ECS_UNBOUND cur" using ok2 by simp
        obtain w2 w3 x3 c' w4 z where b:
          "modify_evtchn ?w cur (nat r) (\<lambda>c. c\<lparr>state := ECS_INTERDOMAIN rd q\<rparr>) = Some w2"
          "modify_evtchn w2 rd q (\<lambda>c. c\<lparr>state := ECS_INTERDOMAIN cur (nat r)\<rparr>) = Some w3"
          "w3 cur = Some x3" "evtchn_from_port x3 (nat r) = Some c'"
          "set_pending_on E w3 cur (notify_vcpu_id c') (nat r) = Some (w4, z)" "good ?w w4"
          "chan_state (links_of w4) (cur, nat r) = Some (ECS_INTERDOMAIN rd q)"
          "chan_state (links_of w4) (rd, q) = Some (ECS_INTERDOMAIN cur (nat r))"
          "\<exists>x. w4 cur = Some x \<and> nat r \<in> evtchn_pending x"
          by (rule good_bind [of ?w cur d1 "nat r" c rd y1 q e E, OF w1 c(1,2) al y1 q(2) un]) blast
        have u: "to_u16 (int q) = q" "to_u16 r = nat r"
          using to_u16_port [OF q(2)] to_u16_port [OF c(1)] False by auto
        have e: "chan y q = Some e"
          using y y1 w(2) un q(2) grown_old [OF g(4), of q e] by (cases "rd = cur") auto
        have old: "chan_state (links_of w) (cur, nat r) \<in> {None, Some ECS_FREE}"
          using w(2) c grown_chan [OF g(4), of "nat r"]
          by (cases "chan ld (nat r)") (auto simp: chan_state_def)
        have "evtchn_bind_interdomain E w cur rdm rp = Some (w4, Inr (nat r))"
          using False ok2 w(2) y y1 g(1) q b u by (simp add: defs)
        then show thesis
          using ok [of w4 "nat r" rd q y e] good_trans [OF g(2) b(6)] b rd_def q y e un old by simp
      qed
    qed
  qed
qed

section \<open>Closing\<close>

definition freed :: "evtchn \<Rightarrow> evtchn" where
  "freed c = c\<lparr>state := ECS_FREE, notify_vcpu_id := 0\<rparr>"

lemma freed_sel [simp]:
  "state (freed c) = ECS_FREE" "notify_vcpu_id (freed c) = 0" "consumer_is_xen (freed c) = consumer_is_xen c"
  by (simp_all add: freed_def)

definition unpend :: "domain \<Rightarrow> nat \<Rightarrow> domain" where
  "unpend d p = d\<lparr>evtchn_pending := evtchn_pending d - {p}\<rparr>"

lemma unpend_simps [simp]:
  "sched_frame d (unpend d p)" "chan (unpend d p) = chan d" "tab (unpend d p) = tab d"
  "is_dying (unpend d p) = is_dying d" "has_32bit_shinfo (unpend d p) = has_32bit_shinfo d"
  "evtchn_pending (unpend d p) = evtchn_pending d - {p}"
proof -
  show "sched_frame d (unpend d p)" by (simp add: unpend_def)
  then show "chan (unpend d p) = chan d" "tab (unpend d p) = tab d"
    by (simp_all add: sched_frame_chan sched_frame_tab)
qed (simp_all add: unpend_def)

lemma close_tail_eq:
  assumes "w i = Some x" "chan x p = Some c"
  shows "close_tail w i p = Some (w(i \<mapsto> set_evtchn (unpend x p) p (freed c)))"
  using modify_evtchn_eq [of "w(i \<mapsto> unpend x p)" i "unpend x p" p c] assms
  by (simp add: close_tail_def unpend_def [symmetric] freed_def)

lemma chan_ok_freed:
  assumes "evtchn_inv w" "w i = Some d" "chan d p = Some c" "\<not> consumer_is_xen c" "state c \<noteq> ECS_RESERVED"
  shows "chan_ok (tab d) p (freed c)"
  using chan_okD(1) [OF assms(1-3)] tab_okD(1) [OF evtchn_invD(3) [OF assms(1,2)]] assms(4,5)
  by (auto simp: chan_ok_def)

text \<open>
  The last step of a close, after the interrupt tables were updated: \<open>y\<close> is the domain with
  the new tables.
\<close>

lemma good_close:
  assumes w: "evtchn_inv w" "w i = Some x" and c: "chan x p = Some c" "peer_of (Some (state c)) = None"
    and y: "dom_ok y" "chan y = chan x" "has_32bit_shinfo y = has_32bit_shinfo x" "is_dying y = is_dying x"
    and t: "tab_ok (set_chan (tab y) p (freed c))"
  shows "good w (w(i \<mapsto> set_evtchn (unpend y p) p (freed c)))"
  unfolding good_def
proof
  let ?d = "set_evtchn (unpend y p) p (freed c)"
  have u: "dom_ok (unpend y p)" "chan (unpend y p) p = Some c"
    using sched_frame_dom_ok [OF unpend_simps(1) y(1)] y(2) c(1) by simp_all
  have tab: "tab ?d = set_chan (tab y) p (freed c)" using tab_set_evtchn [OF u] by simp
  have "links_ok ((links_of w)(i \<mapsto> tab ?d))"
    by (rule links_ok_local [of _ _ "tab x" p c _ "freed c"])
      (use evtchn_invD(2) [OF w(1)] w(2) c y t in \<open>auto simp: tab\<close>)
  then show "evtchn_inv (w(i \<mapsto> ?d))" by (rule evtchn_inv_upd [OF w(1) dom_ok_set_evtchn [OF u]])
  show "steady w (w(i \<mapsto> ?d))"
    by (rule steady_upd [of w i x])
      (use w(2) y c(1) settled_upd [of ?d x p "freed c" c] chan_set_evtchn [OF u] in auto)
qed

lemma good_close_unlinked:
  assumes w: "evtchn_inv w" "w i = Some x" and c: "chan x p = Some c" "\<not> consumer_is_xen c"
    "\<not> linked (state c)" "state c \<noteq> ECS_RESERVED"
  shows "good w (w(i \<mapsto> set_evtchn (unpend x p) p (freed c)))"
proof (rule good_close [OF w c(1)])
  have un: "state c \<noteq> ECS_VIRQ v" "state c \<noteq> ECS_PIRQ r" for v r using c(3) by auto
  show "tab_ok (set_chan (tab x) p (freed c))"
    by (rule tab_ok_set_chan [OF evtchn_invD(3) [OF w], of p c])
      (use c un chan_ok_freed [OF w c(1,2,4)] in auto)
qed (use c evtchn_invD(1) [OF w] in auto)

lemma good_close_pirq:
  assumes w: "evtchn_inv w" "w i = Some x" and c: "chan x p = Some c" "\<not> consumer_is_xen c" "state c = ECS_PIRQ q"
  shows "q < length (pirq_to_evtchn x)"
    "good w (w(i \<mapsto> set_evtchn (unpend (set_pirq x q 0) p) p (freed c)))"
proof -
  have "pirq_port x q = Some p" using chan_okD(1) [OF w c(1)] c(3) by (simp add: chan_ok_def)
  then show q: "q < length (pirq_to_evtchn x)" by (auto simp: pirq_port_def array_get_def split: if_splits)
  show "good w (w(i \<mapsto> set_evtchn (unpend (set_pirq x q 0) p) p (freed c)))"
  proof (rule good_close [OF w c(1)])
    have "set_chan (tab (set_pirq x q 0)) p (freed c)
        = (set_chan (tab x) p (freed c))\<lparr>pirqs := (pirqs (tab x))(q := None)\<rparr>"
      using tab_set_pirq [OF q, of 0] by (simp add: set_chan_def)
    then show "tab_ok (set_chan (tab (set_pirq x q 0)) p (freed c))"
      using tab_ok_close_pirq [OF evtchn_invD(3) [OF w], of p c q "freed c"] c chan_ok_freed [OF w c(1,2)]
      by simp
  qed (use c q evtchn_invD(1) [OF w] in \<open>auto intro: dom_ok_set_pirq\<close>)
qed

text \<open>The loop over the VCPUs clears exactly the entries that hold the port.\<close>

definition drop_virq :: "nat \<Rightarrow> nat \<Rightarrow> vcpu \<Rightarrow> vcpu" where
  "drop_virq virq port v =
     (if virq_to_evtchn v ! virq = port then v\<lparr>virq_to_evtchn := (virq_to_evtchn v)[virq := 0]\<rparr> else v)"

lemma clear_virq_eq:
  assumes "\<And>v. Some v \<in> set vs \<Longrightarrow> virq < length (virq_to_evtchn v)"
  shows "clear_virq virq port vs = Some (map (map_option (drop_virq virq port)) vs)"
  using assms by (induction virq port vs rule: clear_virq.induct) (auto simp: drop_virq_def)

definition drop_virqs :: "domain \<Rightarrow> nat \<Rightarrow> nat \<Rightarrow> domain" where
  "drop_virqs d virq port = d\<lparr>vcpu := map (map_option (drop_virq virq port)) (vcpu d)\<rparr>"

lemma drop_virqs_simps [simp]:
  "chan (drop_virqs d v p) = chan d" "pirq_port (drop_virqs d v p) = pirq_port d"
  "vcpu_at (drop_virqs d v p) k = map_option (drop_virq v p) (vcpu_at d k)"
  "is_dying (drop_virqs d v p) = is_dying d" "has_32bit_shinfo (drop_virqs d v p) = has_32bit_shinfo d"
  "evtchn_pending (drop_virqs d v p) = evtchn_pending d"
  by (simp_all add: drop_virqs_def chan_def port_is_valid_def bucket_from_port_def evtchn_from_port_def
      MAX_EVTCHNS_def BITS_PER_EVTCHN_WORD_def pirq_port_def vcpu_at_def array_get_def fun_eq_iff)

lemma drop_virq_length [simp]: "length (virq_to_evtchn (drop_virq v p x)) = length (virq_to_evtchn x)"
  by (simp add: drop_virq_def)

lemma dom_ok_drop_virqs:
  assumes d: "dom_ok d"
  shows "dom_ok (drop_virqs d v p)"
proof -
  have "length (virq_to_evtchn x) = NR_VIRQS" if "Some x \<in> set (vcpu (drop_virqs d v p))" for x
    using that virqs_length [OF d] by (auto simp: set_Some_vcpu_at)
  then have "arrays_ok (drop_virqs d v p)"
    using dom_okD(2) [OF d] drop_virqs_simps(2,3) [of d v p] unfolding arrays_ok_def by (simp add: drop_virqs_def)
  then show ?thesis using d by (simp add: dom_ok_def MAX_EVTCHNS_def BITS_PER_EVTCHN_WORD_def drop_virqs_def)
qed

lemma virq_port_drop_virqs:
  assumes d: "dom_ok d" and v: "v < NR_VIRQS" and p: "p \<noteq> 0"
  shows "virq_port (drop_virqs d v p) = (\<lambda>(k, u). if u = v \<and> virq_port d (k, u) = Some p then None
      else virq_port d (k, u))"
proof
  fix a :: "nat \<times> nat"
  obtain k u where a: "a = (k, u)" by (cases a)
  show "virq_port (drop_virqs d v p) a = (case a of (k, u) \<Rightarrow>
      if u = v \<and> virq_port d (k, u) = Some p then None else virq_port d (k, u))"
  proof (cases "vcpu_at d k")
    case None
    then show ?thesis by (simp add: a virq_port_def)
  next
    case (Some x)
    then have "length (virq_to_evtchn x) = NR_VIRQS" using virqs_length [OF d] by blast
    then show ?thesis using Some v p
      by (cases "u < NR_VIRQS") (auto simp: a virq_port_def drop_virq_def array_get_def)
  qed
qed

lemma good_close_virq:
  assumes w: "evtchn_inv w" "w i = Some x" and c: "chan x p = Some c" "\<not> consumer_is_xen c" "state c = ECS_VIRQ v"
  shows "clear_virq v p (vcpu x) = Some (vcpu (drop_virqs x v p))"
    "good w (w(i \<mapsto> set_evtchn (unpend (drop_virqs x v p) p) p (freed c)))"
proof -
  note d = evtchn_invD(1) [OF w]
  have vp: "virq_port x (virq_home v c, v) = Some p" "p \<noteq> 0"
    using chan_okD(1) [OF w c(1)] c(3) by (auto simp: chan_ok_def)
  have v: "v < NR_VIRQS"
    using vp(1) virqs_length [OF d]
    by (auto simp: virq_port_def array_get_def split: bind_splits if_splits)
  have "v < length (virq_to_evtchn y)" if "Some y \<in> set (vcpu x)" for y
    using that virqs_length [OF d, of _ y] v by (auto simp: set_Some_vcpu_at)
  from clear_virq_eq [OF this] show "clear_virq v p (vcpu x) = Some (vcpu (drop_virqs x v p))"
    by (simp add: drop_virqs_def)
  show "good w (w(i \<mapsto> set_evtchn (unpend (drop_virqs x v p) p) p (freed c)))"
  proof (rule good_close [OF w c(1)])
    have "set_chan (tab (drop_virqs x v p)) p (freed c) = (set_chan (tab x) p (freed c))
        \<lparr>virqs := (\<lambda>(k, u). if u = v \<and> virqs (tab x) (k, u) = Some p then None else virqs (tab x) (k, u))\<rparr>"
      using virq_port_drop_virqs [OF d v vp(2)] by (simp add: set_chan_def tab_def cong: if_cong)
    then show "tab_ok (set_chan (tab (drop_virqs x v p)) p (freed c))"
      using tab_ok_close_virq [OF evtchn_invD(3) [OF w], of p c v "freed c"] c chan_ok_freed [OF w c(1,2)]
      by simp
  qed (use c d in \<open>auto intro: dom_ok_drop_virqs\<close>)
qed

end
