(* ===== verification/Event_Channel_Close.thy ===== *)
theory Event_Channel_Close
  imports Event_Channel_Ops
begin

text \<open>
  Closing a port: one pass of \<^verbatim>\<open>__evtchn_close\<close>, the pass repeated after the lock of the domain was
  dropped, and the loops that close every port of a domain.
\<close>

section \<open>One pass\<close>

text \<open>
  The abstract effect of a close on the states of all channels: the port becomes free and its
  peer, if it has one, waits for the domain again.
\<close>

definition close_state :: "(domid \<times> nat \<Rightarrow> ecs option) \<Rightarrow> domid \<times> nat \<Rightarrow> domid \<times> nat \<Rightarrow> ecs option" where
  "close_state S a b =
     (if b = a then Some ECS_FREE
      else if peer_of (S a) = Some b then Some (ECS_UNBOUND (fst a))
      else S b)"

text \<open>
  The concrete effect.  Of all channels only the closed one and its peer change, and of the peer
  only the state.  The domain that closes loses the pending bit of the port and every binding of a
  virtual or physical interrupt to it, also in the interrupt layer; all other fields of this domain
  and of its VCPUs stay, and of another domain nothing but its channels can change.
\<close>

definition closed_chan :: "(domid \<times> nat \<Rightarrow> ecs option) \<Rightarrow> domid \<times> nat \<Rightarrow> domid \<times> nat \<Rightarrow> evtchn \<Rightarrow> evtchn" where
  "closed_chan S a b c =
     (if b = a then freed c
      else if peer_of (S a) = Some b then c\<lparr>state := ECS_UNBOUND (fst a)\<rparr>
      else c)"

definition unmap :: "('a \<rightharpoonup> 'b) \<Rightarrow> 'b \<Rightarrow> 'a \<rightharpoonup> 'b" where
  "unmap m p = (\<lambda>a. if m a = Some p then None else m a)"

definition unbinds :: "nat \<Rightarrow> domain \<Rightarrow> domain \<Rightarrow> bool" where
  "unbinds p d d' \<longleftrightarrow>
     virq_port d' = unmap (virq_port d) p \<and> pirq_port d' = unmap (pirq_port d) p \<and>
     pirq_bound d' = pirq_bound d - {q. pirq_port d q = Some p} \<and>
     map (map_option (virq_to_evtchn_update (\<lambda>_. []))) (vcpu d') =
       map (map_option (virq_to_evtchn_update (\<lambda>_. []))) (vcpu d) \<and>
     d'\<lparr>evtchn := evtchn d, evtchn_pending := evtchn_pending d, vcpu := vcpu d,
        pirq_to_evtchn := pirq_to_evtchn d, pirq_bound := pirq_bound d\<rparr> = d"

definition closes_dom :: "(domid \<times> nat \<Rightarrow> ecs option) \<Rightarrow> domid \<Rightarrow> nat \<Rightarrow> domid \<Rightarrow> domain \<Rightarrow> domain \<Rightarrow> bool" where
  "closes_dom S i p j d d' \<longleftrightarrow>
     chan d' = (\<lambda>q. map_option (closed_chan S (i, p) (j, q)) (chan d q)) \<and>
     (if j = i then evtchn_pending d' = evtchn_pending d - {p} \<and> unbinds p d d'
      else d' = d\<lparr>evtchn := evtchn d'\<rparr>)"

definition closes :: "hyp \<Rightarrow> hyp \<Rightarrow> domid \<Rightarrow> nat \<Rightarrow> bool" where
  "closes w w' i p \<longleftrightarrow>
     chan_state (links_of w') = close_state (chan_state (links_of w)) (i, p) \<and>
     (\<forall>j. case w j of None \<Rightarrow> w' j = None
        | Some d \<Rightarrow> \<exists>d'. w' j = Some d' \<and> closes_dom (chan_state (links_of w)) i p j d d')"

text \<open>What a port has to be for a close to succeed.\<close>

definition closable :: "hyp \<Rightarrow> domid \<Rightarrow> int \<Rightarrow> bool" where
  "closable w i port \<longleftrightarrow>
     (\<exists>d c. w i = Some d \<and> 0 \<le> port \<and> chan d (nat port) = Some c \<and> \<not> consumer_is_xen c \<and>
        state c \<noteq> ECS_FREE \<and> state c \<noteq> ECS_RESERVED)"

lemma close_state_unlinked:
  "peer_of (S a) = None \<Longrightarrow> close_state S a = S(a \<mapsto> ECS_FREE)"
  by (auto simp: close_state_def fun_eq_iff)

lemma closed_chan_unlinked: "peer_of (S a) = None \<Longrightarrow> closed_chan S a b = (if b = a then freed else id)"
  by (auto simp: closed_chan_def fun_eq_iff)

lemma set_evtchn_shape: "set_evtchn d p c = d\<lparr>evtchn := evtchn (set_evtchn d p c)\<rparr>"
  by (simp add: set_evtchn_def split: bucket.splits)

lemma pirq_port_unpend [simp]: "pirq_port (unpend d p) = pirq_port d"
  by (rule pirq_port_cong) (simp add: unpend_def)

lemma virq_port_set_evtchn [simp]: "virq_port (set_evtchn d p c) = virq_port d"
  by (simp add: virq_port_def fun_eq_iff)

lemma unbinds_set_evtchn:
  assumes "unbinds p x y"
  shows "unbinds p x (set_evtchn y r c)" "unbinds p x (unpend y q)"
proof -
  have y: "y\<lparr>evtchn := evtchn x, evtchn_pending := evtchn_pending x, vcpu := vcpu x,
        pirq_to_evtchn := pirq_to_evtchn x, pirq_bound := pirq_bound x\<rparr> = x"
    using assms by (simp add: unbinds_def)
  have "(set_evtchn y r c)\<lparr>evtchn := evtchn x, evtchn_pending := evtchn_pending x, vcpu := vcpu x,
        pirq_to_evtchn := pirq_to_evtchn x, pirq_bound := pirq_bound x\<rparr> = x"
    using y by (subst set_evtchn_shape) simp
  then show "unbinds p x (set_evtchn y r c)" using assms by (simp add: unbinds_def)
  have "virq_port (unpend y q) = virq_port y" using sched_frame_virq_port [OF unpend_simps(1)] .
  then show "unbinds p x (unpend y q)" using assms by (simp add: unbinds_def) (simp add: unpend_def)
qed

text \<open>A port that no interrupt is bound to, and the two kinds of binding.\<close>

lemma unbinds_unlinked:
  assumes w: "evtchn_inv w" "w i = Some x" and c: "chan x p = Some c"
    and s: "\<And>v. state c \<noteq> ECS_VIRQ v" "\<And>q. state c \<noteq> ECS_PIRQ q"
  shows "unbinds p x x"
proof -
  note t = tab_okD(3,4) [OF evtchn_invD(3) [OF w], simplified]
  have "virq_port x a \<noteq> Some p" for a using t(1) [of "fst a" "snd a" p] c s by auto
  moreover have "pirq_port x q \<noteq> Some p" for q using t(2) [of q p] c s by auto
  ultimately show ?thesis by (simp add: unbinds_def unmap_def)
qed

lemma unbinds_pirq:
  assumes w: "evtchn_inv w" "w i = Some x" and c: "chan x p = Some c" "state c = ECS_PIRQ q"
  shows "unbinds p x (set_pirq x q 0)"
proof -
  note t = tab_okD(3,4) [OF evtchn_invD(3) [OF w], simplified]
  have q: "pirq_port x q = Some p" using chan_okD(1) [OF w c(1)] c(2) by (simp add: chan_ok_def)
  then have len: "q < length (pirq_to_evtchn x)" by (auto simp: pirq_port_def array_get_def split: if_splits)
  have v: "virq_port x a \<noteq> Some p" for a using t(1) [of "fst a" "snd a" p] c by auto
  have only: "pirq_port x r = Some p \<longleftrightarrow> r = q" for r using t(2) [of r p] c q by auto
  have "pirq_port (set_pirq x q 0) = unmap (pirq_port x) p"
    unfolding pirq_port_set_pirq [OF len] by (auto simp: unmap_def only fun_eq_iff)
  then show ?thesis using v unfolding unbinds_def by (simp add: unmap_def only) (simp add: set_pirq_def)
qed

lemma unbinds_virq:
  assumes w: "evtchn_inv w" "w i = Some x" and c: "chan x p = Some c" "state c = ECS_VIRQ v"
  shows "unbinds p x (drop_virqs x v p)"
proof -
  note t = tab_okD(3,4) [OF evtchn_invD(3) [OF w], simplified]
  note d = evtchn_invD(1) [OF w]
  have vp: "virq_port x (virq_home v c, v) = Some p" "p \<noteq> 0"
    using chan_okD(1) [OF w c(1)] c(2) by (auto simp: chan_ok_def)
  have v: "v < NR_VIRQS"
    using vp(1) virqs_length [OF d] by (auto simp: virq_port_def array_get_def split: bind_splits if_splits)
  have q: "pirq_port x r \<noteq> Some p" for r using t(2) [of r p] c by auto
  have only: "virq_port x (k, u) = Some p \<Longrightarrow> u = v" for k u using t(1) [of k u p] c by auto
  have "virq_port (drop_virqs x v p) = unmap (virq_port x) p"
    unfolding virq_port_drop_virqs [OF d v vp(2)] by (auto simp: unmap_def fun_eq_iff dest: only)
  moreover have "map (map_option (virq_to_evtchn_update (\<lambda>_. []))) (vcpu (drop_virqs x v p)) =
      map (map_option (virq_to_evtchn_update (\<lambda>_. []))) (vcpu x)"
    by (auto simp: drop_virqs_def drop_virq_def option.map_comp intro!: option.map_cong)
  ultimately show ?thesis using q unfolding unbinds_def by (simp add: unmap_def) (simp add: drop_virqs_def)
qed

lemma closes_local:
  assumes "evtchn_inv w" "w i = Some x" "chan x p = Some c" "peer_of (Some (state c)) = None"
    "dom_ok y" "chan y = chan x" "evtchn_pending y = evtchn_pending x" "unbinds p x y"
  shows "closes w (w(i \<mapsto> set_evtchn (unpend y p) p (freed c))) i p"
proof -
  let ?S = "chan_state (links_of w)"
  let ?x = "set_evtchn (unpend y p) p (freed c)"
  have u: "dom_ok (unpend y p)" "chan (unpend y p) p = Some c"
    using sched_frame_dom_ok [OF unpend_simps(1) assms(5)] assms by simp_all
  have ch: "chan ?x = (chan x)(p \<mapsto> freed c)" using chan_set_evtchn [OF u] assms(6) by simp
  have "chan_state ((links_of w)(i \<mapsto> tab ?x)) = ?S((i, p) \<mapsto> ECS_FREE)"
    using chan_state_upd [of "links_of w" i "tab x" "tab ?x" p "freed c"] assms ch by simp
  moreover have un: "peer_of (?S (i, p)) = None" using assms by (simp add: chan_state_at)
  moreover have "closes_dom ?S i p i x ?x"
    using ch assms unbinds_set_evtchn(1) [OF unbinds_set_evtchn(2) [OF assms(8)]] by (simp add: closes_dom_def closed_chan_unlinked [of ?S "(i, p)", OF un] option.map_id fun_eq_iff)
  moreover have "closes_dom ?S i p j d d" if "j \<noteq> i" for j d
    using that by (simp add: closes_dom_def closed_chan_unlinked [of ?S "(i, p)", OF un] option.map_id)
  ultimately show ?thesis
    using close_state_unlinked [of ?S "(i, p)", OF un] assms(2) by (auto simp: closes_def split: option.split)
qed

lemma peerE:
  assumes w: "evtchn_inv w" "w i = Some x" "chan x p = Some c" "state c = ECS_INTERDOMAIN j q"
  obtains y e where "w j = Some y" "chan y q = Some e" "state e = ECS_INTERDOMAIN i p" "(i, p) \<noteq> (j, q)"
proof -
  have P: "pairing (peer_of \<circ> chan_state (links_of w))"
    using evtchn_invD(2) [OF w(1)] by (simp add: links_ok_def peers_ok_def)
  have a: "(peer_of \<circ> chan_state (links_of w)) (i, p) = Some (j, q)" using w by (simp add: chan_state_at)
  have ne: "(i, p) \<noteq> (j, q)" using pairingD(1) [OF P a] .
  have "chan_state (links_of w) (j, q) = Some (ECS_INTERDOMAIN i p)"
    using pairingD(2) [OF P a] by (simp add: peer_of_Some)
  then obtain y e where "w j = Some y" "chan y q = Some e" "state e = ECS_INTERDOMAIN i p"
    by (auto simp: chan_state_def links_of_def split: bind_splits)
  then show thesis using that ne by blast
qed

lemma closes_dom_disconnect:
  assumes w: "evtchn_inv w" "w i = Some x" "chan x p = Some c" "state c = ECS_INTERDOMAIN j q"
    and y: "w j = Some y" "chan y q = Some e" "state e = ECS_INTERDOMAIN i p" "(i, p) \<noteq> (j, q)"
    and k: "w k = Some a" "(w(j \<mapsto> set_evtchn y q (e\<lparr>state := ECS_UNBOUND i\<rparr>),
        i \<mapsto> set_evtchn (unpend (if i = j then set_evtchn y q (e\<lparr>state := ECS_UNBOUND i\<rparr>) else x) p) p (freed c))) k = Some a'"
  shows "closes_dom (chan_state (links_of w)) i p k a a'"
proof -
  define y' where "y' = set_evtchn y q (e\<lparr>state := ECS_UNBOUND i\<rparr>)"
  define x' where "x' = (if i = j then y' else x)"
  define d where "d = set_evtchn (unpend x' p) p (freed c)"
  have k': "(w(j \<mapsto> y', i \<mapsto> d)) k = Some a'" using k(2) unfolding y'_def x'_def d_def .
  note dx = evtchn_invD(1) [OF w(1,2)] and dy = evtchn_invD(1) [of w j y, OF w(1) y(1)]
  have y': "dom_ok y'" "chan y' = (chan y)(q \<mapsto> e\<lparr>state := ECS_UNBOUND i\<rparr>)"
    using dom_ok_set_evtchn [OF dy y(2)] chan_set_evtchn [OF dy y(2)] by (simp_all add: y'_def)
  have x': "dom_ok x'" "chan x' p = Some c" "evtchn_pending x' = evtchn_pending x"
    using w y dx y' by (auto simp: x'_def y'_def)
  have "unbinds p x x" by (rule unbinds_unlinked [OF w(1-3)]) (simp_all add: w(4))
  then have "unbinds p x x'" using unbinds_set_evtchn(1) w(2) y(1) by (auto simp: x'_def y'_def)
  then have un: "unbinds p x d" unfolding d_def by (intro unbinds_set_evtchn)
  have u: "dom_ok (unpend x' p)" "chan (unpend x' p) p = Some c"
    using sched_frame_dom_ok [OF unpend_simps(1) x'(1)] x'(2) by simp_all
  have ch: "chan d = (chan x')(p \<mapsto> freed c)" using chan_set_evtchn [OF u] by (simp add: d_def)
  have pe: "peer_of (chan_state (links_of w) (i, p)) = Some (j, q)" using w by (simp add: chan_state_at)
  have cc: "closed_chan (chan_state (links_of w)) (i, p) b =
      (if b = (i, p) then freed else if b = (j, q) then state_update (\<lambda>_. ECS_UNBOUND i) else id)" for b
    by (auto simp: closed_chan_def pe fun_eq_iff)
  show ?thesis
  proof (cases "k = i")
    case True
    then have "a = x" "a' = d" using k(1) k' w(2) by auto
    moreover have "chan d r = map_option (closed_chan (chan_state (links_of w)) (i, p) (i, r)) (chan x r)" for r
      unfolding cc using w y y'(2) by (cases "i = j") (auto simp: ch x'_def option.map_id)
    ultimately show ?thesis using un x'(3) True by (auto simp: closes_dom_def fun_eq_iff d_def)
  next
    case False
    have "a' = a\<lparr>evtchn := evtchn a'\<rparr>"
      using False k(1) k' y(1) set_evtchn_shape [of y q] by (auto simp: y'_def split: if_splits)
    moreover have "chan a' r = map_option (closed_chan (chan_state (links_of w)) (i, p) (k, r)) (chan a r)" for r
      unfolding cc using False k(1) k' y y'(2) by (auto simp: option.map_id split: if_splits)
    ultimately show ?thesis using False by (auto simp: closes_dom_def fun_eq_iff)
  qed
qed

lemma good_disconnect:
  assumes w: "evtchn_inv w" "w i = Some x" "chan x p = Some c" "state c = ECS_INTERDOMAIN j q"
    and cx: "\<not> consumer_is_xen c"
  obtains w1 w2 where "close_peer w i j q = Some w1" "close_tail w1 i p = Some w2" "good w w2" "closes w w2 i p"
proof -
  obtain y e where y: "w j = Some y" "chan y q = Some e" "state e = ECS_INTERDOMAIN i p" "(i, p) \<noteq> (j, q)"
    by (rule peerE [OF w]) blast
  note dx = evtchn_invD(1) [OF w(1,2)] and dy = evtchn_invD(1) [of w j y, OF w(1) y(1)]
  define e' where "e' = e\<lparr>state := ECS_UNBOUND i\<rparr>"
  define y' where "y' = set_evtchn y q e'"
  define w1 where "w1 = w(j \<mapsto> y')"
  have y': "dom_ok y'" "chan y' = (chan y)(q \<mapsto> e')" "tab y' = set_chan (tab y) q e'"
    using dom_ok_set_evtchn [OF dy y(2)] chan_set_evtchn [OF dy y(2)] tab_set_evtchn [OF dy y(2)] by (auto simp: y'_def)
  have cp: "close_peer w i j q = Some w1"
    using y modify_evtchn_eq [of w j y q e] chan_valid [OF y(2)] chan_from_port [OF y(2)]
    by (simp add: close_peer_def w1_def y'_def e'_def)
  define x' where "x' = (if i = j then y' else x)"
  have x': "w1 i = Some x'" "chan x' p = Some c" "dom_ok x'" "is_dying x' = is_dying x"
    "has_32bit_shinfo x' = has_32bit_shinfo x"
    using w y dx y' by (auto simp: x'_def w1_def y'_def)
  define d where "d = set_evtchn (unpend x' p) p (freed c)"
  have u: "dom_ok (unpend x' p)" "chan (unpend x' p) p = Some c"
    using sched_frame_dom_ok [OF unpend_simps(1) x'(3)] x' by simp_all
  have d: "dom_ok d" "chan d = (chan x')(p \<mapsto> freed c)" "tab d = set_chan (tab x') p (freed c)"
    "is_dying d = is_dying x" "has_32bit_shinfo d = has_32bit_shinfo x" "p \<notin> evtchn_pending d"
    using dom_ok_set_evtchn [OF u] chan_set_evtchn [OF u] tab_set_evtchn [OF u] x' by (auto simp: d_def)
  have ct: "close_tail w1 i p = Some (w1(i \<mapsto> d))"
    using close_tail_eq [of w1 i x' p c] x' by (simp add: d_def)
  have ok: "chan_ok (tab y) q e'" "chan_ok (tab x) p (freed c)"
    using chan_okD(1) [of w j y q e, OF w(1) y(1,2)] y(3) chan_ok_freed [OF w(1-3) cx] w(4)
    by (auto simp: e'_def chan_ok_def)
  have "links_ok ((links_of w)(j \<mapsto> set_chan (tab y) q e', i \<mapsto> set_chan (tab x') p (freed c)))"
    by (rule links_ok_disconnect [of "links_of w" i "tab x" p c j q "tab y" e])
      (use evtchn_invD(2) [OF w(1)] w y ok y'(3) in \<open>auto simp: e'_def x'_def\<close>)
  then have "evtchn_inv (w1(i \<mapsto> d))"
    using w(1) y' d by (auto simp: evtchn_inv_def w1_def)
  moreover have "steady w (w1(i \<mapsto> d))"
  proof -
    have y'': "settled y y' r" for r
      using settled_upd [OF y'(2) y(2)] y(3) by (simp add: e'_def)
    have "settled x' d r" for r
      using settled_upd [OF d(2) x'(2)] by simp
    then have "settled x d r" for r
      using y'' w(2) y(1) by (cases "i = j") (auto simp: x'_def intro: settled_trans)
    then show ?thesis
      using w(2) y(1) d y'' by (auto simp: steady_def w1_def y'_def settled_frame)
  qed
  moreover have "closes w (w1(i \<mapsto> d)) i p"
  proof -
    have "chan_state (links_of w1) = (chan_state (links_of w))((j, q) \<mapsto> state e')"
      using chan_state_upd [of "links_of w" j "tab y" "tab y'" q e'] y y' by (simp add: w1_def)
    moreover have "chan_state (links_of (w1(i \<mapsto> d))) = (chan_state (links_of w1))((i, p) \<mapsto> ECS_FREE)"
      using chan_state_upd [of "links_of w1" i "tab x'" "tab d" p "freed c"] x' d by simp
    moreover have "peer_of (chan_state (links_of w) (i, p)) = Some (j, q)" using w by (simp add: chan_state_at)
    ultimately have st: "chan_state (links_of (w1(i \<mapsto> d))) = close_state (chan_state (links_of w)) (i, p)"
      using y(4) by (auto simp: close_state_def e'_def fun_eq_iff)
    have cd: "closes_dom (chan_state (links_of w)) i p k a a'" if "w k = Some a" "(w1(i \<mapsto> d)) k = Some a'" for k a a'
      by (rule closes_dom_disconnect [OF w y that(1)]) (use that(2) in \<open>simp only: d_def x'_def w1_def y'_def e'_def\<close>)
    have dm: "w k = None \<longleftrightarrow> (w1(i \<mapsto> d)) k = None" for k using w(2) y(1) by (simp add: w1_def)
    have "case w k of None \<Rightarrow> (w1(i \<mapsto> d)) k = None
        | Some a \<Rightarrow> \<exists>a'. (w1(i \<mapsto> d)) k = Some a' \<and> closes_dom (chan_state (links_of w)) i p k a a'" for k
      using dm [of k] cd [of k] by (cases "w k"; cases "(w1(i \<mapsto> d)) k") simp_all
    then show ?thesis using st unfolding closes_def by blast
  qed
  ultimately show thesis using that [OF cp ct] by (simp add: good_def)
qed

lemma close_pass_cases:
  assumes w: "evtchn_inv w" "w i = Some x"
  obtains (einval) "evtchn_close_pass E w i port d2 = Some (Inl (w, - EINVAL))"
      "\<And>n c. port = int n \<Longrightarrow> chan x n = Some c \<Longrightarrow> \<not> closed x n \<Longrightarrow> \<not> consumer_is_xen c \<Longrightarrow>
         \<exists>r q s. state c = ECS_INTERDOMAIN r q \<and> d2 = Some s \<and> s \<noteq> r"
  | (again) r n q c where "d2 = None" "evtchn_close_pass E w i port d2 = Some (Inr r)"
      "port = int n" "chan x n = Some c" "state c = ECS_INTERDOMAIN r q" "\<not> consumer_is_xen c"
  | (ok) w' n where "evtchn_close_pass E w i port d2 = Some (Inl (w', 0))" "port = int n"
      "good w w'" "closes w w' i n" "closable w i port"
proof (cases "port_is_valid x port")
  case False
  then show thesis using einval w(2) chan_valid [of x] by (force simp: evtchn_close_pass_def)
next
  case True
  then obtain n c where n: "port = int n" "chan x n = Some c" "evtchn_from_port x n = Some c"
    by (rule port_validE_int [OF evtchn_invD(1) [OF w]])
  note pre = w(2) n(1,3) True [unfolded n(1)]
  show thesis
  proof (cases "consumer_is_xen c")
    case True
    then show thesis using einval pre n(2) by (force simp: evtchn_close_pass_def)
  next
    case cx: False
    have clo: "closable w i port" if "state c \<noteq> ECS_FREE" "state c \<noteq> ECS_RESERVED"
      using that cx n w(2) by (simp add: closable_def)
    have local: thesis if "\<not> linked (state c)" "state c \<noteq> ECS_RESERVED" "state c \<noteq> ECS_FREE"
        "evtchn_close_pass E w i port d2 = do { w' \<leftarrow> close_tail w i n; Some (Inl (w', 0)) }"
      and un: "\<And>v. state c \<noteq> ECS_VIRQ v" "\<And>q. state c \<noteq> ECS_PIRQ q"
      using that(4) ok [of "w(i \<mapsto> set_evtchn (unpend x n) n (freed c))" n] n close_tail_eq [of w i x n c] w(2)
        good_close_unlinked [OF w n(2) cx that(1,2)] closes_local [OF w n(2) _ evtchn_invD(1) [OF w] refl refl] that(1)
        unbinds_unlinked [OF w n(2) un] clo [OF that(3,2)]
      by simp
    show thesis
    proof (cases "state c")
      case (ECS_PIRQ q)
      note g = good_close_pirq [OF w n(2) cx ECS_PIRQ]
      have "close_tail (w(i \<mapsto> set_pirq x q 0)) i n = Some (w(i \<mapsto> set_evtchn (unpend (set_pirq x q 0) n) n (freed c)))"
        using close_tail_eq [of "w(i \<mapsto> set_pirq x q 0)" i "set_pirq x q 0" n c] n by simp
      moreover have sp: "x\<lparr>pirq_to_evtchn := (pirq_to_evtchn x)[q := 0], pirq_bound := pirq_bound x - {q}\<rparr> = set_pirq x q 0"
        by (simp add: set_pirq_def)
      ultimately show thesis
        using ok [OF _ n(1) g(2)] closes_local [OF w n(2) _ dom_ok_set_pirq [OF evtchn_invD(1) [OF w] g(1)], of 0]
          pre cx ECS_PIRQ g(1) clo unbinds_pirq [OF w n(2) ECS_PIRQ] sp by (simp add: evtchn_close_pass_def)
    next
      case (ECS_VIRQ v)
      note g = good_close_virq [OF w n(2) cx ECS_VIRQ]
      have "x\<lparr>vcpu := vcpu (drop_virqs x v n)\<rparr> = drop_virqs x v n" by (simp add: drop_virqs_def)
      moreover have "close_tail (w(i \<mapsto> drop_virqs x v n)) i n = Some (w(i \<mapsto> set_evtchn (unpend (drop_virqs x v n) n) n (freed c)))"
        using close_tail_eq [of "w(i \<mapsto> drop_virqs x v n)" i "drop_virqs x v n" n c] n by simp
      ultimately show thesis
        using ok [OF _ n(1) g(2)] closes_local [OF w n(2) _ dom_ok_drop_virqs [OF evtchn_invD(1) [OF w]], of v n]
          pre cx ECS_VIRQ g(1) clo unbinds_virq [OF w n(2) ECS_VIRQ] by (simp add: evtchn_close_pass_def)
    next
      case (ECS_INTERDOMAIN r q)
      obtain w1 w2 where d: "close_peer w i r q = Some w1" "close_tail w1 i n = Some w2" "good w w2" "closes w w2 i n"
        by (rule good_disconnect [OF w n(2) ECS_INTERDOMAIN cx]) blast
      obtain y where y: "w r = Some y" by (rule peerE [OF w n(2) ECS_INTERDOMAIN]) blast
      show thesis
      proof (cases d2)
        case None
        then show thesis using ok [OF _ n(1) d(3,4)] clo again [OF _ _ n(1,2) ECS_INTERDOMAIN cx] pre cx ECS_INTERDOMAIN d(1,2) y
          by (cases "\<not> domain_below E i r \<and> i \<noteq> r") (auto simp: evtchn_close_pass_def)
      next
        case (Some s)
        show thesis
        proof (cases "s = r")
          case True
          then show thesis using Some ok [OF _ n(1) d(3,4)] clo pre cx ECS_INTERDOMAIN d(1,2)
            by (simp add: evtchn_close_pass_def)
        next
          case False
          then have "evtchn_close_pass E w i port d2 = Some (Inl (w, - EINVAL))"
            using Some pre cx ECS_INTERDOMAIN by (simp add: evtchn_close_pass_def)
          then show thesis
            by (rule einval) (use False Some n(1,2) ECS_INTERDOMAIN in auto)
        qed
      qed
    next
      case ECS_FREE
      then have cl: "closed x n" using n(2) by (simp add: closed_def)
      show thesis by (rule einval) (use ECS_FREE pre n cx cl in \<open>auto simp: evtchn_close_pass_def\<close>)
    next
      case ECS_RESERVED
      then have cl: "closed x n" using n(2) by (simp add: closed_def)
      show thesis by (rule einval) (use ECS_RESERVED pre n cx cl in \<open>auto simp: evtchn_close_pass_def\<close>)
    qed (use pre n(2) cx local in \<open>auto simp: evtchn_close_pass_def\<close>)
  qed
qed

section \<open>The whole operation\<close>

lemma close_itf_cases:
  assumes w: "evtchn_inv w" "w i = Some x" and itf: "\<And>w. evtchn_inv w \<Longrightarrow> good w (itf w)"
  obtains (einval) w1 where "evtchn_close_itf E itf w i port = Some (w1, - EINVAL)" "w1 = w \<or> w1 = itf w" "good w w1"
      "w1 = w \<or> (\<exists>r q. chan_state (links_of w) (i, nat port) = Some (ECS_INTERDOMAIN r q))"
      "closable w1 i port \<Longrightarrow> \<exists>r q r' q'. chan_state (links_of w) (i, nat port) = Some (ECS_INTERDOMAIN r q) \<and>
         chan_state (links_of w1) (i, nat port) = Some (ECS_INTERDOMAIN r' q') \<and> r' \<noteq> r"
  | (ok) w1 w2 n where "evtchn_close_itf E itf w i port = Some (w2, 0)" "w1 = w \<or> w1 = itf w"
      "good w w1" "good w1 w2" "closes w1 w2 i n" "port = int n" "good w w2" "closable w1 i port"
      "w1 = w \<or> (\<exists>r q. chan_state (links_of w) (i, nat port) = Some (ECS_INTERDOMAIN r q))"
proof (cases rule: close_pass_cases [of w i x E port None, OF w])
  case 1
  have "\<not> closable w i port"
  proof
    assume "closable w i port"
    then obtain c where "0 \<le> port" "chan x (nat port) = Some c" "\<not> consumer_is_xen c" "\<not> closed x (nat port)"
      using w(2) by (auto simp: closable_def closed_def)
    then show False using 1(2) [of "nat port" c] by simp
  qed
  then show thesis using 1 einval [of w] good_refl [OF w(1)] by (simp add: evtchn_close_itf_def)
next
  case (2 r n q c)
  note g = itf [OF w(1)]
  have s: "chan_state (links_of w) (i, nat port) = Some (ECS_INTERDOMAIN r q)" using 2 w(2) by (simp add: chan_state_at)
  obtain x' where x': "itf w i = Some x'" using steadyE [OF goodD(2) [OF g] w(2)] by blast
  show thesis
  proof (cases rule: close_pass_cases [of "itf w" i x' E port "Some r", OF goodD(1) [OF g] x'])
    case 1
    have "\<exists>r' q'. chan_state (links_of (itf w)) (i, nat port) = Some (ECS_INTERDOMAIN r' q') \<and> r' \<noteq> r"
      if clo: "closable (itf w) i port"
    proof -
      obtain c where c: "0 \<le> port" "chan x' (nat port) = Some c" "\<not> consumer_is_xen c" "\<not> closed x' (nat port)"
        using clo x' by (auto simp: closable_def closed_def)
      then show ?thesis using 1(2) [of "nat port" c] x' by (auto simp: chan_state_at)
    qed
    then show thesis using einval [of "itf w"] 1 2 g s by (simp add: evtchn_close_itf_def)
  next
    case (2 r' n' q' c')
    then show thesis by simp
  next
    case (3 w' m)
    then show thesis
      using ok [of w' "itf w" m] 2 g good_trans [OF g 3(3)] s by (simp add: evtchn_close_itf_def)
  qed
next
  case (3 w' n)
  then show thesis using ok [of w' w n] good_refl [OF w(1)] by (simp add: evtchn_close_itf_def)
qed

lemma closes_closed:
  assumes "closes w w' i n" "w' i = Some x'"
  shows "closed x' n"
proof -
  have "chan_state (links_of w') (i, n) = Some ECS_FREE"
    using assms(1) by (simp add: closes_def close_state_def)
  then show ?thesis using chan_state_at [of w' i x' n, OF assms(2)] by (auto simp: closed_def)
qed

text \<open>In a dying domain a close cannot be overtaken by a new binding of the port.\<close>

lemma close_itf_dying:
  assumes w: "evtchn_inv w" "w i = Some x" "is_dying x \<noteq> DOMDYING_alive"
    and itf: "\<And>w. evtchn_inv w \<Longrightarrow> good w (itf w)"
    and c: "chan x n = Some c" "\<not> consumer_is_xen c"
  obtains w2 rc x2 where "evtchn_close_itf E itf w i (int n) = Some (w2, rc)" "good w w2" "w2 i = Some x2"
    "is_dying x2 \<noteq> DOMDYING_alive" "closed x2 n"
proof (cases rule: close_pass_cases [of w i x E "int n" None, OF w(1,2)])
  case 1
  have "closed x n" using 1(2) [OF refl c(1)] c(2) by auto
  then show thesis using that [of w "- EINVAL" x] 1(1) w good_refl [OF w(1)] by (simp add: evtchn_close_itf_def)
next
  case (3 w' m)
  obtain x2 where x2: "w' i = Some x2" "is_dying x2 \<noteq> DOMDYING_alive"
    using steadyE [OF goodD(2) [OF 3(3)] w(2)] w(3) by metis
  show thesis
    using that [of w' 0 x2] 3 x2 closes_closed [of w w' i n x2, OF _ x2(1)] by (simp add: evtchn_close_itf_def)
next
  case (2 r m q d)
  then have d: "d = c" "state c = ECS_INTERDOMAIN r q" using c(1) by auto
  note g = itf [OF w(1)]
  obtain x' where x': "itf w i = Some x'" "is_dying x' \<noteq> DOMDYING_alive" "settled x x' n"
    using steadyE [OF goodD(2) [OF g] w(2)] w(3) by metis
  show thesis
  proof (cases rule: close_pass_cases [of "itf w" i x' E "int n" "Some r", OF goodD(1) [OF g] x'(1)])
    case 1
    have "closed x' n"
    proof (rule ccontr)
      assume nc: "\<not> closed x' n"
      then obtain c' where c': "chan x' n = Some c'" "kind (state c') = ECS_UNBOUND r" "\<not> consumer_is_xen c'"
        using x'(3) c d by (auto simp: settled_def)
      then show False using 1(2) [OF refl c'(1) nc c'(3)] by auto
    qed
    then show thesis using that [of "itf w" "- EINVAL" x'] 1(1) 2 x' g by (simp add: evtchn_close_itf_def)
  next
    case (2 r' n' q' c')
    then show thesis by simp
  next
    case (3 w' m')
    obtain x2 where x2: "w' i = Some x2" "is_dying x2 \<noteq> DOMDYING_alive"
      using steadyE [OF goodD(2) [OF 3(3)] x'(1)] x'(2) by metis
    show thesis
      using that [of w' 0 x2] 3 2 x2 closes_closed [of "itf w" w' i n x2, OF _ x2(1)] good_trans [OF g 3(3)]
      by (simp add: evtchn_close_itf_def)
  qed
qed

end
