(* ===== verification/Event_Channel_Props.thy ===== *)
theory Event_Channel_Props
  imports Event_Channel_Close
begin

text \<open>
  The remaining operations (sending, rebinding, unmasking, the loops that close all ports,
  creation and destruction), the hypercall as a whole, the step relation of the event-channel
  subsystem, and the properties of the component.
\<close>

section \<open>Sending\<close>

lemma evtchn_send_good:
  assumes w: "evtchn_inv w" "w ld = Some x"
  shows "\<exists>w' rc. evtchn_send E w ld lport = Some (w', rc) \<and> good w w'"
proof (cases "chan x lport")
  case None
  then have "\<not> port_is_valid x (int lport)" using valid_chan [OF evtchn_invD(1) [OF w]] by blast
  then show ?thesis using w good_refl [OF w(1)] by (simp add: evtchn_send_def)
next
  case (Some c)
  note pre = w(2) chan_valid [OF Some] chan_from_port [OF Some]
  note g0 = good_refl [OF w(1)]
  show ?thesis
  proof (cases "consumer_is_xen c \<or> xsm_evtchn_send E \<noteq> 0")
    case True
    then show ?thesis using pre g0 by (auto simp: evtchn_send_def)
  next
    case ok: False
    show ?thesis
    proof (cases "state c")
      case (ECS_INTERDOMAIN rd rport)
      obtain y e where y: "w rd = Some y" "chan y rport = Some e"
        by (rule peerE [OF w Some ECS_INTERDOMAIN]) blast
      have k: "vcpu_at y (notify_vcpu_id e) \<noteq> None" using chan_okD(2) [of w rd y rport e] w(1) y by blast
      then obtain v where v: "vcpu_at y (notify_vcpu_id e) = Some v" by blast
      show ?thesis
      proof (cases "consumer_is_xen e")
        case xen: True
        let ?v = "v\<lparr>pause_flags := pause_flags v - {VPF_blocked_in_xen}\<rparr>"
        let ?y = "set_vcpu y (notify_vcpu_id e) ?v"
        have at: "vcpu_at ?y (notify_vcpu_id e) = Some ?v"
          using vcpu_at_set_vcpu vcpu_at_less [OF v] by simp
        obtain y' where y': "vcpu_wake ?y (notify_vcpu_id e) = Some y'" "wakes (notify_vcpu_id e) ?y y'"
          by (rule vcpu_wake_spec [OF at]) blast
        have "sched_frame y y'"
          using sched_frame_trans [OF sched_frame_set_vcpu [OF v, of ?v]] y'(2) by (simp add: wakes_def)
        then have "good w (w(rd \<mapsto> y'))" by (rule good_sched_frame [OF w(1) y(1)])
        then show ?thesis
          using pre ok ECS_INTERDOMAIN xen y chan_from_port [OF y(2)] v y'(1) g0
          by (auto simp: evtchn_send_def)
      next
        case False
        obtain y' r where "set_pending_on E w rd (notify_vcpu_id e) rport = Some (w(rd \<mapsto> y'), r)"
          "good w (w(rd \<mapsto> y'))"
          by (rule set_pending_on_good [OF w(1) y(1) k]) blast
        then show ?thesis
          using pre ok ECS_INTERDOMAIN False y chan_from_port [OF y(2)] by (simp add: evtchn_send_def)
      qed
    next
      case ECS_IPI
      obtain x' r where "set_pending_on E w ld (notify_vcpu_id c) lport = Some (w(ld \<mapsto> x'), r)"
        "good w (w(ld \<mapsto> x'))"
        by (rule set_pending_on_good [OF w chan_okD(2) [OF w Some]]) blast
      then show ?thesis using pre ok ECS_IPI by (simp add: evtchn_send_def)
    qed (use pre ok g0 in \<open>auto simp: evtchn_send_def\<close>)
  qed
qed

lemma notify_via_xen_good:
  assumes w: "evtchn_inv w" "w ld = Some x" and c: "chan x n = Some c" "consumer_is_xen c"
  shows "\<exists>w'. notify_via_xen_event_channel E w ld (int n) = Some w' \<and> good w w'"
proof -
  note pre = w(2) chan_valid [OF c(1)] chan_from_port [OF c(1)] c(2)
  show ?thesis
  proof (cases "state c")
    case (ECS_INTERDOMAIN rd rport)
    obtain y e where y: "w rd = Some y" "chan y rport = Some e"
      by (rule peerE [OF w c(1) ECS_INTERDOMAIN]) blast
    have k: "vcpu_at y (notify_vcpu_id e) \<noteq> None" using chan_okD(2) [of w rd y rport e] w(1) y by blast
    obtain y' r where "set_pending_on E w rd (notify_vcpu_id e) rport = Some (w(rd \<mapsto> y'), r)"
      "good w (w(rd \<mapsto> y'))"
      by (rule set_pending_on_good [OF w(1) y(1) k]) blast
    then show ?thesis
      using pre ECS_INTERDOMAIN y chan_from_port [OF y(2)] by (simp add: notify_via_xen_event_channel_def)
  qed (use pre good_refl [OF w(1)] in \<open>simp_all add: notify_via_xen_event_channel_def\<close>)
qed

section \<open>Interrupts for a guest\<close>

lemma virq_portD:
  assumes w: "evtchn_inv w" "w i = Some d" and p: "virq_port d (k, v) = Some p"
  obtains c where "chan d p = Some c" "state c = ECS_VIRQ v" "k = virq_home v c"
  using tab_okD(3) [OF evtchn_invD(3) [OF w], of k v p] p by auto

lemma pirq_portD:
  assumes w: "evtchn_inv w" "w i = Some d" and p: "pirq_port d q = Some p"
  obtains c where "chan d p = Some c" "state c = ECS_PIRQ q"
  using tab_okD(4) [OF evtchn_invD(3) [OF w], of q p] p by auto

lemma send_guest_vcpu_virq_good:
  assumes w: "evtchn_inv w" "w i = Some d" and v: "vcpu_at d k \<noteq> None" "virq < NR_VIRQS" "\<not> global_virq virq"
  shows "\<exists>w'. send_guest_vcpu_virq E w i k virq = Some w' \<and> good w w'"
proof -
  obtain u where u: "vcpu_at d k = Some u" using v(1) by blast
  have len: "virq < length (virq_to_evtchn u)" using virqs_length [OF evtchn_invD(1) [OF w] u] v(2) by simp
  obtain d' r where "set_pending_on E w i k (virq_to_evtchn u ! virq) = Some (w(i \<mapsto> d'), r)" "good w (w(i \<mapsto> d'))"
    by (rule set_pending_on_good [OF w v(1)]) blast
  then show ?thesis
    using w(2) u len v good_refl [OF w(1)]
    by (auto simp: send_guest_vcpu_virq_def virq_is_global_eq)
qed

lemma send_guest_global_virq_good:
  assumes w: "evtchn_inv w" "w i = Some d" and v: "virq < NR_VIRQS" "global_virq virq"
  shows "\<exists>w'. send_guest_global_virq E w (Some i) virq = Some w' \<and> good w w'"
proof -
  have v0: "vcpu_at d 0 \<noteq> None" using tab_okD(1) [OF evtchn_invD(3) [OF w]] by simp
  then obtain u where u: "vcpu_at d 0 = Some u" by blast
  have len: "virq < length (virq_to_evtchn u)" using virqs_length [OF evtchn_invD(1) [OF w] u] v(1) by simp
  have ne: "vcpu d \<noteq> []" "vcpu d ! 0 = Some u" using u by (auto simp: vcpu_at_Some)
  show ?thesis
  proof (cases "virq_to_evtchn u ! virq = 0")
    case True
    then show ?thesis using w(2) v u len ne good_refl [OF w(1)]
      by (simp add: send_guest_global_virq_def virq_is_global_eq)
  next
    case False
    then have "virq_port d (0, virq) = Some (virq_to_evtchn u ! virq)" using u len by (simp add: virq_port_def)
    then obtain c where c: "chan d (virq_to_evtchn u ! virq) = Some c" by (rule virq_portD [OF w]) blast
    obtain d' r where "set_pending_on E w i (notify_vcpu_id c) (virq_to_evtchn u ! virq) = Some (w(i \<mapsto> d'), r)"
      "good w (w(i \<mapsto> d'))"
      by (rule set_pending_on_good [OF w chan_okD(2) [OF w c]]) blast
    then show ?thesis using False w(2) v u len ne chan_from_port [OF c]
      by (simp add: send_guest_global_virq_def virq_is_global_eq)
  qed
qed

lemma send_guest_pirq_good:
  assumes w: "evtchn_inv w" "w i = Some d" and p: "pirq_port d q = Some p"
  obtains d' r where "send_guest_pirq E w i q = Some (w(i \<mapsto> d'), r)" "good w (w(i \<mapsto> d'))"
    "evtchn_pending d' = insert p (evtchn_pending d)" "r = (if p \<in> evtchn_pending d then 1 else 0)"
proof -
  obtain c where c: "chan d p = Some c" by (rule pirq_portD [OF w p]) blast
  obtain d' r where s: "set_pending_on E w i (notify_vcpu_id c) p = Some (w(i \<mapsto> d'), r)" "good w (w(i \<mapsto> d'))"
    "evtchn_pending d' = insert p (evtchn_pending d)" "r = (if p \<in> evtchn_pending d then 1 else 0)"
    by (rule set_pending_on_good [OF w chan_okD(2) [OF w c]]) blast
  have "array_get (pirq_to_evtchn d) q = Some p" "p \<noteq> 0"
    using p by (auto simp: pirq_port_def split: bind_splits if_splits)
  then show thesis using that [of d' r] s w(2) chan_from_port [OF c] by (simp add: send_guest_pirq_def)
qed

section \<open>Status, rebinding, unmasking\<close>

lemma evtchn_status_total:
  assumes w: "evtchn_inv w" "w cur = Some x"
  shows "\<exists>r. evtchn_status E w cur dm port = Some r"
proof (cases rule: lock_target_cases [of w cur x dm, OF w(2)])
  case (1 rc)
  then show ?thesis by (simp add: evtchn_status_def)
next
  case (2 i d)
  have wi: "evtchn_inv w" "w i = Some d" using w(1) 2(2) by auto
  show ?thesis
  proof (cases "port_is_valid d (sint port)")
    case False
    then show ?thesis using 2(1,2) by (simp add: evtchn_status_def Let_def)
  next
    case True
    obtain n c where n: "sint port = int n" "chan d n = Some c" "evtchn_from_port d n = Some c"
      by (rule port_validE_int [OF evtchn_invD(1) [OF wi] True])
    show ?thesis
    proof (cases "state c")
      case (ECS_INTERDOMAIN r q)
      obtain y where "w r = Some y" by (rule peerE [OF wi n(2) ECS_INTERDOMAIN]) blast
      then show ?thesis using 2(1,2) True n ECS_INTERDOMAIN by (simp add: evtchn_status_def Let_def)
    qed (use 2(1,2) True n in \<open>simp_all add: evtchn_status_def Let_def\<close>)
  qed
qed

lemma evtchn_bind_vcpu_good:
  assumes w: "evtchn_inv w" "w cur = Some d"
  shows "\<exists>w' rc. evtchn_bind_vcpu w cur port k = Some (w', rc) \<and> good w w'"
proof -
  note g0 = good_refl [OF w(1)] and d = evtchn_invD(1) [OF w]
  show ?thesis
  proof (cases "k \<ge> max_vcpus d \<or> vcpu d ! k = None \<or> \<not> port_is_valid d (int port)")
    case True
    then show ?thesis using w(2) g0 by (auto simp: evtchn_bind_vcpu_def)
  next
    case False
    then obtain c where c: "chan d port = Some c" using valid_chan [OF d] by blast
    have k: "vcpu_at d k \<noteq> None" using False by (auto simp: vcpu_at_def array_get_def max_vcpus_def)
    note k16 = to_u16_vcpu [OF d k]
    let ?c = "c\<lparr>notify_vcpu_id := k\<rparr>"
    note ok = chan_okD(1) [OF w c]
    have bind: "modify_evtchn w cur port (\<lambda>c. c\<lparr>notify_vcpu_id := to_u16 (int k)\<rparr>) = Some (w(cur \<mapsto> set_evtchn d port ?c))"
      using modify_evtchn_eq [of w cur d port c] w(2) c k16 by simp
    have good: "good w (w(cur \<mapsto> set_evtchn d port ?c))"
      if "state c \<noteq> ECS_FREE" "\<And>v. state c = ECS_VIRQ v \<Longrightarrow> global_virq v"
      by (rule good_same_state [OF w c]) (use that ok k in \<open>auto simp: chan_ok_def virq_home_def\<close>)
    have vr: "v < NR_VIRQS" if "state c = ECS_VIRQ v" for v
    proof -
      have "virq_port d (virq_home v c, v) = Some port" using ok that by (simp add: chan_ok_def)
      then show ?thesis using virqs_length [OF d]
        by (auto simp: virq_port_def array_get_def split: bind_splits if_splits)
    qed
    show ?thesis
      using w(2) False c chan_from_port [OF c] bind good g0 vr
      by (cases "state c") (auto simp: evtchn_bind_vcpu_def Let_def virq_is_global_eq)
  qed
qed

lemma evtchn_unmask_good:
  assumes w: "evtchn_inv w" "w cur = Some d"
  shows "\<exists>w' rc. evtchn_unmask E w cur port = Some (w', rc) \<and> good w w'"
proof (cases "port_is_valid d (int port)")
  case False
  then show ?thesis using w good_refl [OF w(1)] by (simp add: evtchn_unmask_def)
next
  case True
  then obtain c where c: "chan d port = Some c" using valid_chan [OF evtchn_invD(1) [OF w]] by blast
  let ?d1 = "d\<lparr>evtchn_mask := evtchn_mask d - {port}\<rparr>"
  let ?sel = "port div BITS_PER_EVTCHN_WORD d"
  obtain v where v: "vcpu_at d (notify_vcpu_id c) = Some v" using chan_okD(2) [OF w c] by blast
  let ?v = "v\<lparr>evtchn_pending_sel := insert ?sel (evtchn_pending_sel v)\<rparr>"
  have f1: "good w (w(cur \<mapsto> ?d1))" by (rule good_sched_frame [OF w]) simp
  have at: "vcpu_at ?d1 (notify_vcpu_id c) = Some v" using v by simp
  then have at': "vcpu_at (set_vcpu ?d1 (notify_vcpu_id c) ?v) (notify_vcpu_id c) = Some ?v"
    using vcpu_at_set_vcpu vcpu_at_less by simp
  obtain d2 where d2: "vcpu_mark_events_pending (in_irq E) (set_vcpu ?d1 (notify_vcpu_id c) ?v) (notify_vcpu_id c) = Some d2"
    "wakes (notify_vcpu_id c) (set_vcpu ?d1 (notify_vcpu_id c) ?v) d2"
    by (rule mark_events_spec [OF at', of "in_irq E"]) blast
  have "sched_frame ?d1 (set_vcpu ?d1 (notify_vcpu_id c) ?v)" by (rule sched_frame_set_vcpu [OF at]) simp
  then have "sched_frame d d2"
    using sched_frame_trans [of d ?d1] sched_frame_trans d2(2) unfolding wakes_def by (metis sched_frame_mask)
  then have "good w (w(cur \<mapsto> d2))" by (rule good_sched_frame [OF w])
  then show ?thesis
    using True w(2) chan_from_port [OF c] v vcpu_at_less [OF v] f1 d2(1) by (auto simp: evtchn_unmask_def Let_def)
qed

section \<open>Closing every port\<close>

lemma tameD: "tame E \<Longrightarrow> evtchn_inv w \<Longrightarrow> good w (unlocked E n w)"
  by (simp add: tame_def)

text \<open>The assignment \<^verbatim>\<open>consumer_is_xen = 0\<close>.\<close>

lemma good_detach:
  assumes w: "evtchn_inv w" "w i = Some d" and c: "chan d p = Some c"
  obtains d' where "modify_evtchn w i p (\<lambda>c. c\<lparr>consumer_is_xen := False\<rparr>) = Some (w(i \<mapsto> d'))"
    "good w (w(i \<mapsto> d'))" "chan d' = (chan d)(p \<mapsto> c\<lparr>consumer_is_xen := False\<rparr>)"
    "is_dying d' = is_dying d" "MAX_EVTCHNS d' = MAX_EVTCHNS d" "dom_ok d'"
proof -
  let ?c = "c\<lparr>consumer_is_xen := False\<rparr>"
  note d = evtchn_invD(1) [OF w]
  have "good w (w(i \<mapsto> set_evtchn d p ?c))"
    by (rule good_same_state [OF w c]) (use chan_okD(1) [OF w c] in \<open>auto simp: chan_ok_def virq_home_def\<close>)
  then show thesis
    using that [of "set_evtchn d p ?c"] modify_evtchn_eq [of w i d p c] w(2) c
      chan_set_evtchn [OF d c] dom_ok_set_evtchn [OF d c] by simp
qed

lemma steady_MAX:
  assumes "steady w w'" "w i = Some d" "w' i = Some d'"
  shows "MAX_EVTCHNS d' = MAX_EVTCHNS d"
  using steadyE [OF assms(1,2)] assms(3) by (metis MAX_EVTCHNS_cong option.inject)

lemma close_itf_good:
  assumes w: "evtchn_inv w" "w i = Some x" and itf: "\<And>w. evtchn_inv w \<Longrightarrow> good w (itf w)"
  shows "\<exists>w' rc. evtchn_close_itf E itf w i port = Some (w', rc) \<and> good w w'"
  by (rule close_itf_cases [of w i x itf E port, OF w itf]) blast+

lemma close_all_good:
  assumes E: "tame E" and w: "evtchn_inv w" "w i = Some d"
  shows "\<exists>w'. close_all E detach w i port n = Some w' \<and> good w w'"
  using w
proof (induction n arbitrary: w d port)
  case 0
  then show ?case using good_refl by simp
next
  case (Suc n)
  let ?w0 = "unlocked E (2 * port) w"
  note g0 = tameD [OF E Suc.prems(1), of "2 * port"]
  obtain d0 where d0: "?w0 i = Some d0" using steadyE [OF goodD(2) [OF g0] Suc.prems(2)] by blast
  show ?case
  proof (cases "chan d0 port")
    case None
    then have "\<not> port_is_valid d0 (int port)" using valid_chan [OF evtchn_invD(1) [OF goodD(1) [OF g0] d0]] by blast
    then show ?thesis using d0 g0 by (simp add: Let_def)
  next
    case (Some c)
    note w0 = goodD(1) [OF g0]
    obtain d1 where d1: "modify_evtchn ?w0 i port (\<lambda>c. c\<lparr>consumer_is_xen := False\<rparr>) = Some (?w0(i \<mapsto> d1))"
      "good ?w0 (?w0(i \<mapsto> d1))"
      by (rule good_detach [OF w0 d0 Some]) blast
    obtain w1 d1' where w1: "(if detach then modify_evtchn ?w0 i port (\<lambda>c. c\<lparr>consumer_is_xen := False\<rparr>) else Some ?w0) = Some w1"
      "good ?w0 w1" "w1 i = Some d1'"
      using d1 d0 good_refl [OF w0] by (cases detach) auto
    obtain w2 rc where w2: "evtchn_close_itf E (unlocked E (2 * port + 1)) w1 i (int port) = Some (w2, rc)" "good w1 w2"
      using close_itf_good [of w1 i d1' "unlocked E (2 * port + 1)" E "int port"] goodD(1) [OF w1(2)] w1(3) tameD [OF E]
      by blast
    have g2: "good w w2" using good_trans [OF g0 good_trans [OF w1(2) w2(2)]] .
    obtain d2 where d2: "w2 i = Some d2" using steadyE [OF goodD(2) [OF g2] Suc.prems(2)] by blast
    obtain w' where "close_all E detach w2 i (Suc port) n = Some w'" "good w2 w'"
      using Suc.IH [OF goodD(1) [OF g2] d2] by blast
    then show ?thesis
      using d0 chan_valid [OF Some] w1(1) w2(1) good_trans [OF g2] by (auto simp: Let_def)
  qed
qed

lemma evtchn_reset_good:
  assumes E: "tame E" and w: "evtchn_inv w" "w cur = Some x"
  shows "\<exists>w' rc. evtchn_reset E w cur dm = Some (w', rc) \<and> good w w'"
proof (cases rule: lock_target_cases [of w cur x dm, OF w(2)])
  case (1 rc)
  then show ?thesis using good_refl [OF w(1)] by (simp add: evtchn_reset_def)
next
  case (2 i d)
  obtain w' where "close_all E False w i 0 (MAX_EVTCHNS d) = Some w'" "good w w'"
    using close_all_good [OF E w(1) 2(2)] by blast
  then show ?thesis using 2(1,2) good_refl [OF w(1)]
    by (cases "xsm_evtchn_reset E = 0") (simp_all add: evtchn_reset_def)
qed

text \<open>
  For a dying domain the loop closes every port: what is closed stays closed, and the loop stops
  only at the end of the table.
\<close>

lemma valid_below:
  assumes d: "dom_ok d" and p: "chan d p = None" and q: "p \<le> q"
  shows "chan d q = None"
proof (rule ccontr)
  assume "chan d q \<noteq> None"
  then obtain c where c: "chan d q = Some c" by blast
  let ?a = "p div EVTCHNS_PER_BUCKET" and ?b = "q div EVTCHNS_PER_BUCKET"
  obtain cs where "q < MAX_EVTCHNS d" "?b < NR_EVTCHN_BUCKETS" "evtchn d ! ?b = Bucket cs"
    by (rule port_validE [OF d chan_valid [OF c]]) blast
  then have b: "?b < NR_EVTCHN_BUCKETS" "evtchn d ! ?b \<noteq> Null_bucket" "q < MAX_EVTCHNS d" by simp_all
  have "?a \<le> ?b" using q by (rule div_le_mono)
  then have "evtchn d ! ?a \<noteq> Null_bucket"
    using buckets_okD(3) [OF dom_okD(1) [OF d], of ?a ?b] b by (cases "?a = ?b") auto
  then have "port_is_valid d (int p)" using q b(3) by (simp add: port_is_valid_def bucket_from_port_def)
  then show False using valid_chan [OF d] p by blast
qed

lemma close_all_dying:
  assumes E: "tame E" and w: "evtchn_inv w" "w i = Some d" "is_dying d \<noteq> DOMDYING_alive"
    and n: "port + n = MAX_EVTCHNS d" and below: "\<forall>q < port. closed d q"
  obtains w' d' where "close_all E True w i port n = Some w'" "good w w'" "w' i = Some d'"
    "is_dying d' \<noteq> DOMDYING_alive" "\<forall>q. closed d' q"
  using w n below
proof (induction n arbitrary: w d port thesis)
  case 0
  have "closed d q" for q using 0 chan_less [of d q] by (cases "q < port") (auto simp: closed_def)
  then show ?case using 0 good_refl by auto
next
  case (Suc n)
  let ?w0 = "unlocked E (2 * port) w"
  note g0 = tameD [OF E Suc.prems(2), of "2 * port"]
  note w0 = goodD(1) [OF g0]
  obtain d0 where d0: "?w0 i = Some d0" "is_dying d0 \<noteq> DOMDYING_alive" "\<And>p. settled d d0 p"
    using steadyE [OF goodD(2) [OF g0] Suc.prems(3)] Suc.prems(4) by metis
  have below0: "\<forall>q < port. closed d0 q" using Suc.prems(6) d0(3) settled_closed by blast
  have m0: "MAX_EVTCHNS d0 = MAX_EVTCHNS d" using steady_MAX [OF goodD(2) [OF g0] Suc.prems(3) d0(1)] .
  show ?case
  proof (cases "chan d0 port")
    case None
    then have nv: "\<not> port_is_valid d0 (int port)" using valid_chan [OF evtchn_invD(1) [OF w0 d0(1)]] by blast
    have "closed d0 q" for q
      using below0 valid_below [OF evtchn_invD(1) [OF w0 d0(1)] None, of q]
      by (cases "q < port") (auto simp: closed_def)
    then show ?thesis using Suc.prems(1) [of ?w0 d0] nv d0 g0 by (simp add: Let_def)
  next
    case (Some c)
    obtain d1 where d1: "modify_evtchn ?w0 i port (\<lambda>c. c\<lparr>consumer_is_xen := False\<rparr>) = Some (?w0(i \<mapsto> d1))"
      "good ?w0 (?w0(i \<mapsto> d1))" "chan d1 = (chan d0)(port \<mapsto> c\<lparr>consumer_is_xen := False\<rparr>)"
      "is_dying d1 = is_dying d0" "MAX_EVTCHNS d1 = MAX_EVTCHNS d0"
      by (rule good_detach [OF w0 d0(1) Some]) blast
    let ?w1 = "?w0(i \<mapsto> d1)"
    have w1: "evtchn_inv ?w1" "?w1 i = Some d1" "is_dying d1 \<noteq> DOMDYING_alive"
      using goodD(1) [OF d1(2)] d1(4) d0(2) by auto
    have c1: "chan d1 port = Some (c\<lparr>consumer_is_xen := False\<rparr>)" using d1(3) by simp
    obtain w2 rc d2 where w2: "evtchn_close_itf E (unlocked E (2 * port + 1)) ?w1 i (int port) = Some (w2, rc)"
      "good ?w1 w2" "w2 i = Some d2" "is_dying d2 \<noteq> DOMDYING_alive" "closed d2 port"
      by (rule close_itf_dying [of ?w1 i d1 "unlocked E (2 * port + 1)" port "c\<lparr>consumer_is_xen := False\<rparr>" E,
            OF w1 tameD [OF E] c1]) simp_all
    have g2: "good w w2" using good_trans [OF g0 good_trans [OF d1(2) w2(2)]] .
    have st: "settled d1 d2 q" for q
      using steadyE [OF goodD(2) [OF w2(2)] w1(2)] w1(3) w2(3) by (metis option.inject)
    have below1: "closed d1 q" if "q < port" for q using below0 that d1(3) by (simp add: closed_def)
    have below2: "\<forall>q < Suc port. closed d2 q"
      using below1 settled_closed [OF st] w2(5) by (auto simp: less_Suc_eq)
    have m2: "MAX_EVTCHNS d2 = MAX_EVTCHNS d" using steady_MAX [OF goodD(2) [OF g2] Suc.prems(3) w2(3)] .
    obtain w' d' where r: "close_all E True w2 i (Suc port) n = Some w'" "good w2 w'" "w' i = Some d'"
      "is_dying d' \<noteq> DOMDYING_alive" "\<forall>q. closed d' q"
      by (rule Suc.IH [where w = w2 and d = d2 and port = "Suc port"])
        (use goodD(1) [OF g2] w2 m2 Suc.prems(5) below2 in auto)
    show ?thesis
      by (rule Suc.prems(1) [of w' d']) (use r d0 d1(1) w2(1) chan_valid [OF Some] good_trans [OF g2] in \<open>auto simp: Let_def\<close>)
  qed
qed

section \<open>Destruction and creation\<close>

text \<open>All buckets of a domain whose ports are closed are released.\<close>

lemma good_release:
  assumes w: "evtchn_inv w" "w i = Some d" and dy: "is_dying d \<noteq> DOMDYING_alive" and cl: "\<forall>q. closed d q"
    and d': "d' = d\<lparr>evtchn := replicate NR_EVTCHN_BUCKETS Null_bucket\<rparr>"
  shows "good w (w(i \<mapsto> d'))" "chan d' = (\<lambda>_. None)" "virq_port d' = Map.empty" "pirq_port d' = Map.empty"
proof -
  have ch: "chan d' = (\<lambda>_. None)"
  proof
    fix q
    have "\<not> port_is_valid d' (int q)"
    proof
      assume "port_is_valid d' (int q)"
      then have "q < MAX_EVTCHNS d'" "evtchn d' ! (q div EVTCHNS_PER_BUCKET) \<noteq> Null_bucket"
        by (simp_all add: port_is_valid_def bucket_from_port_def)
      then show False using port_bucket_less [of q d'] d' by simp
    qed
    then show "chan d' q = None" by (simp add: chan_def)
  qed
  show "chan d' = (\<lambda>_. None)" by (rule ch)
  have un: "\<not> linked (state c)" if "chan d p = Some c" for p c
  proof -
    have "state c = ECS_FREE \<or> state c = ECS_RESERVED" using cl that unfolding closed_def by blast
    then show ?thesis by auto
  qed
  have vp: "virq_port d' = virq_port d" "pirq_port d' = pirq_port d"
    by (auto simp: d' virq_port_def pirq_port_def vcpu_at_def fun_eq_iff)
  show "virq_port d' = Map.empty" "pirq_port d' = Map.empty"
    using tab_ok_closed [OF evtchn_invD(3) [OF w]] un vp by simp_all
  have t: "tab d' = (tab d)\<lparr>chans := Map.empty\<rparr>"
    using ch vp by (simp add: tab_def d' vcpu_at_def)
  have "arrays_ok d'" using dom_okD(2) [OF evtchn_invD(1) [OF w]] pirq_port_cong [of d' d] by (simp add: d' arrays_ok_def vcpu_at_def)
  then have "dom_ok d'" using dy by (simp add: dom_ok_def buckets_ok_def d')
  moreover have "links_ok ((links_of w)(i \<mapsto> tab d'))"
    by (rule links_ok_release [OF _ _ _ t]) (use evtchn_invD(2) [OF w(1)] w(2) un in auto)
  ultimately have "evtchn_inv (w(i \<mapsto> d'))" by (rule evtchn_inv_upd [OF w(1)])
  moreover have "steady w (w(i \<mapsto> d'))"
    by (rule steady_upd [of w i d]) (use w(2) ch in \<open>auto simp: d' settled_def closed_def\<close>)
  ultimately show "good w (w(i \<mapsto> d'))" by (simp add: good_def)
qed

lemma evtchn_destroy_spec:
  assumes E: "tame E" and w: "evtchn_inv w" "w i = Some d" "is_dying d \<noteq> DOMDYING_alive"
  obtains w' d' where "evtchn_destroy E w i = Some w'" "good w w'" "w' i = Some d'"
    "chan d' = (\<lambda>_. None)" "virq_port d' = Map.empty" "pirq_port d' = Map.empty" "is_dying d' \<noteq> DOMDYING_alive"
proof -
  obtain w1 d1 where c: "close_all E True w i 0 (MAX_EVTCHNS d) = Some w1" "good w w1" "w1 i = Some d1"
    "is_dying d1 \<noteq> DOMDYING_alive" "\<forall>q. closed d1 q"
    by (rule close_all_dying [OF E w, of 0 "MAX_EVTCHNS d"]) auto
  let ?d = "d1\<lparr>evtchn := replicate NR_EVTCHN_BUCKETS Null_bucket\<rparr>"
  note r = good_release [OF goodD(1) [OF c(2)] c(3-5) refl]
  have "evtchn_destroy E w i = Some (w1(i \<mapsto> ?d))"
    using w(2,3) c(1,3) by (simp add: evtchn_destroy_def)
  then show thesis using that [of "w1(i \<mapsto> ?d)" ?d] good_trans [OF c(2) r(1)] r c(4) by simp
qed

lemma free_xen_good:
  assumes E: "tame E" and w: "evtchn_inv w" "w i = Some d" and c: "chan d n = Some c" "consumer_is_xen c"
  shows "\<exists>w'. free_xen_event_channel E w i (int n) = Some w' \<and> good w w'"
proof (cases "is_dying d = DOMDYING_alive")
  case False
  then show ?thesis using w good_refl by (simp add: free_xen_event_channel_def)
next
  case True
  obtain d1 where d1: "modify_evtchn w i n (\<lambda>c. c\<lparr>consumer_is_xen := False\<rparr>) = Some (w(i \<mapsto> d1))" "good w (w(i \<mapsto> d1))"
    by (rule good_detach [OF w c(1)]) blast
  let ?w = "unlocked E 0 (w(i \<mapsto> d1))"
  have g: "good w ?w" using good_trans [OF d1(2) tameD [OF E goodD(1) [OF d1(2)]]] .
  obtain d2 where d2: "?w i = Some d2" using steadyE [OF goodD(2) [OF g] w(2)] by blast
  obtain w' rc where "evtchn_close_itf E (unlocked E 1) ?w i (int n) = Some (w', rc)" "good ?w w'"
    using close_itf_good [of ?w i d2 "unlocked E 1" E "int n"] goodD(1) [OF g] d2 tameD [OF E] by blast
  then show ?thesis
    using True w(2) chan_valid [OF c(1)] chan_from_port [OF c(1)] c(2) d1(1) good_trans [OF g]
    by (simp add: free_xen_event_channel_def)
qed

section \<open>The hypercall\<close>

lemma do_event_channel_op_good:
  assumes E: "tame E" "labels_ok E" and w: "evtchn_inv w" "w cur = Some x"
  shows "\<exists>w' rc out. do_event_channel_op E w cur cmd = Some (w', rc, out) \<and> good w w'"
proof (cases "cmd = EVTCHNOP_unknown \<or> \<not> copy_from_guest_ok E")
  case True
  then show ?thesis using good_refl [OF w(1)] by (auto simp: do_event_channel_op_def)
next
  case False
  then have ok: "copy_from_guest_ok E" "cmd \<noteq> EVTCHNOP_unknown" by auto
  have close: "\<exists>w' rc. evtchn_close E w cur p = Some (w', rc) \<and> good w w'" for p
    unfolding evtchn_close_def
    by (rule close_itf_good [of w cur x "unlocked E 0" E "sint p", OF w tameD [OF E(1)]])
  have inter: "\<exists>w' r. evtchn_bind_interdomain E w cur rdm rp = Some (w', r) \<and> good w w'" for rdm rp
    by (rule evtchn_bind_interdomain_cases [OF w E(2), of rdm rp]) blast+
  have fin: "\<exists>w' rc out. (w0, copy_back E r f) = (w', rc, out) \<and> good w w'" if "good w w0"
    for w0 and r :: "int + 'a" and f
    using that by (cases "copy_back E r f") auto
  show ?thesis
  proof (cases cmd)
    case (EVTCHNOP_alloc_unbound dm rdm)
    then show ?thesis using ok evtchn_alloc_unbound_good [OF w E(2), of "unat dm" "unat rdm"] fin
      by (auto simp: do_event_channel_op_def)
  next
    case (EVTCHNOP_bind_interdomain rdm rp)
    then show ?thesis using ok inter [of "unat rdm" rp] fin by (auto simp: do_event_channel_op_def)
  next
    case (EVTCHNOP_bind_virq v k)
    then show ?thesis using ok evtchn_bind_virq_good [OF w E(2), of v k] fin
      by (auto simp: do_event_channel_op_def)
  next
    case (EVTCHNOP_bind_ipi k)
    then show ?thesis using ok evtchn_bind_ipi_good [OF w E(2), of k] fin
      by (auto simp: do_event_channel_op_def)
  next
    case (EVTCHNOP_bind_pirq q s)
    then show ?thesis using ok evtchn_bind_pirq_good [OF w E(2), of q s] fin
      by (auto simp: do_event_channel_op_def)
  next
    case (EVTCHNOP_close p)
    then show ?thesis using ok close [of p] by (auto simp: do_event_channel_op_def)
  next
    case (EVTCHNOP_send p)
    then show ?thesis using ok evtchn_send_good [OF w, of E "unat p"] by (auto simp: do_event_channel_op_def)
  next
    case (EVTCHNOP_status dm p)
    then show ?thesis using ok evtchn_status_total [OF w, of E "unat dm" p] fin [OF good_refl [OF w(1)]]
      by (auto simp: do_event_channel_op_def)
  next
    case (EVTCHNOP_bind_vcpu p k)
    then show ?thesis using ok evtchn_bind_vcpu_good [OF w, of "unat p" "unat k"]
      by (auto simp: do_event_channel_op_def)
  next
    case (EVTCHNOP_unmask p)
    then show ?thesis using ok evtchn_unmask_good [OF w, of E "unat p"] by (auto simp: do_event_channel_op_def)
  next
    case (EVTCHNOP_reset dm)
    then show ?thesis using ok evtchn_reset_good [OF E(1) w, of "unat dm"]
      by (auto simp: do_event_channel_op_def)
  qed (use ok in simp)
qed

end
