(* ===== verification/Event_Channel_Steps.thy ===== *)
theory Event_Channel_Steps
  imports Event_Channel_Props
begin

text \<open>
  The event-channel subsystem as a transition system: hypercalls, interrupts, the channels of
  the hypervisor, the guest's writes to the pages it shares, the life of a domain.  The
  properties of the component follow, each with a witness on a small concrete state.
\<close>

section \<open>New domains\<close>

text \<open>
  The event-channel part of a domain as \<^verbatim>\<open>domain_create\<close> has it when it calls
  \<^verbatim>\<open>evtchn_init\<close>, and of a VCPU as \<^verbatim>\<open>alloc_vcpu\<close> makes it.
\<close>

definition fresh_domain :: "domain \<Rightarrow> bool" where
  "fresh_domain d \<longleftrightarrow>
     evtchn d = replicate NR_EVTCHN_BUCKETS Null_bucket \<and> is_dying d = DOMDYING_alive \<and>
     pirq_to_evtchn d = replicate (nr_pirqs d) 0 \<and> pirq_bound d = {} \<and> nr_pirqs d \<le> 65536 \<and>
     rangeset_wf (irq_caps d)"

definition fresh_vcpus :: "vcpu option list \<Rightarrow> bool" where
  "fresh_vcpus vs \<longleftrightarrow>
     vs \<noteq> [] \<and> vs ! 0 \<noteq> None \<and> length vs \<le> MAX_VIRT_CPUS \<and>
     (\<forall>v. Some v \<in> set vs \<longrightarrow> virq_to_evtchn v = replicate NR_VIRQS 0)"

definition initial_chans :: "evtchn list" where
  "initial_chans = (replicate EVTCHNS_PER_BUCKET zero_evtchn)[0 := zero_evtchn\<lparr>state := ECS_RESERVED\<rparr>]"

text \<open>A domain that has only its first bucket.\<close>

lemma first_bucket:
  assumes ev: "evtchn d = Bucket cs # replicate 31 Null_bucket" and cs: "length cs = EVTCHNS_PER_BUCKET"
  shows "chan d p = (if p < 128 then Some (cs ! p) else None)" "buckets_ok (MAX_EVTCHNS d) (evtchn d)"
proof -
  have m: "128 < MAX_EVTCHNS d" "MAX_EVTCHNS d \<le> 4096" using MAX_EVTCHNS_cases [of d] by auto
  have nth: "evtchn d ! b = (if b = 0 then Bucket cs else Null_bucket)" if "b < 32" for b
    using that by (cases b) (simp_all add: ev)
  have valid: "port_is_valid d (int p) \<longleftrightarrow> p < 128"
  proof (cases "p < 128")
    case True
    then show ?thesis using m nth [of 0] by (simp add: port_is_valid_def bucket_from_port_def EVTCHNS_PER_BUCKET_def)
  next
    case False
    then have "p div 128 \<noteq> 0" by simp
    moreover have "p div 128 < 32" if "p < MAX_EVTCHNS d" using that m(2) by simp
    ultimately show ?thesis
      using False nth [of "p div 128"] by (auto simp: port_is_valid_def bucket_from_port_def EVTCHNS_PER_BUCKET_def)
  qed
  show "chan d p = (if p < 128 then Some (cs ! p) else None)"
    using valid cs by (simp add: chan_def evtchn_from_port_def ev EVTCHNS_PER_BUCKET_def)
  have "bucket_ok (MAX_EVTCHNS d) b (evtchn d ! b)" if "b < NR_EVTCHN_BUCKETS" for b
    using that nth [of b] cs m by (simp add: NR_EVTCHN_BUCKETS_def)
  moreover have "evtchn d ! a \<noteq> Null_bucket" if "a < b" "b < NR_EVTCHN_BUCKETS" "evtchn d ! b \<noteq> Null_bucket" for a b
    using that nth [of b] by (simp add: NR_EVTCHN_BUCKETS_def)
  moreover have "length (evtchn d) = NR_EVTCHN_BUCKETS" by (simp add: ev NR_EVTCHN_BUCKETS_def)
  ultimately show "buckets_ok (MAX_EVTCHNS d) (evtchn d)" unfolding buckets_ok_def by blast
qed

lemma evtchn_init_eq:
  assumes d: "fresh_domain d" and E: "labels_ok E" "xmalloc_ok E"
  shows "evtchn_init E True d = Some (d\<lparr>evtchn := Bucket initial_chans # replicate 31 Null_bucket, poll_mask := {}\<rparr>, 0)"
proof -
  have ev: "evtchn d = Null_bucket # replicate 31 Null_bucket"
    using d replicate_Suc [of 31 Null_bucket] by (simp add: fresh_domain_def NR_EVTCHN_BUCKETS_def)
  have al: "is_dying d = DOMDYING_alive" using d by (simp add: fresh_domain_def)
  have lbl: "\<not> list_ex (xsm_alloc_security_evtchn E) [0..<EVTCHNS_PER_BUCKET]"
    using E(1) by (auto simp: labels_ok_def list_all_iff list_ex_iff)
  obtain m where m: "MAX_EVTCHNS d = Suc m" using MAX_EVTCHNS_cases [of d] by (cases "MAX_EVTCHNS d") auto
  have loop: "free_port_loop d 0 (MAX_EVTCHNS d) = Some (Inr 0)"
    unfolding m by (simp add: port_is_valid_def bucket_from_port_def ev)
  have pos: "MAX_EVTCHNS d \<noteq> 0" using m by simp
  let ?d = "d\<lparr>evtchn := Bucket (replicate EVTCHNS_PER_BUCKET zero_evtchn) # replicate 31 Null_bucket\<rparr>"
  have g: "get_free_port E d = Some (?d, 0)"
    using al E(2) lbl loop ev pos by (simp add: get_free_port_def array_set_def)
  have c: "evtchn_from_port ?d 0 = Some zero_evtchn"
    by (simp add: evtchn_from_port_def EVTCHNS_PER_BUCKET_def)
  have s: "set_evtchn ?d 0 (zero_evtchn\<lparr>state := ECS_RESERVED\<rparr>) = d\<lparr>evtchn := Bucket initial_chans # replicate 31 Null_bucket\<rparr>"
    by (simp add: set_evtchn_def bucket_from_port_def initial_chans_def)
  show ?thesis unfolding evtchn_init_def by (simp add: g c s Let_def)
qed

lemma create_inv:
  assumes w: "evtchn_inv w" "w i = None" and d: "fresh_domain d" and vs: "fresh_vcpus vs"
    and d': "d' = d\<lparr>evtchn := Bucket initial_chans # replicate 31 Null_bucket, poll_mask := {}\<rparr>\<lparr>vcpu := vs\<rparr>"
  shows "evtchn_inv (w(i \<mapsto> d'))"
proof -
  have cs: "length initial_chans = EVTCHNS_PER_BUCKET" by (simp add: initial_chans_def)
  have ev: "evtchn d' = Bucket initial_chans # replicate 31 Null_bucket" by (simp add: d')
  have ch: "chan d' p = (if p < 128 then Some (initial_chans ! p) else None)" for p
    using first_bucket(1) [OF ev cs] .
  have st: "initial_chans ! p = (if p = 0 then zero_evtchn\<lparr>state := ECS_RESERVED\<rparr> else zero_evtchn)" if "p < 128" for p
    using that by (simp add: initial_chans_def EVTCHNS_PER_BUCKET_def)
  have at: "vcpu_at d' k = Some v \<Longrightarrow> virq_to_evtchn v = replicate NR_VIRQS 0" for k v
    using vs by (auto simp: fresh_vcpus_def d' vcpu_at_Some in_set_conv_nth)
  have v0: "vcpu_at d' 0 \<noteq> None" using vs by (auto simp: fresh_vcpus_def d' vcpu_at_def array_get_def)
  have vp: "virq_port d' = Map.empty"
  proof
    fix kv show "virq_port d' kv = None"
      using at [of "fst kv"] by (cases "vcpu_at d' (fst kv)") (auto simp: virq_port_def array_get_def)
  qed
  have pp: "pirq_port d' = Map.empty"
    using d by (auto simp: pirq_port_def array_get_def d' fresh_domain_def fun_eq_iff)
  have "arrays_ok d'"
    using d vs pp by (auto simp: arrays_ok_def d' fresh_domain_def fresh_vcpus_def)
  then have ok: "dom_ok d'" using first_bucket(2) [OF ev cs] by (simp add: dom_ok_def ev)
  have "tab_ok (tab d')"
    using v0 by (auto simp: tab_ok_def chan_ok_def vp pp ch st zero_evtchn_def split: if_splits)
  moreover have "peers_ok (chan_state ((links_of w)(i \<mapsto> tab d')))"
  proof -
    have "peer_of (chan_state ((links_of w)(i \<mapsto> tab d')) a) = peer_of (chan_state (links_of w) a)" for a
      using w(2) by (cases a) (auto simp: chan_state_def links_of_def ch st zero_evtchn_def)
    then show ?thesis using evtchn_invD(2) [OF w(1)] by (simp add: links_ok_def peers_ok_def comp_def)
  qed
  ultimately show ?thesis
    by (rule evtchn_inv_upd [OF w(1) ok links_ok_upd [OF evtchn_invD(2) [OF w(1)]]])
qed

section \<open>Polling\<close>

lemma good_poll_mask:
  assumes w: "evtchn_inv w" "w i = Some d" and k: "vcpu_at d k \<noteq> None"
  shows "good w (w(i \<mapsto> d\<lparr>poll_mask := insert k (poll_mask d)\<rparr>))"
proof -
  let ?d = "d\<lparr>poll_mask := insert k (poll_mask d)\<rparr>"
  have at: "vcpu_at ?d = vcpu_at d" by (simp add: vcpu_at_def fun_eq_iff)
  have m: "MAX_EVTCHNS ?d = MAX_EVTCHNS d" by (rule MAX_EVTCHNS_cong) simp
  have ch: "chan ?d = chan d"
    by (simp add: chan_def port_is_valid_def bucket_from_port_def evtchn_from_port_def m fun_eq_iff)
  have t: "tab ?d = tab d"
    by (simp add: tab_def ch at virq_port_def pirq_port_def fun_eq_iff)
  have "dom_ok ?d"
    using evtchn_invD(1) [OF w] k at m t unfolding dom_ok_def arrays_ok_def tab_def by auto
  then have "evtchn_inv (w(i \<mapsto> ?d))"
    by (rule evtchn_inv_upd [OF w(1)]) (use t w(2) evtchn_invD(2) [OF w(1)] in \<open>simp add: fun_upd_idem\<close>)
  moreover have "steady w (w(i \<mapsto> ?d))"
    by (rule steady_upd [of w i d, OF w(2)]) (use settled_same [of ?d _ d] ch in auto)
  ultimately show ?thesis by (simp add: good_def)
qed

lemma poll_loop_None:
  "poll_loop d ps = None \<Longrightarrow>
     \<forall>x \<in> set ps. \<exists>port. x = Some port \<and> unat port < MAX_EVTCHNS d \<and> unat port \<notin> evtchn_pending d"
  by (induction d ps rule: poll_loop.induct) (auto split: if_splits)

lemma sint_small_nat:
  fixes x :: u32
  assumes "unat x < 2 ^ 31"
  shows "sint x = int (unat x)"
proof -
  have "int (unat x) < int (2 ^ 31)" using assms by (simp only: of_nat_less_iff)
  then have "uint x < 2 ^ 31" by simp
  then have "signed_take_bit 31 (uint x) = uint x" using uint_ge_0 [of x] by (intro signed_take_bit_int_eq_self) linarith+
  then show ?thesis by (simp add: sint_uint)
qed

text \<open>Every way out of \<^verbatim>\<open>do_poll\<close>.\<close>

lemma do_poll_cases:
  assumes v: "vcpu_at d k = Some v"
  obtains (same) rc where "do_poll h e ports d k = Some (d, rc)" "rc = - EINVAL \<or> rc = - EFAULT"
  | (out) rc v' where "do_poll h e ports d k =
        Some (set_vcpu (d\<lparr>poll_mask := insert k (poll_mask d) - {k}\<rparr>) k v', rc)"
      "virq_to_evtchn v' = virq_to_evtchn v" "poll_evtchn v' = 0" "VPF_blocked \<notin> pause_flags v'"
  | (poll) v' where "do_poll h e ports d k = Some (set_vcpu (d\<lparr>poll_mask := insert k (poll_mask d)\<rparr>) k v', 0)"
      "virq_to_evtchn v' = virq_to_evtchn v" "VPF_blocked \<in> pause_flags v'"
      "\<forall>x \<in> set ports. \<exists>port. x = Some port \<and> unat port < MAX_EVTCHNS d \<and> unat port \<notin> evtchn_pending d \<and>
         (poll_evtchn v' \<le> 0 \<or> poll_evtchn v' = int (unat port))"
      "\<not> local_events_need_delivery e d v'"
proof -
  let ?v1 = "v\<lparr>pause_flags := insert VPF_blocked (pause_flags v), poll_evtchn := - 1\<rparr>"
  let ?d1 = "set_vcpu (d\<lparr>poll_mask := insert k (poll_mask d)\<rparr>) k ?v1"
  let ?u = "?v1\<lparr>poll_evtchn := 0, pause_flags := pause_flags ?v1 - {VPF_blocked}\<rparr>"
  have o: "set_vcpu ((set_vcpu (d\<lparr>poll_mask := m\<rparr>) k a)\<lparr>poll_mask := m'\<rparr>) k u = set_vcpu (d\<lparr>poll_mask := m'\<rparr>) k u"
    for m m' a u
    by (simp add: set_vcpu_def)
  have m: "MAX_EVTCHNS ?d1 = MAX_EVTCHNS d" by (rule MAX_EVTCHNS_cong) simp
  have l: "local_events_need_delivery e ?d1 u = local_events_need_delivery e d u" for u
    by (simp add: local_events_need_delivery_def set_vcpu_def)
  have loop: "\<forall>x \<in> set ps. \<exists>port. x = Some port \<and> unat port < MAX_EVTCHNS d \<and> unat port \<notin> evtchn_pending d"
    if "poll_loop ?d1 ps = None" for ps
    using poll_loop_None [OF that] m by (simp add: set_vcpu_def)
  consider "length ports > 128 \<or> \<not> h" | "length ports \<le> 128" "h" "local_events_need_delivery e d ?v1"
    | rc where "length ports \<le> 128" "h" "\<not> local_events_need_delivery e d ?v1" "poll_loop ?d1 ports = Some rc"
    | "length ports \<le> 128" "h" "\<not> local_events_need_delivery e d ?v1" "poll_loop ?d1 ports = None"
    by fastforce
  then show thesis
  proof cases
    case 1
    then show thesis by (intro same [of "if length ports > 128 then - EINVAL else - EFAULT"]) (auto simp: do_poll_def)
  next
    case 2
    then show thesis by (intro out [of ?u 0]) (simp_all add: do_poll_def v Let_def l o)
  next
    case (3 rc)
    then show thesis by (intro out [of ?u rc]) (simp_all add: do_poll_def v Let_def l o)
  next
    case 4
    note ps = loop [OF 4(4)]
    show thesis
    proof (cases "\<exists>port. ports = [Some port]")
      case True
      then obtain port where port: "ports = [Some port]" by blast
      have "unat port < 4096" using ps port MAX_EVTCHNS_le [of d] by auto
      then have "sint port = int (unat port)" by (simp add: sint_small_nat)
      then show thesis
        using 4 ps port by (intro poll [of "?v1\<lparr>poll_evtchn := sint port\<rparr>"])
          (auto simp: do_poll_def v Let_def l set_vcpu_def local_events_need_delivery_def)
    next
      case False
      then have "(case ports of [Some port] \<Rightarrow> Some (set_vcpu ?d1 k (?v1\<lparr>poll_evtchn := sint port\<rparr>), 0)
                   | _ \<Rightarrow> Some (?d1, 0)) = Some (?d1, 0 :: int)"
        by (auto split: list.splits option.splits)
      then show thesis
        using 4 ps by (intro poll [of ?v1]) (auto simp: do_poll_def v Let_def l)
    qed
  qed
qed

lemma do_poll_good:
  assumes w: "evtchn_inv w" "w i = Some d" and k: "vcpu_at d k = Some v" and r: "do_poll h e ports d k = Some (d', rc)"
  shows "good w (w(i \<mapsto> d'))"
proof -
  let ?d = "d\<lparr>poll_mask := insert k (poll_mask d)\<rparr>"
  have g: "good w (w(i \<mapsto> ?d))" using good_poll_mask [OF w] k by simp
  have step: "good w (w(i \<mapsto> set_vcpu (?d\<lparr>poll_mask := pm\<rparr>) k v'))"
    if "virq_to_evtchn v' = virq_to_evtchn v" "pm \<subseteq> poll_mask ?d" for v' pm
  proof -
    have "sched_frame ?d (set_vcpu (?d\<lparr>poll_mask := pm\<rparr>) k v')"
      by (rule sched_frame_trans [OF sched_frame_poll [OF that(2)] sched_frame_set_vcpu])
        (use k that(1) in \<open>simp_all add: vcpu_at_def\<close>)
    then show ?thesis
      using good_trans [OF g good_sched_frame [of _ i ?d, OF goodD(1) [OF g]]] by simp
  qed
  show ?thesis
  proof (cases rule: do_poll_cases [of d k v h e ports, OF k])
    case (1 rc)
    then show ?thesis using r w good_refl [OF w(1)] by (simp add: fun_upd_idem)
  next
    case (2 rc v')
    then show ?thesis using r step [of v' "insert k (poll_mask d) - {k}"] by auto
  next
    case (3 v')
    then show ?thesis using r step [of v' "insert k (poll_mask d)"] by simp
  qed
qed

section \<open>The transition system\<close>

text \<open>
  The entry points of the component.  \<open>call_ok\<close> is what a caller has to know: the domain it
  names exists, an interrupt it raises is of the right kind and bound, a channel it uses on
  behalf of the hypervisor is one.  A hypercall has no precondition on its arguments.
\<close>

datatype call =
    Hypercall domid evtchn_op
  | Vcpu_virq domid nat nat
  | Global_virq domid nat
  | Guest_pirq domid nat
  | Xen_alloc domid nat domid
  | Xen_free domid nat
  | Xen_notify domid nat
  | Block domid nat bool
  | Poll domid nat bool bool "u32 option list"
  | Poll_timeout domid nat
  | Destroy domid

fun run_call :: "env \<Rightarrow> hyp \<Rightarrow> call \<Rightarrow> hyp option" where
  "run_call E w (Hypercall cur op) = map_option fst (do_event_channel_op E w cur op)"
| "run_call E w (Vcpu_virq i k v) = send_guest_vcpu_virq E w i k v"
| "run_call E w (Global_virq i v) = send_guest_global_virq E w (Some i) v"
| "run_call E w (Guest_pirq i q) = map_option fst (send_guest_pirq E w i q)"
| "run_call E w (Xen_alloc i k r) = map_option fst (alloc_unbound_xen_event_channel E w i k r)"
| "run_call E w (Xen_free i p) = free_xen_event_channel E w i (int p)"
| "run_call E w (Xen_notify i p) = notify_via_xen_event_channel E w i (int p)"
| "run_call E w (Block i k e) = do { d \<leftarrow> w i; d' \<leftarrow> do_block e d k; Some (w(i \<mapsto> d')) }"
| "run_call E w (Poll i k h e ps) = do { d \<leftarrow> w i; (d', _) \<leftarrow> do_poll h e ps d k; Some (w(i \<mapsto> d')) }"
| "run_call E w (Poll_timeout i k) = do { d \<leftarrow> w i; d' \<leftarrow> poll_timer_fn d k; Some (w(i \<mapsto> d')) }"
| "run_call E w (Destroy i) = evtchn_destroy E w i"

definition xen_channel :: "hyp \<Rightarrow> domid \<Rightarrow> nat \<Rightarrow> bool" where
  "xen_channel w i p \<longleftrightarrow> (case w i of None \<Rightarrow> False
     | Some d \<Rightarrow> (case chan d p of None \<Rightarrow> False | Some c \<Rightarrow> consumer_is_xen c))"

definition has_vcpu :: "hyp \<Rightarrow> domid \<Rightarrow> nat \<Rightarrow> bool" where
  "has_vcpu w i k \<longleftrightarrow> (case w i of None \<Rightarrow> False | Some d \<Rightarrow> vcpu_at d k \<noteq> None)"

fun call_ok :: "hyp \<Rightarrow> call \<Rightarrow> bool" where
  "call_ok w (Hypercall cur op) = (w cur \<noteq> None)"
| "call_ok w (Vcpu_virq i k v) = (has_vcpu w i k \<and> v < NR_VIRQS \<and> \<not> global_virq v)"
| "call_ok w (Global_virq i v) = (w i \<noteq> None \<and> v < NR_VIRQS \<and> global_virq v)"
| "call_ok w (Guest_pirq i q) = (case w i of None \<Rightarrow> False | Some d \<Rightarrow> q \<in> pirq_bound d)"
| "call_ok w (Xen_alloc i k r) = has_vcpu w i k"
| "call_ok w (Xen_free i p) = xen_channel w i p"
| "call_ok w (Xen_notify i p) = xen_channel w i p"
| "call_ok w (Block i k e) = has_vcpu w i k"
| "call_ok w (Poll i k h e ps) = has_vcpu w i k"
| "call_ok w (Poll_timeout i k) = has_vcpu w i k"
| "call_ok w (Destroy i) = (case w i of None \<Rightarrow> False | Some d \<Rightarrow> is_dying d \<noteq> DOMDYING_alive)"

text \<open>
  The steps of the whole system.  Beside the calls: the guest writes the event words of the
  pages it shares with the hypervisor, a domain is created, starts to die, and is removed after
  its destruction.  \<open>Es\<close> is the set of environments the calls can meet.  A domain gets its VCPUs,
  VCPU 0 among them, in the same step as its first channels; the code creates them later, by
  hypercalls of the domain builder.
\<close>

inductive evtchn_step :: "env set \<Rightarrow> hyp \<Rightarrow> hyp \<Rightarrow> bool" for Es where
  call: "E \<in> Es \<Longrightarrow> call_ok w c \<Longrightarrow> run_call E w c = Some w' \<Longrightarrow> evtchn_step Es w w'"
| guest_bits: "w i = Some d \<Longrightarrow>
    evtchn_step Es w (w(i \<mapsto> d\<lparr>evtchn_pending := pn, evtchn_mask := mk\<rparr>))"
| guest_vcpu: "w i = Some d \<Longrightarrow> vcpu_at d k = Some v \<Longrightarrow>
    evtchn_step Es w (w(i \<mapsto> set_vcpu d k
      (v\<lparr>evtchn_upcall_pending := up, evtchn_upcall_mask := um, evtchn_pending_sel := sel\<rparr>)))"
| create: "w i = None \<Longrightarrow> E \<in> Es \<Longrightarrow> xmalloc_ok E \<Longrightarrow> fresh_domain d \<Longrightarrow>
    evtchn_init E True d = Some (d', 0) \<Longrightarrow> fresh_vcpus vs \<Longrightarrow> evtchn_step Es w (w(i \<mapsto> d'\<lparr>vcpu := vs\<rparr>))"
| kill: "w i = Some d \<Longrightarrow> s \<noteq> DOMDYING_alive \<Longrightarrow> evtchn_step Es w (w(i \<mapsto> d\<lparr>is_dying := s\<rparr>))"
| remove: "w i = Some d \<Longrightarrow> chan d = Map.empty \<Longrightarrow> evtchn_step Es w (w(i := None))"

lemma run_call_good:
  assumes E: "tame E" "labels_ok E" and w: "evtchn_inv w" and c: "call_ok w c"
  shows "\<exists>w'. run_call E w c = Some w' \<and> good w w'"
proof (cases c)
  case (Hypercall cur op)
  then obtain x where "w cur = Some x" using c by auto
  then show ?thesis using do_event_channel_op_good [OF E w, of cur x op] Hypercall by auto
next
  case (Vcpu_virq i k v)
  then obtain d where d: "w i = Some d" using c by (auto simp: has_vcpu_def split: option.splits)
  show ?thesis using send_guest_vcpu_virq_good [OF w d, of k v E] c d Vcpu_virq by (simp add: has_vcpu_def)
next
  case (Global_virq i v)
  then obtain d where "w i = Some d" using c by auto
  then show ?thesis using send_guest_global_virq_good [OF w, of i d v E] c Global_virq by simp
next
  case (Guest_pirq i q)
  then obtain d where i: "w i = Some d" "q \<in> pirq_bound d" using c by (auto split: option.splits)
  then obtain p where d: "w i = Some d" "pirq_port d q = Some p"
    using arrays_okD(7) [OF dom_okD(2) [OF evtchn_invD(1) [OF w i(1)]]] by blast
  show ?thesis using Guest_pirq by (auto intro: send_guest_pirq_good [OF w d])
next
  case (Xen_alloc i k r)
  then obtain d where d: "w i = Some d" using c by (auto simp: has_vcpu_def split: option.splits)
  show ?thesis using alloc_unbound_xen_good [OF w d E(2), of k r] c d Xen_alloc by (auto simp: has_vcpu_def)
next
  case (Xen_free i p)
  then obtain d e where d: "w i = Some d" "chan d p = Some e" "consumer_is_xen e"
    using c by (auto simp: xen_channel_def split: option.splits)
  show ?thesis using free_xen_good [OF E(1) w d] Xen_free by simp
next
  case (Xen_notify i p)
  then obtain d e where d: "w i = Some d" "chan d p = Some e" "consumer_is_xen e"
    using c by (auto simp: xen_channel_def split: option.splits)
  show ?thesis using notify_via_xen_good [OF w d, of E] Xen_notify by simp
next
  case (Block i k e)
  then obtain d v where d: "w i = Some d" "vcpu_at d k = Some v"
    using c by (auto simp: has_vcpu_def split: option.splits)
  have "sched_frame d (set_vcpu d k v')" if "virq_to_evtchn v' = virq_to_evtchn v" for v'
    using sched_frame_set_vcpu [OF d(2) that] .
  then show ?thesis using Block d good_sched_frame [OF w d(1)] by (auto simp: do_block_def Let_def)
next
  case (Poll i k h e ps)
  then obtain d v where d: "w i = Some d" "vcpu_at d k = Some v"
    using c by (auto simp: has_vcpu_def split: option.splits)
  obtain d' rc where "do_poll h e ps d k = Some (d', rc)" by (rule do_poll_cases [OF d(2), of h e ps]) blast+
  then show ?thesis using do_poll_good [OF w d] d Poll by simp
next
  case (Poll_timeout i k)
  then obtain d v where d: "w i = Some d" "vcpu_at d k = Some v"
    using c by (auto simp: has_vcpu_def split: option.splits)
  let ?d = "d\<lparr>poll_mask := poll_mask d - {k}\<rparr>"
  obtain d' where u: "vcpu_unblock ?d k = Some d'" "wakes k ?d d'"
    by (rule vcpu_unblock_spec [of ?d k v]) (use d(2) in \<open>auto simp: vcpu_at_def\<close>)
  have "sched_frame d d'" using sched_frame_trans [of d ?d d'] u(2) by (auto simp: wakes_def)
  then show ?thesis
    using d u(1) good_sched_frame [OF w d(1), of d'] good_refl [OF w] Poll_timeout
    by (cases "k \<in> poll_mask d") (simp_all add: poll_timer_fn_def fun_upd_idem)
next
  case (Destroy i)
  then obtain d where d: "w i = Some d" "is_dying d \<noteq> DOMDYING_alive" using c by (auto split: option.splits)
  show ?thesis using Destroy by (auto intro: evtchn_destroy_spec [OF E(1) w d])
qed

lemma kill_inv:
  assumes w: "evtchn_inv w" "w i = Some d" and s: "s \<noteq> DOMDYING_alive"
  shows "evtchn_inv (w(i \<mapsto> d\<lparr>is_dying := s\<rparr>))"
proof -
  let ?d = "d\<lparr>is_dying := s\<rparr>"
  have m: "MAX_EVTCHNS ?d = MAX_EVTCHNS d" by (rule MAX_EVTCHNS_cong) simp
  have at: "vcpu_at ?d = vcpu_at d" by (simp add: vcpu_at_def fun_eq_iff)
  have ch: "chan ?d = chan d"
    by (simp add: chan_def port_is_valid_def bucket_from_port_def evtchn_from_port_def m fun_eq_iff)
  have ok: "dom_ok ?d" using evtchn_invD(1) [OF w] s pirq_port_cong [of ?d d] by (simp add: dom_ok_def arrays_ok_def m at)
  have "tab_ok (tab ?d)"
    using evtchn_invD(3) [OF w] by (simp add: tab_ok_def chan_ok_def ch at virq_port_def pirq_port_def)
  then show ?thesis
    by (intro evtchn_inv_upd [OF w(1) ok] links_ok_same_chans [of _ i "tab d"])
      (use evtchn_invD(2) [OF w(1)] w(2) ch in auto)
qed

lemma remove_inv:
  assumes w: "evtchn_inv w" "w i = Some d" and d: "chan d = Map.empty"
  shows "evtchn_inv (w(i := None))"
proof -
  have "chan_state (links_of (w(i := None))) a = chan_state (links_of w) a" for a
    using w(2) d by (cases a) (auto simp: chan_state_def links_of_def)
  then have "chan_state (links_of (w(i := None))) = chan_state (links_of w)" by blast
  then have "peers_ok (chan_state (links_of (w(i := None))))"
    using evtchn_invD(2) [OF w(1)] by (simp add: links_ok_def)
  moreover have "tab_ok x" if "links_of (w(i := None)) j = Some x" for j x
    using that evtchn_invD(3) [OF w(1)] by (auto simp: links_of_def split: if_splits)
  ultimately show ?thesis using w(1) by (auto simp: evtchn_inv_def links_ok_def)
qed

lemma evtchn_step_inv:
  assumes "evtchn_step {E. tame E \<and> labels_ok E} w w'" "evtchn_inv w"
  shows "evtchn_inv w'"
  using assms
proof cases
  case (call E c)
  then show ?thesis using run_call_good [of E w c] assms(2) by (auto dest: goodD(1))
next
  case (guest_bits i d pn mk)
  then show ?thesis
    using sched_frame_inv [OF assms(2), of i d] sched_frame_trans [OF sched_frame_pending sched_frame_mask] by simp
next
  case (guest_vcpu i d k v up um sel)
  then show ?thesis using sched_frame_inv [OF assms(2), of i d] sched_frame_set_vcpu [of d k v] by simp
next
  case (create i E d d' vs)
  then show ?thesis using create_inv [OF assms(2) create(2,5,7) refl] evtchn_init_eq [OF create(5) _ create(4)] by simp
qed (use assms(2) kill_inv remove_inv in auto)

interpretation evtchns: invariant_steps "evtchn_step {E. tame E \<and> labels_ok E}" evtchn_inv
  by unfold_locales (rule evtchn_step_inv)

text \<open>
  Processors that only make calls of the component while no lock is held, any number of them in
  any order, are tame.
\<close>

lemma tame_calls:
  assumes "\<And>n w. evtchn_inv w \<Longrightarrow>
    (\<lambda>v v'. \<exists>E' c. tame E' \<and> labels_ok E' \<and> call_ok v c \<and> run_call E' v c = Some v')\<^sup>*\<^sup>* w (unlocked E n w)"
  shows "tame E"
  unfolding tame_def
proof (intro allI impI)
  fix n w assume w: "evtchn_inv w"
  from assms [OF w, of n] show "good w (unlocked E n w)"
  proof (induction rule: rtranclp_induct)
    case base
    then show ?case using good_refl [OF w] .
  next
    case (step v v')
    then obtain E' c where "tame E'" "labels_ok E'" "call_ok v c" "run_call E' v c = Some v'" by blast
    then have "good v v'" using run_call_good [of E' v c] goodD(1) [OF step.IH] by auto
    then show ?case using good_trans [OF step.IH] by blast
  qed
qed

lemma empty_inv [simp]: "evtchn_inv Map.empty"
  by (simp add: evtchn_inv_def links_ok_def peers_ok_def pairing_def chan_state_def links_of_def)

end
