(* ===== verification/Event_Channel_Theorems.thy ===== *)
theory Event_Channel_Theorems
  imports Event_Channel_Steps
begin

text \<open>
  The properties of the event-channel component, each with a witness where it has hypotheses.
  The witnesses use two small domains, given by the states of their first channels.
\<close>

section \<open>Example states\<close>

definition ex_env :: env where
  "ex_env = \<lparr>xmalloc_ok = True, xsm_alloc_security_evtchn = (\<lambda>_. False), xsm_evtchn_unbound = 0,
     xsm_evtchn_interdomain = 0, xsm_evtchn_send = 0, xsm_evtchn_status = 0, xsm_evtchn_reset = 0,
     pirq_guest_bind = (\<lambda>_ _. 0), copy_from_guest_ok = True, copy_to_guest_ok = True, in_irq = False,
     domain_below = (\<lambda>i j. i < j), unlocked = (\<lambda>_ w. w)\<rparr>"

definition ex_vcpu :: vcpu where
  "ex_vcpu = \<lparr>evtchn_upcall_pending = False, evtchn_upcall_mask = False, evtchn_pending_sel = {},
     poll_evtchn = 0, pause_flags = {}, vcpu_pause_count = 0, runstate = RUNSTATE_running,
     virq_to_evtchn = replicate NR_VIRQS 0\<rparr>"

definition ex_chans :: "ecs list \<Rightarrow> evtchn list" where
  "ex_chans ss = map (\<lambda>s. zero_evtchn\<lparr>state := s\<rparr>) ss @ replicate (EVTCHNS_PER_BUCKET - length ss) zero_evtchn"

definition ex_dom :: "ecs list \<Rightarrow> domain" where
  "ex_dom ss = \<lparr>evtchn = Bucket (ex_chans ss) # replicate 31 Null_bucket, has_32bit_shinfo = False,
     evtchn_pending = {}, evtchn_mask = {}, vcpu = [Some ex_vcpu], nr_pirqs = 16,
     pirq_to_evtchn = replicate 16 0, pirq_bound = {}, irq_caps = two_ranges, is_hvm = False, is_hvm_pv_evtchn = False,
     is_privileged = False, target = None, is_dying = DOMDYING_alive, poll_mask = {}, domain_pause_count = 0\<rparr>"

text \<open>Domain 1 offers port 1 to domain 2, or the two are connected by their ports 1.\<close>

definition ex_offer :: hyp where
  "ex_offer = [1 \<mapsto> ex_dom [ECS_RESERVED, ECS_UNBOUND 2], 2 \<mapsto> ex_dom [ECS_RESERVED]]"

definition ex_pair :: hyp where
  "ex_pair = [1 \<mapsto> ex_dom [ECS_RESERVED, ECS_INTERDOMAIN 2 1], 2 \<mapsto> ex_dom [ECS_RESERVED, ECS_INTERDOMAIN 1 1]]"

lemma ex_env_ok [simp]: "tame ex_env" "labels_ok ex_env"
  by (simp_all add: tame_def ex_env_def good_refl labels_ok_def list_all_iff)

lemma ex_dom_sel [simp]:
  "evtchn (ex_dom ss) = Bucket (ex_chans ss) # replicate 31 Null_bucket" "evtchn_pending (ex_dom ss) = {}"
  "evtchn_mask (ex_dom ss) = {}" "is_dying (ex_dom ss) = DOMDYING_alive" "poll_mask (ex_dom ss) = {}"
  "vcpu (ex_dom ss) = [Some ex_vcpu]" "MAX_EVTCHNS (ex_dom ss) = 4096" "BITS_PER_EVTCHN_WORD (ex_dom ss) = 64"
  "pirq_to_evtchn (ex_dom ss) = replicate 16 0"
  by (simp_all add: ex_dom_def MAX_EVTCHNS_def BITS_PER_EVTCHN_WORD_def)

lemma ex_vcpu_at: "vcpu_at (ex_dom ss) k = (if k = 0 then Some ex_vcpu else None)"
  by (simp add: vcpu_at_def array_get_def)

lemma ex_chan:
  assumes "length ss \<le> 128"
  shows "chan (ex_dom ss) p =
    (if p < 128 then Some (zero_evtchn\<lparr>state := if p < length ss then ss ! p else ECS_FREE\<rparr>) else None)"
proof -
  have len: "length (ex_chans ss) = EVTCHNS_PER_BUCKET" using assms by (simp add: ex_chans_def EVTCHNS_PER_BUCKET_def)
  have "zero_evtchn\<lparr>state := ECS_FREE\<rparr> = zero_evtchn" by (simp add: zero_evtchn_def)
  then show ?thesis
    using first_bucket(1) [of "ex_dom ss" "ex_chans ss" p] len assms
    by (auto simp: ex_chans_def nth_append EVTCHNS_PER_BUCKET_def)
qed

lemma ex_ports:
  "virq_port (ex_dom ss) = Map.empty" "pirq_port (ex_dom ss) = Map.empty"
  by (auto simp: virq_port_def pirq_port_def ex_vcpu_at ex_vcpu_def array_get_def fun_eq_iff)

lemma ex_dom_ok:
  assumes "length ss \<le> 128"
  shows "dom_ok (ex_dom ss)"
proof -
  have "length (ex_chans ss) = EVTCHNS_PER_BUCKET" using assms by (simp add: ex_chans_def EVTCHNS_PER_BUCKET_def)
  then have "buckets_ok (MAX_EVTCHNS (ex_dom ss)) (evtchn (ex_dom ss))" by (intro first_bucket(2)) simp_all
  moreover have "arrays_ok (ex_dom ss)"
    using ex_ports(2) [of ss] unfolding arrays_ok_def
    by (simp add: ex_dom_def ex_vcpu_def MAX_VIRT_CPUS_def two_ranges_wf)
  ultimately show ?thesis by (simp add: dom_ok_def)
qed

lemma ex_tab_ok:
  assumes "length ss \<le> 128" "ss \<noteq> []" "ss ! 0 = ECS_RESERVED" "\<forall>s \<in> set ss. (\<forall>q. s \<noteq> ECS_PIRQ q) \<and> (\<forall>v. s \<noteq> ECS_VIRQ v)"
  shows "tab_ok (tab (ex_dom ss))"
  using assms by (auto simp: tab_ok_def chan_ok_def ex_chan ex_ports ex_vcpu_at zero_evtchn_def split: if_splits)

lemma ex_offer_inv [simp]: "evtchn_inv ex_offer"
proof -
  have "peer_of (chan_state (links_of ex_offer) a) = None" for a
    by (cases a) (auto simp: ex_offer_def chan_state_def links_of_def ex_chan zero_evtchn_def nth_Cons' split: if_splits)
  then have "peers_ok (chan_state (links_of ex_offer))" by (simp add: peers_ok_def pairing_def)
  then show ?thesis
    by (auto simp: evtchn_inv_def links_ok_def links_of_def ex_offer_def split: if_splits
        intro!: ex_dom_ok ex_tab_ok)
qed

lemma ex_pair_state:
  "chan_state (links_of ex_pair) (i, p) =
     (if (i = 1 \<or> i = 2) \<and> p < 128
      then Some (if p = 0 then ECS_RESERVED else if p = 1 then ECS_INTERDOMAIN (3 - i) 1 else ECS_FREE) else None)"
  by (auto simp: ex_pair_def chan_state_def links_of_def ex_chan nth_Cons')

lemma ex_pair_inv [simp]: "evtchn_inv ex_pair"
proof -
  have "peers_ok (chan_state (links_of ex_pair))"
    by (auto simp: peers_ok_def pairing_def ex_pair_state)
  then show ?thesis
    by (auto simp: evtchn_inv_def links_ok_def links_of_def ex_pair_def split: if_splits
        intro!: ex_dom_ok ex_tab_ok)
qed

section \<open>Safety of the component\<close>

text \<open>
  C1: Starting with no domain at all, in every state that hypercalls, interrupts, the hypervisor's
  own channels, writes of the guests to their shared pages, and the creation, death and removal
  of domains can reach, the event-channel invariant holds: connected ports are connected in both
  directions, the tables of virtual and physical interrupts and the channels name each other, the
  interrupt layer delivers exactly the bound physical interrupts, every channel notifies an
  existing VCPU, no bucket pointer dangles.  This is for environments in which the security module
  labels every channel of a new bucket and other processors keep the invariant, and for
  domains that get VCPU 0 together with their channels.
  Both are needed: \<open>get_free_port_label_failure\<close> and \<open>send_to_domain_without_vcpus\<close> below
  show what happens without them.
\<close>

theorem evtchn_reachable_inv:
  assumes "(evtchn_step {E. tame E \<and> labels_ok E})\<^sup>*\<^sup>* Map.empty w"
  shows "evtchn_inv w"
  by (rule evtchns.steps_inv [OF assms]) simp

text \<open>A run that creates a domain.\<close>

definition ex_fresh :: domain where
  "ex_fresh = (ex_dom [])\<lparr>evtchn := replicate NR_EVTCHN_BUCKETS Null_bucket, vcpu := []\<rparr>"

lemma ex_fresh_ok: "fresh_domain ex_fresh" "fresh_vcpus [Some ex_vcpu]" "xmalloc_ok ex_env"
  by (simp_all add: fresh_domain_def fresh_vcpus_def ex_fresh_def ex_dom_def two_ranges_wf ex_vcpu_def
      MAX_VIRT_CPUS_def ex_env_def)

definition ex_created :: domain where
  "ex_created = ex_fresh\<lparr>evtchn := Bucket initial_chans # replicate 31 Null_bucket, poll_mask := {}, vcpu := [Some ex_vcpu]\<rparr>"

lemma ex_created_reachable: "(evtchn_step {E. tame E \<and> labels_ok E})\<^sup>*\<^sup>* Map.empty [1 \<mapsto> ex_created]"
  using evtchn_step.create [of Map.empty 1 ex_env "{E. tame E \<and> labels_ok E}" ex_fresh _ "[Some ex_vcpu]"]
    evtchn_init_eq [OF ex_fresh_ok(1) ex_env_ok(2) ex_fresh_ok(3)] ex_fresh_ok
  by (intro r_into_rtranclp) (simp add: ex_created_def)

theorem evtchn_reachable_inv_witness:
  "(evtchn_step {E. tame E \<and> labels_ok E})\<^sup>*\<^sup>* Map.empty [1 \<mapsto> ex_created] \<and> evtchn_inv [1 \<mapsto> ex_created]"
  using evtchn_reachable_inv [OF ex_created_reachable] ex_created_reachable by blast

text \<open>
  C2: In a reachable state no entry point of the component crashes the hypervisor, whatever a
  guest passes to the hypercall: every call that meets its caller's obligations (\<open>call_ok\<close>: the
  domain, the VCPU or the channel that the hypervisor's own code names exists, an interrupt is
  raised only when it is of the right kind and bound, only a dying domain is destroyed) returns,
  keeps the invariant, and in a dying domain only closes channels.  The security module labels every
  channel of a new bucket (\<open>labels_ok\<close>), other processors keep the invariant and open no
  channel in a dying domain while no lock is held (\<open>tame\<close>), and the state is reachable in the
  sense of the previous theorem, in which a domain never exists without its VCPU 0.
\<close>

theorem evtchn_calls_safe:
  assumes "(evtchn_step {E. tame E \<and> labels_ok E})\<^sup>*\<^sup>* Map.empty w" "tame E" "labels_ok E" "call_ok w c"
  shows "\<exists>w'. run_call E w c = Some w' \<and> evtchn_inv w' \<and> steady w w'"
  using run_call_good [OF assms(2,3) evtchns.steps_inv [OF assms(1)] assms(4)] by (auto simp: good_def)

theorem evtchn_calls_safe_witness:
  "\<exists>w'. run_call ex_env [1 \<mapsto> ex_created] (Hypercall 1 (EVTCHNOP_send 5)) = Some w' \<and>
     evtchn_inv w' \<and> steady [1 \<mapsto> ex_created] w'"
  by (rule evtchn_calls_safe [OF ex_created_reachable ex_env_ok]) simp

section \<open>Allocation\<close>

text \<open>
  C13: \<^verbatim>\<open>get_free_port\<close> finds the lowest free port, growing the bucket array by one bucket when all
  valid ports are busy, and reports exactly three failures: the domain is dying, all ports that
  the shared page has room for are busy, there is no memory for a bucket.
\<close>

theorem get_free_port_spec:
  assumes d: "dom_ok d" and E: "labels_ok E"
  shows "\<exists>d' r. get_free_port E d = Some (d', r) \<and> grown d d' \<and>
    (if is_dying d \<noteq> DOMDYING_alive then r = - EINVAL
     else if \<forall>p < MAX_EVTCHNS d. busy d p then r = - ENOSPC
     else if (\<forall>p. chan d p \<noteq> None \<longrightarrow> busy d p) \<and> \<not> xmalloc_ok E then r = - ENOMEM
     else 0 \<le> r \<and> map_option state (chan d' (nat r)) = Some ECS_FREE \<and> (\<forall>q < nat r. busy d q))"
proof (cases "is_dying d = DOMDYING_alive")
  case False
  then show ?thesis by (auto simp: get_free_port_def)
next
  case al: True
  have lbl: "\<not> list_ex (xsm_alloc_security_evtchn E) [0..<EVTCHNS_PER_BUCKET]"
    using E by (auto simp: labels_ok_def list_all_iff list_ex_iff)
  consider (old) p c where "free_port_loop d 0 (MAX_EVTCHNS d) = Some (Inl p)" "chan d p = Some c" "state c = ECS_FREE"
      "\<forall>q < p. busy d q"
    | (full) "free_port_loop d 0 (MAX_EVTCHNS d) = Some (Inr (MAX_EVTCHNS d))" "\<forall>q < MAX_EVTCHNS d. busy d q"
    | (grow) p where "free_port_loop d 0 (MAX_EVTCHNS d) = Some (Inr p)" "chan d p = None" "p < MAX_EVTCHNS d"
      "\<forall>q < p. busy d q"
    using free_port_loop_spec [OF d, of 0 "MAX_EVTCHNS d"] by (auto simp: le_less)
  then show ?thesis
  proof cases
    case old
    have "\<not> busy d p" using old by (simp add: busy_def)
    then show ?thesis using al old chan_less [OF old(2)] by (auto simp: get_free_port_def)
  next
    case full
    then show ?thesis using al by (simp add: get_free_port_def)
  next
    case grow
    have nb: "\<not> busy d p" using grow(2) by (simp add: busy_def)
    have all: "\<forall>q. chan d q \<noteq> None \<longrightarrow> busy d q"
      using grow(4) valid_below [OF d grow(2)] by (metis not_le)
    show ?thesis
    proof (cases "xmalloc_ok E")
      case False
      then show ?thesis using al grow nb all by (auto simp: get_free_port_def)
    next
      case True
      let ?b = "p div EVTCHNS_PER_BUCKET"
      have "get_free_port E d = Some (add_bucket d ?b, int p)"
        using True al lbl grow port_bucket_less [OF grow(3)] dom_okD(4) [OF d]
        by (simp add: get_free_port_def add_bucket_def)
      moreover have "chan (add_bucket d ?b) p = Some zero_evtchn"
        using chan_add_bucket [OF d grow(3,2,4) refl] by simp
      moreover have "grown d (add_bucket d ?b)"
        by (rule grown_add_bucket(1) [OF d al grow(3,2,4)])
      ultimately show ?thesis using al grow nb True by (auto simp: zero_evtchn_def)
    qed
  qed
qed

theorem get_free_port_spec_witness:
  "\<exists>d' r. get_free_port ex_env (ex_dom [ECS_RESERVED, ECS_IPI]) = Some (d', r) \<and> grown (ex_dom [ECS_RESERVED, ECS_IPI]) d' \<and>
    (if is_dying (ex_dom [ECS_RESERVED, ECS_IPI]) \<noteq> DOMDYING_alive then r = - EINVAL
     else if \<forall>p < MAX_EVTCHNS (ex_dom [ECS_RESERVED, ECS_IPI]). busy (ex_dom [ECS_RESERVED, ECS_IPI]) p then r = - ENOSPC
     else if (\<forall>p. chan (ex_dom [ECS_RESERVED, ECS_IPI]) p \<noteq> None \<longrightarrow> busy (ex_dom [ECS_RESERVED, ECS_IPI]) p) \<and>
       \<not> xmalloc_ok ex_env then r = - ENOMEM
     else 0 \<le> r \<and> map_option state (chan d' (nat r)) = Some ECS_FREE \<and>
       (\<forall>q < nat r. busy (ex_dom [ECS_RESERVED, ECS_IPI]) q))"
  by (rule get_free_port_spec [OF ex_dom_ok]) simp_all

text \<open>The search runs into a bucket that has been freed.\<close>

lemma free_port_loop_dangling:
  assumes "port \<le> p" "p < port + n" "\<forall>q < p. port \<le> q \<longrightarrow> busy d q" "p < MAX_EVTCHNS d" "bucket_from_port d p = Freed_bucket"
    "length (evtchn d) = NR_EVTCHN_BUCKETS"
  shows "free_port_loop d port n = None"
  using assms
proof (induction n arbitrary: port)
  case (Suc n)
  show ?case
  proof (cases "port = p")
    case True
    then show ?thesis
      using Suc.prems port_bucket_less [OF Suc.prems(4)]
      by (simp add: port_is_valid_def evtchn_from_port_def bucket_from_port_def)
  next
    case False
    then have "busy d port" using Suc.prems(1,3) by simp
    then obtain c where c: "chan d port = Some c" "state c \<noteq> ECS_FREE" unfolding busy_def by blast
    have "free_port_loop d (Suc port) n = None" using Suc.IH [of "Suc port"] Suc.prems False by auto
    then show ?thesis using c(2) chan_valid [OF c(1)] chan_from_port [OF c(1)] by simp
  qed
qed simp

text \<open>
  C36: When the security module cannot label a channel of a new bucket, \<^verbatim>\<open>get_free_port\<close> frees the
  bucket but leaves the pointer to it in the bucket array.  The operation that fails reports
  \<^verbatim>\<open>-ENOMEM\<close>; the next search for a free port in this domain follows the dangling pointer.
\<close>

theorem get_free_port_label_failure:
  assumes d: "dom_ok d" "is_dying d = DOMDYING_alive"
    and p: "p < MAX_EVTCHNS d" "chan d p = None" "\<forall>q < p. busy d q"
    and E: "xmalloc_ok E" "\<not> labels_ok E"
  shows "\<exists>d'. get_free_port E d = Some (d', - ENOMEM) \<and> get_free_port E' d' = None"
proof -
  let ?b = "p div EVTCHNS_PER_BUCKET"
  let ?d = "d\<lparr>evtchn := (evtchn d)[?b := Freed_bucket]\<rparr>"
  have lbl: "list_ex (xsm_alloc_security_evtchn E) [0..<EVTCHNS_PER_BUCKET]"
    using E(2) by (auto simp: labels_ok_def list_all_iff list_ex_iff)
  have loop: "free_port_loop d 0 (MAX_EVTCHNS d) = Some (Inr p)"
  proof -
    have "(\<exists>q. free_port_loop d 0 (MAX_EVTCHNS d) = Some (Inl q) \<and> \<not> busy d q \<and> chan d q \<noteq> None \<and> (\<forall>r < q. busy d r)) \<or>
      (\<exists>q. free_port_loop d 0 (MAX_EVTCHNS d) = Some (Inr q) \<and> chan d q = None \<and> (\<forall>r < q. busy d r))"
      using free_port_loop_spec [OF d(1), of 0 "MAX_EVTCHNS d"] by (fastforce simp: busy_def)
    moreover have "\<not> busy d p" using p(2) by (simp add: busy_def)
    ultimately show ?thesis
      using p valid_below [OF d(1) p(2)] by (metis busy_def linorder_neqE_nat option.distinct(1) less_imp_le not_le)
  qed
  note b = port_bucket_less [OF p(1)] and len = dom_okD(4) [OF d(1)]
  have first: "get_free_port E d = Some (?d, - ENOMEM)"
    using d(2) E(1) lbl loop p(1) b len by (simp add: get_free_port_def)
  have m: "MAX_EVTCHNS ?d = MAX_EVTCHNS d" by (rule MAX_EVTCHNS_cong) simp
  have other: "chan ?d q = chan d q" if "q < p" for q
  proof -
    have "busy d q" using that p(3) by blast
    then have "evtchn d ! (q div EVTCHNS_PER_BUCKET) \<noteq> Null_bucket" by (rule busy_bucket)
    then have "q div EVTCHNS_PER_BUCKET \<noteq> ?b" using new_bucket [OF d(1) p refl] by metis
    then show ?thesis
      by (simp add: chan_def port_is_valid_def bucket_from_port_def evtchn_from_port_def m array_get_update)
  qed
  have "free_port_loop ?d 0 (MAX_EVTCHNS ?d) = None"
    by (rule free_port_loop_dangling [where p = p])
      (use p other b len m in \<open>auto simp: busy_def bucket_from_port_def\<close>)
  then have "get_free_port E' ?d = None" using d(2) by (simp add: get_free_port_def)
  then show ?thesis using first by blast
qed

theorem get_free_port_label_failure_witness:
  "\<exists>d'. get_free_port (ex_env\<lparr>xsm_alloc_security_evtchn := (\<lambda>i. i = 5)\<rparr>) (ex_dom (ECS_RESERVED # replicate 127 ECS_IPI))
      = Some (d', - ENOMEM) \<and> get_free_port ex_env d' = None"
  by (rule get_free_port_label_failure [where p = 128])
    (auto simp: ex_dom_ok ex_chan busy_def nth_Cons' ex_env_def labels_ok_def list_all_iff EVTCHNS_PER_BUCKET_def intro!: bexI [of _ 5])

section \<open>Connections\<close>

text \<open>
  C5: \<^verbatim>\<open>EVTCHNOP_bind_interdomain\<close> always returns, and it succeeds whenever the remote port is unbound
  and meant for the caller, the security module agrees and a local port can be found.  When it
  succeeds, the local port was free or did not exist, the remote one was waiting for the caller,
  the two ports are now connected in both directions, and the local port is pending.
\<close>

theorem evtchn_bind_interdomain_spec:
  assumes w: "evtchn_inv w" "w cur = Some ld" and E: "labels_ok E"
    and rd: "rd = (if rdm = DOMID_SELF then cur else rdm)"
  shows "\<exists>w' r. evtchn_bind_interdomain E w cur rdm rp = Some (w', r) \<and> evtchn_inv w' \<and>
    (case r of
       Inl rc \<Rightarrow>
         xsm_evtchn_interdomain E = 0 \<and> 0 \<le> sint rp \<and>
         chan_state (links_of w) (rd, nat (sint rp)) = Some (ECS_UNBOUND cur) \<longrightarrow>
           (\<exists>e. get_free_port E ld = Some (ld, e) \<and> e < 0)
     | Inr lport \<Rightarrow>
         0 \<le> sint rp \<and>
         chan_state (links_of w) (cur, lport) \<in> {None, Some ECS_FREE} \<and>
         chan_state (links_of w) (rd, nat (sint rp)) = Some (ECS_UNBOUND cur) \<and>
         chan_state (links_of w') (cur, lport) = Some (ECS_INTERDOMAIN rd (nat (sint rp))) \<and>
         chan_state (links_of w') (rd, nat (sint rp)) = Some (ECS_INTERDOMAIN cur lport) \<and>
         (\<exists>x. w' cur = Some x \<and> lport \<in> evtchn_pending x))"
proof (cases rule: evtchn_bind_interdomain_cases [of w cur ld E rdm rp, OF w E])
  case (1 w' rc)
  then show ?thesis using goodD(1) [OF 1(2)] rd by auto
next
  case (2 w' rd' rport y c lport)
  have "chan_state (links_of w) (rd, nat (sint rp)) = Some (ECS_UNBOUND cur)"
    using chan_state_at [of w rd y] 2 rd by simp
  then show ?thesis using 2 goodD(1) [OF 2(2)] rd by auto
qed

theorem evtchn_bind_interdomain_spec_witness:
  "\<exists>w' r. evtchn_bind_interdomain ex_env ex_offer 2 1 1 = Some (w', r) \<and> evtchn_inv w' \<and>
    (case r of
       Inl rc \<Rightarrow>
         xsm_evtchn_interdomain ex_env = 0 \<and> 0 \<le> sint (1 :: u32) \<and>
         chan_state (links_of ex_offer) (1, nat (sint (1 :: u32))) = Some (ECS_UNBOUND 2) \<longrightarrow>
           (\<exists>e. get_free_port ex_env (ex_dom [ECS_RESERVED]) = Some (ex_dom [ECS_RESERVED], e) \<and> e < 0)
     | Inr lport \<Rightarrow>
         0 \<le> sint (1 :: u32) \<and>
         chan_state (links_of ex_offer) (2, lport) \<in> {None, Some ECS_FREE} \<and>
         chan_state (links_of ex_offer) (1, nat (sint (1 :: u32))) = Some (ECS_UNBOUND 2) \<and>
         chan_state (links_of w') (2, lport) = Some (ECS_INTERDOMAIN 1 (nat (sint (1 :: u32)))) \<and>
         chan_state (links_of w') (1, nat (sint (1 :: u32))) = Some (ECS_INTERDOMAIN 2 lport) \<and>
         (\<exists>x. w' 2 = Some x \<and> lport \<in> evtchn_pending x))"
  by (rule evtchn_bind_interdomain_spec [OF ex_offer_inv])
    (simp_all add: ex_offer_def DOMID_SELF_def)

text \<open>
  C3: \<^verbatim>\<open>EVTCHNOP_close\<close> refines the abstract operation on connection states.  It acts on the
  state it was called in, or, for a connected port, on the state after the window in which it takes
  the lock of the remote domain.  It succeeds if the port is in use and not consumed by the
  hypervisor, unless the port was connected to another domain in that window, and
  fails with \<^verbatim>\<open>-EINVAL\<close>, changing nothing, otherwise.  When it succeeds the port is free, its
  pending bit is clear, every virtual and physical interrupt bound to it is unbound, the other end
  of a connection waits for the closing domain, and nothing else changes: no other channel, no
  other bit, no other field of a domain or a VCPU (\<open>closes\<close>).
\<close>

theorem evtchn_close_spec:
  assumes "evtchn_inv w" "w cur = Some x" "tame E"
  shows "\<exists>w' rc w1. evtchn_close E w cur port = Some (w', rc) \<and> evtchn_inv w' \<and>
    (w1 = w \<or> w1 = unlocked E 0 w \<and>
       (\<exists>r q. chan_state (links_of w) (cur, nat (sint port)) = Some (ECS_INTERDOMAIN r q))) \<and>
    (if rc = 0
     then closable w1 cur (sint port) \<and> closes w1 w' cur (nat (sint port))
     else rc = - EINVAL \<and> w' = w1 \<and>
       (closable w1 cur (sint port) \<longrightarrow>
          (\<exists>r q r' q'. chan_state (links_of w) (cur, nat (sint port)) = Some (ECS_INTERDOMAIN r q) \<and>
             chan_state (links_of w1) (cur, nat (sint port)) = Some (ECS_INTERDOMAIN r' q') \<and> r' \<noteq> r)))"
proof (cases rule: close_itf_cases [of w cur x "unlocked E 0" E "sint port", OF assms(1,2) tameD [OF assms(3)]])
  case (1 v)
  then show ?case .
next
  case (2 w1)
  have "- EINVAL \<noteq> 0" by (simp add: errno)
  then show ?thesis
    using 2(2,4,5) goodD(1) [OF 2(3)] 2(1) unfolding evtchn_close_def
    by (intro exI [of _ w1] exI [of _ "- EINVAL"]) auto
next
  case (3 w1 w2 n)
  then show ?thesis
    using goodD(1) [OF 3(7)] unfolding evtchn_close_def
    by (intro exI [of _ w2] exI [of _ 0] exI [of _ w1]) auto
qed

theorem evtchn_close_spec_witness:
  "\<exists>w'. evtchn_close ex_env ex_pair 1 1 = Some (w', 0) \<and> evtchn_inv w' \<and> closes ex_pair w' 1 1 \<and>
    chan_state (links_of w') (2, 1) = Some (ECS_UNBOUND 1)"
proof -
  have e: "unlocked ex_env 0 ex_pair = ex_pair" by (simp add: ex_env_def)
  have c: "closable ex_pair 1 1" by (simp add: closable_def ex_pair_def ex_chan zero_evtchn_def)
  have x: "ex_pair 1 = Some (ex_dom [ECS_RESERVED, ECS_INTERDOMAIN 2 1])" by (simp add: ex_pair_def)
  obtain w' where w': "evtchn_close ex_env ex_pair 1 1 = Some (w', 0)" "evtchn_inv w'" "closes ex_pair w' 1 1"
    using evtchn_close_spec [OF ex_pair_inv x ex_env_ok(1), of 1] c by (auto simp: e split: if_splits)
  then have "chan_state (links_of w') (2, 1) = Some (ECS_UNBOUND 1)"
    by (simp add: closes_def close_state_def ex_pair_state)
  then show ?thesis using w' by blast
qed

text \<open>
  C10: Destruction of a dying domain, with other processors acting between and inside the closing
  of its ports, ends with no channel, no virtual and no physical interrupt bound, and every
  former peer again a well-formed unconnected channel.
\<close>

theorem evtchn_destroy_releases:
  assumes "tame E" "evtchn_inv w" "w i = Some d" "is_dying d \<noteq> DOMDYING_alive"
  shows "\<exists>w' d'. evtchn_destroy E w i = Some w' \<and> evtchn_inv w' \<and> w' i = Some d' \<and>
    chan d' = Map.empty \<and> virq_port d' = Map.empty \<and> pirq_port d' = Map.empty \<and>
    (\<forall>j q p. chan_state (links_of w') (j, q) \<noteq> Some (ECS_INTERDOMAIN i p))"
proof -
  obtain w' d' where r: "evtchn_destroy E w i = Some w'" "good w w'" "w' i = Some d'"
    "chan d' = (\<lambda>_. None)" "virq_port d' = Map.empty" "pirq_port d' = Map.empty"
    by (rule evtchn_destroy_spec [OF assms]) blast
  note inv = goodD(1) [OF r(2)]
  have "chan_state (links_of w') (j, q) \<noteq> Some (ECS_INTERDOMAIN i p)" for j q p
  proof
    assume a: "chan_state (links_of w') (j, q) = Some (ECS_INTERDOMAIN i p)"
    have "pairing (peer_of \<circ> chan_state (links_of w'))"
      using evtchn_invD(2) [OF inv] by (simp add: links_ok_def peers_ok_def)
    then have "(peer_of \<circ> chan_state (links_of w')) (i, p) = Some (j, q)"
      by (rule pairingD(2)) (use a in simp)
    then show False using chan_state_at [of w' i d' p, OF r(3)] r(4) by simp
  qed
  then show ?thesis using r inv by blast
qed

theorem evtchn_destroy_releases_witness:
  "\<exists>w' d'. evtchn_destroy ex_env (ex_pair(1 \<mapsto> (the (ex_pair 1))\<lparr>is_dying := DOMDYING_dying\<rparr>)) 1 = Some w' \<and>
    evtchn_inv w' \<and> w' 1 = Some d' \<and>
    chan d' = Map.empty \<and> virq_port d' = Map.empty \<and> pirq_port d' = Map.empty \<and>
    (\<forall>j q p. chan_state (links_of w') (j, q) \<noteq> Some (ECS_INTERDOMAIN 1 p))"
  by (rule evtchn_destroy_releases [OF ex_env_ok(1) kill_inv [OF ex_pair_inv],
        where d = "(the (ex_pair 1))\<lparr>is_dying := DOMDYING_dying\<rparr>"])
    (simp_all add: ex_pair_def)

definition ex_dom2 :: domain where
  "ex_dom2 = ex_dom [ECS_RESERVED, ECS_INTERDOMAIN 1 1]"

section \<open>Delivery\<close>

text \<open>
  C6: An event sent through a connected port between two guests sets exactly the pending bit of
  the remote port.  When that bit was clear, every VCPU of the remote domain that polls for the
  port is released; when the port is not masked either, its word is selected in the page of the
  VCPU it notifies, with an upcall if it was not selected before.
\<close>

theorem evtchn_send_delivers:
  assumes w: "evtchn_inv w" "w ld = Some x" and c: "chan x lport = Some c" "\<not> consumer_is_xen c"
    "state c = ECS_INTERDOMAIN rd rport" and E: "xsm_evtchn_send E = 0"
    and y: "w rd = Some y" "chan y rport = Some e" "\<not> consumer_is_xen e"
  shows "\<exists>y' v v'. evtchn_send E w ld lport = Some (w(rd \<mapsto> y'), 0) \<and>
    evtchn_inv (w(rd \<mapsto> y')) \<and> chan y' = chan y \<and> evtchn_mask y' = evtchn_mask y \<and>
    evtchn_pending y' = insert rport (evtchn_pending y) \<and>
    vcpu_at y (notify_vcpu_id e) = Some v \<and> vcpu_at y' (notify_vcpu_id e) = Some v' \<and>
    (rport \<notin> evtchn_pending y \<longrightarrow> (\<forall>j. polls y j rport \<longrightarrow> released y' j)) \<and>
    (rport \<notin> evtchn_pending y \<and> rport \<notin> evtchn_mask y \<longrightarrow>
       rport div BITS_PER_EVTCHN_WORD y \<in> evtchn_pending_sel v' \<and>
       (rport div BITS_PER_EVTCHN_WORD y \<in> evtchn_pending_sel v \<or> evtchn_upcall_pending v'))"
proof -
  have wy: "evtchn_inv w" "w rd = Some y" using w y by auto
  obtain v where v: "vcpu_at y (notify_vcpu_id e) = Some v" using chan_okD(2) [OF wy y(2)] by blast
  obtain y' r where s: "evtchn_set_pending E y (notify_vcpu_id e) rport = Some (y', r)" "sched_frame y y'"
    "evtchn_pending y' = insert rport (evtchn_pending y)" "evtchn_mask y' = evtchn_mask y"
    "\<And>j. rport \<notin> evtchn_pending y \<Longrightarrow> polls y j rport \<Longrightarrow> released y' j"
    "rport \<notin> evtchn_pending y \<Longrightarrow> rport \<notin> evtchn_mask y \<Longrightarrow>
       \<exists>v'. vcpu_at y' (notify_vcpu_id e) = Some v' \<and> rport div BITS_PER_EVTCHN_WORD y \<in> evtchn_pending_sel v' \<and>
         (rport div BITS_PER_EVTCHN_WORD y \<notin> evtchn_pending_sel v \<longrightarrow> evtchn_upcall_pending v')"
    by (rule evtchn_set_pending_spec [OF dom_okD(2) [OF evtchn_invD(1) [OF wy]] v, of E rport]) blast
  have "evtchn_send E w ld lport = Some (w(rd \<mapsto> y'), 0)"
    using w(2) c E y chan_valid [OF c(1)] chan_from_port [OF c(1)] chan_from_port [OF y(2)] s(1)
    by (simp add: evtchn_send_def set_pending_on_def)
  moreover have "evtchn_inv (w(rd \<mapsto> y'))" by (rule sched_frame_inv [OF wy s(2)])
  moreover obtain v' where v': "vcpu_at y' (notify_vcpu_id e) = Some v'"
    using sched_frame_vcpu_None [OF s(2), of "notify_vcpu_id e"] v by fastforce
  ultimately show ?thesis
    using s sched_frame_chan [OF s(2)] v by (intro exI [of _ y'] exI [of _ v] exI [of _ v']) auto
qed

theorem evtchn_send_delivers_witness:
  "\<exists>y' v v'. evtchn_send ex_env ex_pair 1 1 = Some (ex_pair(2 \<mapsto> y'), 0) \<and>
    evtchn_inv (ex_pair(2 \<mapsto> y')) \<and> chan y' = chan ex_dom2 \<and> evtchn_mask y' = evtchn_mask ex_dom2 \<and>
    evtchn_pending y' = insert 1 (evtchn_pending ex_dom2) \<and>
    vcpu_at ex_dom2 (notify_vcpu_id (zero_evtchn\<lparr>state := ECS_INTERDOMAIN 1 1\<rparr>)) = Some v \<and>
    vcpu_at y' (notify_vcpu_id (zero_evtchn\<lparr>state := ECS_INTERDOMAIN 1 1\<rparr>)) = Some v' \<and>
    (1 \<notin> evtchn_pending ex_dom2 \<longrightarrow> (\<forall>j. polls ex_dom2 j 1 \<longrightarrow> released y' j)) \<and>
    (1 \<notin> evtchn_pending ex_dom2 \<and> 1 \<notin> evtchn_mask ex_dom2 \<longrightarrow>
       1 div BITS_PER_EVTCHN_WORD ex_dom2 \<in> evtchn_pending_sel v' \<and>
       (1 div BITS_PER_EVTCHN_WORD ex_dom2 \<in> evtchn_pending_sel v \<or> evtchn_upcall_pending v'))"
  by (rule evtchn_send_delivers [of ex_pair 1 "ex_dom [ECS_RESERVED, ECS_INTERDOMAIN 2 1]" 1
      "zero_evtchn\<lparr>state := ECS_INTERDOMAIN 2 1\<rparr>" 2 1 ex_env ex_dom2, OF ex_pair_inv])
    (simp_all add: ex_chan ex_pair_def ex_env_def zero_evtchn_def ex_dom2_def)

text \<open>
  C28: Once \<^verbatim>\<open>EVTCHNOP_bind_virq\<close> has bound a global virtual interrupt to a port, raising that
  interrupt in the domain makes this port pending.
\<close>

theorem bind_virq_then_raise:
  assumes w: "evtchn_inv w" "w cur = Some d" and E: "labels_ok E"
    and b: "evtchn_bind_virq E w cur virq k = Some (w', Inr port)" and g: "global_virq (nat (sint virq))"
  shows "\<exists>d1 d2. w' = w(cur \<mapsto> d1) \<and> evtchn_pending d1 = evtchn_pending d \<and>
    send_guest_global_virq E w' (Some cur) (nat (sint virq)) = Some (w(cur \<mapsto> d2)) \<and>
    evtchn_pending d2 = insert port (evtchn_pending d)"
proof (cases rule: evtchn_bind_virq_cases [of w cur d E virq k, OF w E])
  case (1 w1 rc)
  then show ?thesis using b by simp
next
  case (2 d1 p)
  let ?v = "nat (sint virq)"
  have p: "w' = w(cur \<mapsto> d1)" "port = p" using b 2(1) by auto
  have w1: "evtchn_inv w'" "w' cur = Some d1" using p 2(2) by (simp_all add: good_def)
  have k: "nat (sint k) = 0" using 2(6) g by simp
  have vp: "virq_port d1 (0, ?v) = Some port" using 2(9) k p by simp
  then obtain v where v: "vcpu_at d1 0 = Some v" "array_get (virq_to_evtchn v) ?v = Some port" "port \<noteq> 0"
    by (auto simp: virq_port_def split: bind_splits if_splits)
  obtain c where c: "chan d1 port = Some c" by (rule virq_portD [OF w1 vp]) blast
  obtain d2 r where s: "set_pending_on E w' cur (notify_vcpu_id c) port = Some (w'(cur \<mapsto> d2), r)"
    "evtchn_pending d2 = insert port (evtchn_pending d1)"
    by (rule set_pending_on_good [OF w1 chan_okD(2) [OF w1 c]]) blast
  have "vcpu d1 \<noteq> []" "vcpu d1 ! 0 = Some v" using v(1) by (auto simp: vcpu_at_Some)
  then have "send_guest_global_virq E w' (Some cur) ?v = Some (w'(cur \<mapsto> d2))"
    using w1(2) v s(1) chan_from_port [OF c] g virq_is_global_eq [OF 2(4)]
    by (simp add: send_guest_global_virq_def)
  then show ?thesis using p s(2) 2(8) by auto
qed

text \<open>
  C8: No wake-up is lost after \<^verbatim>\<open>do_poll\<close>.  A running VCPU that \<^verbatim>\<open>do_poll\<close> leaves
  blocked is in the polling mask and the call reports success, none of the ports it waits for
  is pending, and an event on any of them, or the expiry of its timer, takes it out of the mask
  and unblocks it.  The call is one step here, so the event comes after it or, being pending, before it;
  \<^verbatim>\<open>set_timer\<close> is not part of it, the expiry is that of a timer that was set.
\<close>

theorem do_poll_no_lost_wakeup:
  assumes d: "arrays_ok d" and v: "vcpu_at d k = Some v" and idle: "VPF_blocked \<notin> pause_flags v"
    and p: "do_poll handle_ok hvm_pending ports d k = Some (d1, rc)"
    and asleep: "vcpu_at d1 k = Some u" "VPF_blocked \<in> pause_flags u"
    and port: "Some port \<in> set ports" and n: "vcpu_at d1 n \<noteq> None"
  shows "rc = 0 \<and> k \<in> poll_mask d1 \<and> unat port \<notin> evtchn_pending d1 \<and>
    (\<exists>d2. evtchn_set_pending E d1 n (unat port) = Some (d2, 0) \<and> released d2 k) \<and>
    (\<exists>d2. poll_timer_fn d1 k = Some d2 \<and> released d2 k)"
proof (cases rule: do_poll_cases [of d k v handle_ok hvm_pending ports, OF v])
  case (1 rc')
  then show ?thesis using p idle asleep v by simp
next
  case (2 rc' v')
  then show ?thesis using p asleep vcpu_at_set_vcpu [of k "d\<lparr>poll_mask := insert k (poll_mask d) - {k}\<rparr>" v' k] vcpu_at_less [OF v] by simp
next
  case (3 u')
  let ?d = "d\<lparr>poll_mask := insert k (poll_mask d)\<rparr>"
  have "d1 = set_vcpu ?d k u'" "rc = 0" using p 3(1) by auto
  moreover have "vcpu_at (set_vcpu ?d k u') k = Some u'"
    using vcpu_at_set_vcpu [of k ?d u'] vcpu_at_less [OF v] by (simp add: max_vcpus_def)
  ultimately have u: "u' = u" "vcpu_at d1 k = Some u" and d1: "d1 = set_vcpu ?d k u" "rc = 0" using asleep(1) by auto
  have km: "k \<in> poll_mask d1" by (simp add: d1)
  have a: "arrays_ok d1"
  proof -
    have "sched_frame ?d d1" unfolding d1(1) by (rule sched_frame_set_vcpu) (use v u(1) 3(2) in \<open>auto simp: vcpu_at_def\<close>)
    moreover have "arrays_ok ?d" using d v pirq_port_cong [of ?d d] by (auto simp: arrays_ok_def vcpu_at_def)
    ultimately show ?thesis by (rule sched_frame_arrays_ok)
  qed
  have np: "unat port \<notin> evtchn_pending d1" "poll_evtchn u \<le> 0 \<or> poll_evtchn u = int (unat port)"
    using 3(4) port u(1) by (auto simp: d1 set_vcpu_def)
  then have po: "polls d1 k (unat port)" using u(2) km by (simp add: polls_def)
  obtain x where "vcpu_at d1 n = Some x" using n by blast
  then obtain d2 r where "evtchn_set_pending E d1 n (unat port) = Some (d2, r)" "r = 0" "released d2 k"
    by (rule evtchn_set_pending_spec [OF a, of n x E "unat port"]) (use np po in auto)
  moreover obtain d2 where "poll_timer_fn d1 k = Some d2" "released d2 k"
  proof -
    let ?e = "d1\<lparr>poll_mask := poll_mask d1 - {k}\<rparr>"
    have "vcpu_at ?e k = Some u" using u(2) by (simp add: vcpu_at_def)
    then obtain d2 u' where s: "vcpu_unblock ?e k = Some d2" "wakes k ?e d2" "vcpu_at d2 k = Some u'"
      "pause_flags u' = pause_flags u - {VPF_blocked}"
      by (rule vcpu_unblock_spec) blast
    have "k \<notin> poll_mask d2" using s(2) by (auto simp: wakes_def)
    then show thesis using that [of d2] s km by (simp add: poll_timer_fn_def released_def)
  qed
  ultimately show ?thesis using d1(2) km np(1) by auto
qed

theorem do_poll_no_lost_wakeup_witness:
  "\<exists>d1. do_poll True False [Some 1] ex_dom2 0 = Some (d1, 0) \<and> 0 \<in> poll_mask d1 \<and>
    (\<exists>d2. evtchn_set_pending ex_env d1 0 1 = Some (d2, 0) \<and> released d2 0)"
proof -
  obtain d1 u where d1: "do_poll True False [Some 1] ex_dom2 0 = Some (d1, 0)" "vcpu_at d1 0 = Some u" "VPF_blocked \<in> pause_flags u"
    by (simp add: do_poll_def ex_dom2_def ex_vcpu_at ex_vcpu_def local_events_need_delivery_def set_vcpu_def Let_def
       MAX_EVTCHNS_def BITS_PER_EVTCHN_WORD_def ex_dom_def vcpu_at_def)
  have "arrays_ok ex_dom2" using dom_okD(2) [OF ex_dom_ok] by (simp add: ex_dom2_def)
  from do_poll_no_lost_wakeup [OF this _ _ d1, of ex_vcpu 1 0 ex_env] show ?thesis
    using d1 by (simp add: ex_dom2_def ex_vcpu_at ex_vcpu_def)
qed

lemma get_free_port_at:
  assumes d: "dom_ok d" "is_dying d = DOMDYING_alive" and p: "chan d p = Some c" "state c = ECS_FREE" "\<forall>q < p. busy d q"
  shows "get_free_port E d = Some (d, int p)"
proof -
  have nb: "\<not> busy d p" using p by (simp add: busy_def)
  have "free_port_loop d 0 (MAX_EVTCHNS d) = Some (Inl p)"
    using free_port_loop_spec [OF d(1), of 0 "MAX_EVTCHNS d"]
  proof (simp, elim disjE exE conjE)
    fix q e assume q: "free_port_loop d 0 (MAX_EVTCHNS d) = Some (Inl q)" "chan d q = Some e" "state e = ECS_FREE" "\<forall>r < q. busy d r"
    have "\<not> busy d q" using q by (simp add: busy_def)
    then have "q = p" using nb p(3) q(4) by (metis linorder_neqE_nat)
    then show ?thesis using q(1) by simp
  next
    fix q assume q: "chan d q = None" "\<forall>r < q. busy d r"
    have "\<not> busy d q" using q by (simp add: busy_def)
    then have "q = p" using nb p(3) q(2) by (metis linorder_neqE_nat)
    then show ?thesis using q(1) p(1) by simp
  qed
  then show ?thesis using d(2) by (simp add: get_free_port_def)
qed

lemma ex_free_port:
  assumes "chan d = chan (ex_dom [ECS_RESERVED])" "dom_ok d" "is_dying d = DOMDYING_alive"
  shows "get_free_port E d = Some (d, 1)" "chan d 1 = Some zero_evtchn"
proof -
  have z: "zero_evtchn\<lparr>state := ECS_FREE\<rparr> = zero_evtchn" by (simp add: zero_evtchn_def)
  then show "chan d 1 = Some zero_evtchn" by (simp add: assms(1) ex_chan)
  then show "get_free_port E d = Some (d, 1)"
    using get_free_port_at [OF assms(2,3), of 1 zero_evtchn] by (simp add: assms(1) ex_chan zero_evtchn_def busy_def)
qed

theorem bind_virq_then_raise_witness:
  "\<exists>w' d1 d2. evtchn_bind_virq ex_env ex_offer 2 3 0 = Some (w', Inr 1) \<and> w' = ex_offer(2 \<mapsto> d1) \<and>
    send_guest_global_virq ex_env w' (Some 2) 3 = Some (ex_offer(2 \<mapsto> d2)) \<and> 1 \<in> evtchn_pending d2"
proof -
  have d: "ex_offer 2 = Some (ex_dom [ECS_RESERVED])" by (simp add: ex_offer_def)
  have ok: "dom_ok (ex_dom [ECS_RESERVED])" by (rule ex_dom_ok) simp
  note f = ex_free_port [OF refl ok ex_dom_sel(4)]
  have g: "global_virq 3" by (simp add: global_virq_def VIRQ_TIMER_def VIRQ_DEBUG_def VIRQ_XENOPROF_def)
  have "\<exists>w'. evtchn_bind_virq ex_env ex_offer 2 3 0 = Some (w', Inr 1)"
    using modify_evtchn_eq [of ex_offer 2 _ 1 zero_evtchn, OF d f(2)] f(1) g d virq_is_global_eq [of 3]
    by (simp add: evtchn_bind_virq_def NR_VIRQS_def ex_vcpu_at ex_vcpu_def max_vcpus_def fun_upd_idem)
  then obtain w' where b: "evtchn_bind_virq ex_env ex_offer 2 3 0 = Some (w', Inr 1)" by blast
  from bind_virq_then_raise [OF ex_offer_inv d ex_env_ok(2) b] g show ?thesis using b by auto
qed

definition ex_builder :: hyp where
  "ex_builder = [0 \<mapsto> (ex_dom [ECS_RESERVED])\<lparr>is_privileged := True\<rparr>, 2 \<mapsto> (ex_dom [ECS_RESERVED])\<lparr>vcpu := []\<rparr>]"

text \<open>
  C37: The code assumes that a domain with a connected channel has its VCPU 0.  For a domain whose
  VCPUs have not been allocated yet, a privileged domain can allocate a port there, connect to
  it, and crash the hypervisor by sending an event: the VCPU to notify is a null pointer.
\<close>

theorem send_to_domain_without_vcpus:
  "\<exists>w1 w2. evtchn_alloc_unbound ex_env ex_builder 0 2 0 = Some (w1, Inr 1) \<and>
     evtchn_bind_interdomain ex_env w1 0 2 1 = Some (w2, Inr 1) \<and>
     evtchn_send ex_env w2 0 1 = None"
proof -
  define x where "x = (ex_dom [ECS_RESERVED])\<lparr>is_privileged := True\<rparr>"
  define y where "y = (ex_dom [ECS_RESERVED])\<lparr>vcpu := []\<rparr>"
  define y1 where "y1 = set_evtchn y 1 (zero_evtchn\<lparr>state := ECS_UNBOUND 0\<rparr>)"
  define x2 where "x2 = set_evtchn x 1 (zero_evtchn\<lparr>state := ECS_INTERDOMAIN 2 1\<rparr>)"
  define y2 where "y2 = set_evtchn y1 1 (zero_evtchn\<lparr>state := ECS_INTERDOMAIN 0 1\<rparr>)"
  have w: "ex_builder = [0 \<mapsto> x, 2 \<mapsto> y]" by (simp add: ex_builder_def x_def y_def)
  have ok: "dom_ok (ex_dom [ECS_RESERVED])" by (rule ex_dom_ok) simp
  have cx: "chan x = chan (ex_dom [ECS_RESERVED])" and cy: "chan y = chan (ex_dom [ECS_RESERVED])"
    by (simp_all add: x_def y_def chan_def port_is_valid_def bucket_from_port_def evtchn_from_port_def
        MAX_EVTCHNS_def BITS_PER_EVTCHN_WORD_def fun_eq_iff)
  have ox: "dom_ok x" and oy: "dom_ok y"
    using ok pirq_port_cong [of x "ex_dom [ECS_RESERVED]"] pirq_port_cong [of y "ex_dom [ECS_RESERVED]"]
    by (simp_all add: x_def y_def dom_ok_def arrays_ok_def MAX_EVTCHNS_def BITS_PER_EVTCHN_WORD_def vcpu_at_def)
  have al: "is_dying x = DOMDYING_alive" "is_dying y = DOMDYING_alive" by (simp_all add: x_def y_def)
  note fx = ex_free_port [OF cx ox al(1)] and fy = ex_free_port [OF cy oy al(2)]
  have oy1: "dom_ok y1" "chan y1 1 = Some (zero_evtchn\<lparr>state := ECS_UNBOUND 0\<rparr>)"
    using dom_ok_set_evtchn [OF oy fy(2)] chan_set_evtchn [OF oy fy(2)] by (simp_all add: y1_def)
  have ox2: "dom_ok x2" "chan x2 1 = Some (zero_evtchn\<lparr>state := ECS_INTERDOMAIN 2 1\<rparr>)"
    using dom_ok_set_evtchn [OF ox fx(2)] chan_set_evtchn [OF ox fx(2)] by (simp_all add: x2_def)
  have oy2: "chan y2 1 = Some (zero_evtchn\<lparr>state := ECS_INTERDOMAIN 0 1\<rparr>)" "vcpu_at y2 0 = None"
    using chan_set_evtchn [OF oy1] by (simp_all add: y2_def y1_def y_def vcpu_at_def array_get_def)
  have v: "vcpu_at x2 0 = Some ex_vcpu" by (simp add: x2_def x_def vcpu_at_def array_get_def)
  obtain x3 r where s: "evtchn_set_pending ex_env x2 0 1 = Some (x3, r)" "sched_frame x2 x3"
    by (rule evtchn_set_pending_spec [OF dom_okD(2) [OF ox2(1)] v]) blast
  have a: "evtchn_alloc_unbound ex_env ex_builder 0 2 0 = Some ([0 \<mapsto> x, 2 \<mapsto> y1], Inr 1)"
    using modify_evtchn_eq [of ex_builder 2 y 1 zero_evtchn] fy
    by (simp add: evtchn_alloc_unbound_def rcu_lock_target_domain_by_id_def IS_PRIV_FOR_def w DOMID_SELF_def
        ex_env_def y1_def fun_upd_idem x_def)
  have n0: "notify_vcpu_id zero_evtchn = 0" and e: "xsm_evtchn_interdomain ex_env = 0"
    by (simp_all add: zero_evtchn_def ex_env_def)
  have b: "evtchn_bind_interdomain ex_env [0 \<mapsto> x, 2 \<mapsto> y1] 0 2 1 = Some ([0 \<mapsto> x3, 2 \<mapsto> y2], Inr 1)"
    using fx oy1(2) chan_valid [OF oy1(2)] chan_from_port [OF oy1(2)] chan_from_port [OF ox2(2)] s(1)
      modify_evtchn_eq [of "[0 \<mapsto> x, 2 \<mapsto> y1]" 0 x 1 zero_evtchn]
      modify_evtchn_eq [of "[0 \<mapsto> x2, 2 \<mapsto> y1]" 2 y1 1 "zero_evtchn\<lparr>state := ECS_UNBOUND 0\<rparr>"]
    by (simp add: evtchn_bind_interdomain_def DOMID_SELF_def Let_def e n0 to_u16_def set_pending_on_def
        x2_def y2_def fun_upd_twist fun_upd_idem)
  have c3: "chan x3 1 = Some (zero_evtchn\<lparr>state := ECS_INTERDOMAIN 2 1\<rparr>)" using sched_frame_chan [OF s(2)] ox2(2) by simp
  have "evtchn_send ex_env [0 \<mapsto> x3, 2 \<mapsto> y2] 0 1 = None"
    using chan_valid [OF c3] chan_from_port [OF c3] chan_from_port [OF oy2(1)] oy2(2)
    by (simp add: evtchn_send_def ex_env_def zero_evtchn_def set_pending_on_def evtchn_set_pending_def)
  then show ?thesis using a b by blast
qed

end
