(* ===== verification/Timer.thy ===== *)
theory Timer
  imports Xen_Prelude
begin

text \<open>
  The timers of \<^verbatim>\<open>xen/common/timer.c\<close> and \<^verbatim>\<open>xen/include/xen/timer.h\<close>.

  A \<^verbatim>\<open>struct timer *\<close> is a number, and the timer structures are a map from these numbers.  Each
  CPU has a queue: a binary heap in an array, whose element 0 holds the size and the limit as
  16-bit numbers, and an overflow list.  The array is a list of the same length with an unused
  element 0; the overflow list, linked through the timers in C, is a list of timers.  The
  union of \<^verbatim>\<open>heap_offset\<close> and \<^verbatim>\<open>list_next\<close> is read through the first name only while the timer
  is in the heap and through the second only while it is in the list.

  Times are signed 64-bit nanoseconds.  \<open>None\<close> is a crash or an endless loop.  Each operation
  runs under the lock of the queue; the softirq handler drops it while it executes a timer, and
  what happens then is an argument.
\<close>

section \<open>Data\<close>

type_synonym tid = nat

datatype timer_status =
    TIMER_STATUS_inactive
  | TIMER_STATUS_killed
  | TIMER_STATUS_in_heap
  | TIMER_STATUS_in_list

record timer =
  expires :: int
  expires_end :: int
  heap_offset :: nat
  fn :: nat
  data :: nat
  cpu :: nat
  status :: timer_status

type_synonym tmap = "tid \<Rightarrow> timer"

record theap =
  heap_size :: nat
  heap_limit :: nat
  slots :: "tid list"

record timers =
  overflow :: bool
  heap :: theap
  tlist :: "tid list"
  running :: "tid option"

record tstate =
  tmr :: tmap
  queue :: "nat \<Rightarrow> timers"
  softirqs :: "nat set"
  deadline_start :: "nat \<Rightarrow> int"
  deadline_end :: "nat \<Rightarrow> int"

text \<open>Truncation to \<^verbatim>\<open>s_time_t\<close> and to the 16 bits of the heap's size and limit.\<close>

definition s64 :: "int \<Rightarrow> int" where
  "s64 x = (x + 2 ^ 63) mod 2 ^ 64 - 2 ^ 63"

definition STIME_MAX :: int where
  "STIME_MAX = 2 ^ 63 - 1"

definition SET_HEAP_SIZE :: "theap \<Rightarrow> nat \<Rightarrow> theap" where
  "SET_HEAP_SIZE h v = h\<lparr>heap_size := v mod 65536\<rparr>"

definition SET_HEAP_LIMIT :: "theap \<Rightarrow> nat \<Rightarrow> theap" where
  "SET_HEAP_LIMIT h v = h\<lparr>heap_limit := v mod 65536\<rparr>"

definition set_offset :: "tmap \<Rightarrow> tid \<Rightarrow> nat \<Rightarrow> tmap" where
  "set_offset tm t p = tm(t := (tm t)\<lparr>heap_offset := p\<rparr>)"

definition set_status :: "tmap \<Rightarrow> tid \<Rightarrow> timer_status \<Rightarrow> tmap" where
  "set_status tm t st = tm(t := (tm t)\<lparr>status := st\<rparr>)"

section \<open>Heap operations\<close>

text \<open>The loops work on the array; they return it with the place where the moving timer goes.\<close>

partial_function (option) down_loop :: "tmap \<Rightarrow> tid list \<Rightarrow> nat \<Rightarrow> tid \<Rightarrow> nat \<Rightarrow> (tmap \<times> tid list \<times> nat) option" where
  "down_loop tm h sz t pos =
     (if 2 * pos \<le> sz then do {
        a \<leftarrow> array_get h (2 * pos);
        nxt \<leftarrow> (if 2 * pos + 1 \<le> sz then do {
                  b \<leftarrow> array_get h (2 * pos + 1);
                  Some (if expires (tm b) < expires (tm a) then 2 * pos + 1 else 2 * pos)
                } else Some (2 * pos));
        x \<leftarrow> array_get h nxt;
        if expires (tm x) > expires (tm t) then Some (tm, h, pos)
        else do {
          h' \<leftarrow> array_set h pos x;
          down_loop (set_offset tm x pos) h' sz t nxt
        }
      } else Some (tm, h, pos))"

definition down_heap :: "tmap \<Rightarrow> theap \<Rightarrow> nat \<Rightarrow> (tmap \<times> theap) option" where
  "down_heap tm hp pos = do {
     t \<leftarrow> array_get (slots hp) pos;
     (tm1, h1, p) \<leftarrow> down_loop tm (slots hp) (heap_size hp) t pos;
     h2 \<leftarrow> array_set h1 p t;
     Some (set_offset tm1 t p, hp\<lparr>slots := h2\<rparr>)
   }"

function up_loop :: "tmap \<Rightarrow> tid list \<Rightarrow> tid \<Rightarrow> nat \<Rightarrow> (tmap \<times> tid list \<times> nat) option" where
  "up_loop tm h t pos =
     (if pos > 1 then do {
        x \<leftarrow> array_get h (pos div 2);
        if expires (tm t) < expires (tm x) then do {
          h' \<leftarrow> array_set h pos x;
          up_loop (set_offset tm x pos) h' t (pos div 2)
        } else Some (tm, h, pos)
      } else Some (tm, h, pos))"
  by pat_completeness auto
termination by (relation "measure (\<lambda>(tm, h, t, pos). pos)") auto

declare up_loop.simps [simp del]

definition up_heap :: "tmap \<Rightarrow> theap \<Rightarrow> nat \<Rightarrow> (tmap \<times> theap) option" where
  "up_heap tm hp pos = do {
     t \<leftarrow> array_get (slots hp) pos;
     (tm1, h1, p) \<leftarrow> up_loop tm (slots hp) t pos;
     h2 \<leftarrow> array_set h1 p t;
     Some (set_offset tm1 t p, hp\<lparr>slots := h2\<rparr>)
   }"

definition remove_from_heap :: "tmap \<Rightarrow> theap \<Rightarrow> tid \<Rightarrow> (tmap \<times> theap \<times> bool) option" where
  "remove_from_heap tm hp t = do {
     let sz = heap_size hp;
     let pos = heap_offset (tm t);
     (if pos = sz then Some (tm, SET_HEAP_SIZE hp (sz - 1), pos = 1)
      else do {
        x \<leftarrow> array_get (slots hp) sz;
        h1 \<leftarrow> array_set (slots hp) pos x;
        let tm1 = set_offset tm x pos;
        let hp1 = SET_HEAP_SIZE (hp\<lparr>slots := h1\<rparr>) (sz - 1);
        up \<leftarrow> (if pos > 1 then do {
                 y \<leftarrow> array_get h1 (pos div 2);
                 Some (expires (tm1 x) < expires (tm1 y))
               } else Some False);
        (tm2, hp2) \<leftarrow> (if up then up_heap tm1 hp1 pos else down_heap tm1 hp1 pos);
        Some (tm2, hp2, pos = 1)
      })
   }"

definition add_to_heap :: "tmap \<Rightarrow> theap \<Rightarrow> tid \<Rightarrow> (tmap \<times> theap \<times> bool) option" where
  "add_to_heap tm hp t =
     (if heap_size hp = heap_limit hp then Some (tm, hp, False)
      else do {
        let sz = heap_size hp + 1;
        h1 \<leftarrow> array_set (slots hp) sz t;
        (tm1, hp1) \<leftarrow> up_heap (set_offset tm t sz) ((SET_HEAP_SIZE hp sz)\<lparr>slots := h1\<rparr>) sz;
        Some (tm1, hp1, heap_offset (tm1 t) = 1)
      })"

section \<open>List operations\<close>

text \<open>The result also tells whether the timer was, or is, the head of the list.\<close>

fun remove_from_list :: "tid list \<Rightarrow> tid \<Rightarrow> (tid list \<times> bool) option" where
  "remove_from_list [] t = None"
| "remove_from_list (x # xs) t =
     (if x = t then Some (xs, True)
      else do { (ys, _) \<leftarrow> remove_from_list xs t; Some (x # ys, False) })"

fun add_to_list :: "tmap \<Rightarrow> tid list \<Rightarrow> tid \<Rightarrow> tid list \<times> bool" where
  "add_to_list tm [] t = ([t], True)"
| "add_to_list tm (x # xs) t =
     (if expires (tm x) \<le> expires (tm t) then (x # fst (add_to_list tm xs t), False)
      else (t # x # xs, True))"

section \<open>Timer operations\<close>

definition set_queue :: "tstate \<Rightarrow> nat \<Rightarrow> timers \<Rightarrow> tstate" where
  "set_queue s c q = s\<lparr>queue := (queue s)(c := q)\<rparr>"

definition remove_entry :: "tstate \<Rightarrow> nat \<Rightarrow> tid \<Rightarrow> (tstate \<times> bool) option" where
  "remove_entry s c t = (let q = queue s c in
     case status (tmr s t) of
       TIMER_STATUS_in_heap \<Rightarrow> do {
         (tm, hp, top) \<leftarrow> remove_from_heap (tmr s) (heap q) t;
         Some ((set_queue s c (q\<lparr>heap := hp\<rparr>))\<lparr>tmr := set_status tm t TIMER_STATUS_inactive\<rparr>, top)
       }
     | TIMER_STATUS_in_list \<Rightarrow> do {
         (l, top) \<leftarrow> remove_from_list (tlist q) t;
         Some ((set_queue s c (q\<lparr>tlist := l\<rparr>))\<lparr>tmr := set_status (tmr s) t TIMER_STATUS_inactive\<rparr>, top)
       }
     | _ \<Rightarrow> None)"

definition add_entry :: "tstate \<Rightarrow> nat \<Rightarrow> tid \<Rightarrow> (tstate \<times> bool) option" where
  "add_entry s c t = do {
     bug_on (status (tmr s t) \<noteq> TIMER_STATUS_inactive);
     let q = queue s c;
     let tm0 = set_status (set_offset (tmr s) t 0) t TIMER_STATUS_in_heap;
     (tm, hp, top) \<leftarrow> add_to_heap tm0 (heap q) t;
     if heap_offset (tm t) \<noteq> 0
     then Some ((set_queue s c (q\<lparr>heap := hp\<rparr>))\<lparr>tmr := tm\<rparr>, top)
     else
       (let tm1 = set_status tm t TIMER_STATUS_in_list; (l, head) = add_to_list tm1 (tlist q) t in
        Some ((set_queue s c (q\<lparr>heap := hp, overflow := True, tlist := l\<rparr>))\<lparr>tmr := tm1\<rparr>, head))
   }"

definition raise_timer_softirq :: "tstate \<Rightarrow> nat \<Rightarrow> tstate" where
  "raise_timer_softirq s c = s\<lparr>softirqs := insert c (softirqs s)\<rparr>"

text \<open>\<^verbatim>\<open>__add_timer\<close> and \<^verbatim>\<open>__stop_timer\<close>.\<close>

definition add_timer :: "tstate \<Rightarrow> tid \<Rightarrow> tstate option" where
  "add_timer s t = do {
     let c = cpu (tmr s t);
     (s', top) \<leftarrow> add_entry s c t;
     Some (if top then raise_timer_softirq s' c else s')
   }"

definition do_stop_timer :: "tstate \<Rightarrow> tid \<Rightarrow> tstate option" where
  "do_stop_timer s t = do {
     let c = cpu (tmr s t);
     (s', top) \<leftarrow> remove_entry s c t;
     Some (if top then raise_timer_softirq s' c else s')
   }"

definition active_timer :: "timer \<Rightarrow> bool" where
  "active_timer x = (status x \<in> {TIMER_STATUS_in_heap, TIMER_STATUS_in_list})"

definition init_timer :: "tstate \<Rightarrow> tid \<Rightarrow> nat \<Rightarrow> nat \<Rightarrow> nat \<Rightarrow> tstate" where
  "init_timer s t f dt c = s\<lparr>tmr := (tmr s)(t := \<lparr>expires = 0, expires_end = 0, heap_offset = 0, fn = f,
     data = dt, cpu = c mod 65536, status = TIMER_STATUS_inactive\<rparr>)\<rparr>"

definition set_timer :: "nat \<Rightarrow> tstate \<Rightarrow> tid \<Rightarrow> int \<Rightarrow> tstate option" where
  "set_timer timer_slop s t ex = do {
     s1 \<leftarrow> (if active_timer (tmr s t) then do_stop_timer s t else Some s);
     let s2 = s1\<lparr>tmr := (tmr s1)(t := (tmr s1 t)\<lparr>expires := ex, expires_end := s64 (ex + int timer_slop)\<rparr>)\<rparr>;
     if status (tmr s2 t) \<noteq> TIMER_STATUS_killed then add_timer s2 t else Some s2
   }"

definition stop_timer :: "tstate \<Rightarrow> tid \<Rightarrow> tstate option" where
  "stop_timer s t = (if active_timer (tmr s t) then do_stop_timer s t else Some s)"

definition set_cpu :: "tstate \<Rightarrow> tid \<Rightarrow> nat \<Rightarrow> tstate" where
  "set_cpu s t c = s\<lparr>tmr := (tmr s)(t := (tmr s t)\<lparr>cpu := c mod 65536\<rparr>)\<rparr>"

definition migrate_timer :: "tstate \<Rightarrow> tid \<Rightarrow> nat \<Rightarrow> tstate option" where
  "migrate_timer s t new_cpu =
     (if cpu (tmr s t) = new_cpu then Some s
      else if active_timer (tmr s t) then do {
        s1 \<leftarrow> do_stop_timer s t;
        add_timer (set_cpu s1 t new_cpu) t
      }
      else Some (set_cpu s t new_cpu))"

text \<open>
  \<^verbatim>\<open>kill_timer\<close>: the loop at the end waits until no CPU executes the timer.  \<open>relax n\<close> is what the
  other processors do during the \<open>n\<close>-th iteration; a wait that never ends is \<open>None\<close>.
\<close>

partial_function (option) wait_cpu :: "(nat \<Rightarrow> tstate \<Rightarrow> tstate) \<Rightarrow> nat \<Rightarrow> tid \<Rightarrow> nat \<Rightarrow> tstate \<Rightarrow> (nat \<times> tstate) option" where
  "wait_cpu relax c t n s =
     (if running (queue s c) = Some t then wait_cpu relax c t (n + 1) (relax n s) else Some (n, s))"

fun wait_all :: "(nat \<Rightarrow> tstate \<Rightarrow> tstate) \<Rightarrow> nat list \<Rightarrow> tid \<Rightarrow> nat \<Rightarrow> tstate \<Rightarrow> tstate option" where
  "wait_all relax [] t n s = Some s"
| "wait_all relax (c # cs) t n s = do {
     (n', s') \<leftarrow> wait_cpu relax c t n s;
     wait_all relax cs t n' s'
   }"

definition mark_killed :: "tstate \<Rightarrow> tid \<Rightarrow> tstate option" where
  "mark_killed s t = do {
     s1 \<leftarrow> (if active_timer (tmr s t) then do_stop_timer s t else Some s);
     Some (s1\<lparr>tmr := set_status (tmr s1) t TIMER_STATUS_killed\<rparr>)
   }"

definition kill_timer :: "(nat \<Rightarrow> tstate \<Rightarrow> tstate) \<Rightarrow> nat list \<Rightarrow> nat \<Rightarrow> tstate \<Rightarrow> tid \<Rightarrow> tstate option" where
  "kill_timer relax online this_cpu s t = do {
     bug_on (running (queue s this_cpu) = Some t);
     s1 \<leftarrow> mark_killed s t;
     wait_all relax online t 0 s1
   }"

section \<open>The softirq handler\<close>

text \<open>
  \<open>callback f dt\<close> is the effect of \<^verbatim>\<open>(*fn)(data)\<close>, together with what other processors do while
  the lock is dropped; \<open>reprogram_timer\<close> is the answer of the timer hardware.
\<close>

record tenv =
  heap_alloc_ok :: bool
  NOW :: int
  callback :: "nat \<Rightarrow> nat \<Rightarrow> tstate \<Rightarrow> tstate"
  reprogram_timer :: "int \<Rightarrow> bool"

definition set_running :: "tstate \<Rightarrow> nat \<Rightarrow> tid option \<Rightarrow> tstate" where
  "set_running s c r = set_queue s c ((queue s c)\<lparr>running := r\<rparr>)"

definition execute_timer :: "tenv \<Rightarrow> nat \<Rightarrow> tid \<Rightarrow> tstate \<Rightarrow> tstate" where
  "execute_timer E c t s =
     set_running (callback E (fn (tmr s t)) (data (tmr s t)) (set_running s c (Some t))) c None"

definition grow_heap :: "tenv \<Rightarrow> nat \<Rightarrow> tstate \<Rightarrow> tstate" where
  "grow_heap E c s = (let q = queue s c; hp = heap q; new_limit = (heap_limit hp + 1) * 16 - 1 in
     if overflow q \<and> heap_alloc_ok E
     then set_queue s c (q\<lparr>heap := SET_HEAP_LIMIT
            (hp\<lparr>slots := take (heap_limit hp + 1) (slots hp) @ replicate (new_limit - heap_limit hp) 0\<rparr>) new_limit\<rparr>)
     else s)"

partial_function (option) run_heap :: "tenv \<Rightarrow> nat \<Rightarrow> int \<Rightarrow> tstate \<Rightarrow> tstate option" where
  "run_heap E c now s =
     (if heap_size (heap (queue s c)) \<noteq> 0 then do {
        t \<leftarrow> array_get (slots (heap (queue s c))) 1;
        if expires (tmr s t) < now then do {
          (tm, hp, _) \<leftarrow> remove_from_heap (tmr s) (heap (queue s c)) t;
          run_heap E c now (execute_timer E c t
            ((set_queue s c ((queue s c)\<lparr>heap := hp\<rparr>))\<lparr>tmr := set_status tm t TIMER_STATUS_inactive\<rparr>))
        } else Some s
      } else Some s)"

partial_function (option) run_list :: "tenv \<Rightarrow> nat \<Rightarrow> int \<Rightarrow> tstate \<Rightarrow> tstate option" where
  "run_list E c now s =
     (case tlist (queue s c) of
        [] \<Rightarrow> Some s
      | t # l \<Rightarrow>
          if expires (tmr s t) < now
          then run_list E c now (execute_timer E c t
            ((set_queue s c ((queue s c)\<lparr>tlist := l\<rparr>))\<lparr>tmr := set_status (tmr s) t TIMER_STATUS_inactive\<rparr>))
          else Some s)"

fun requeue :: "nat \<Rightarrow> tid list \<Rightarrow> tstate \<Rightarrow> tstate option" where
  "requeue c [] s = Some s"
| "requeue c (t # ts) s = do {
     (s', _) \<leftarrow> add_entry (s\<lparr>tmr := set_status (tmr s) t TIMER_STATUS_inactive\<rparr>) c t;
     requeue c ts s'
   }"

text \<open>The loop that takes the timers of one deadline range from the heap.\<close>

partial_function (option) batch :: "nat \<Rightarrow> int \<Rightarrow> int \<Rightarrow> tstate \<Rightarrow> (tstate \<times> int \<times> int) option" where
  "batch c start stop s =
     (if heap_size (heap (queue s c)) \<noteq> 0 then do {
        t \<leftarrow> array_get (slots (heap (queue s c))) 1;
        if expires (tmr s t) \<le> stop then do {
          (s1, _) \<leftarrow> remove_entry s c t;
          let s2 = (set_queue s1 c ((queue s1 c)\<lparr>tlist := tlist (queue s1 c) @ [t]\<rparr>))
                     \<lparr>tmr := set_status (tmr s1) t TIMER_STATUS_in_list\<rparr>;
          batch c (expires (tmr s2 t)) (min stop (expires_end (tmr s2 t))) s2
        } else Some (s, start, stop)
      } else Some (s, start, stop))"

definition set_deadline :: "tstate \<Rightarrow> nat \<Rightarrow> int \<Rightarrow> int \<Rightarrow> tstate" where
  "set_deadline s c a b = s\<lparr>deadline_start := (deadline_start s)(c := a), deadline_end := (deadline_end s)(c := b)\<rparr>"

definition pick_deadline :: "nat \<Rightarrow> tstate \<Rightarrow> tstate option" where
  "pick_deadline c s = (let q = queue s c in
     case tlist q of
       u # _ \<Rightarrow>
         (if heap_size (heap q) \<noteq> 0 then do {
            t \<leftarrow> array_get (slots (heap q)) 1;
            let st = min (expires (tmr s t)) (expires (tmr s u));
            Some (set_deadline (set_queue s c (q\<lparr>overflow := True\<rparr>)) c st st)
          } else Some (set_deadline (set_queue s c (q\<lparr>overflow := True\<rparr>)) c (expires (tmr s u)) (expires (tmr s u))))
     | [] \<Rightarrow> do {
         (s1, st, en) \<leftarrow> batch c 0 STIME_MAX (set_queue s c (q\<lparr>overflow := False\<rparr>));
         Some (set_deadline s1 c st en)
       })"

definition timer_softirq_action :: "tenv \<Rightarrow> nat \<Rightarrow> tstate \<Rightarrow> tstate option" where
  "timer_softirq_action E c s = do {
     s1 \<leftarrow> run_heap E c (NOW E) (grow_heap E c s);
     s2 \<leftarrow> run_list E c (NOW E) s1;
     s3 \<leftarrow> requeue c (tlist (queue s2 c)) (set_queue s2 c ((queue s2 c)\<lparr>tlist := []\<rparr>));
     s4 \<leftarrow> pick_deadline c s3;
     Some (if reprogram_timer E (deadline_start s4 c) then s4 else raise_timer_softirq s4 c)
   }"

text \<open>\<^verbatim>\<open>%\<close> on a signed and an unsigned 64-bit operand is unsigned.\<close>

definition align_timer :: "64 word \<Rightarrow> 64 word \<Rightarrow> 64 word" where
  "align_timer firsttick period =
     (if period = 0 then firsttick else firsttick + (period - 1) - ((firsttick - 1) mod period))"

definition timer_init :: "tmap \<Rightarrow> tstate" where
  "timer_init tm = \<lparr>tmr = tm,
     queue = (\<lambda>_. \<lparr>overflow = False, heap = \<lparr>heap_size = 0, heap_limit = 0, slots = [0]\<rparr>, tlist = [], running = None\<rparr>),
     softirqs = {}, deadline_start = (\<lambda>_. 0), deadline_end = (\<lambda>_. 0)\<rparr>"

end
