(* ===== verification/Timer_Heap.thy ===== *)
theory Timer_Heap
  imports Timer
begin

text \<open>
  The binary heap of \<^verbatim>\<open>timer.c\<close>: what \<^verbatim>\<open>up_heap\<close>, \<^verbatim>\<open>down_heap\<close>, \<^verbatim>\<open>remove_from_heap\<close> and
  \<^verbatim>\<open>add_to_heap\<close> do to the set of timers in the heap, to the heap order and to the offsets that
  the timers record.
\<close>

section \<open>Invariant\<close>

text \<open>The edge from \<open>i div 2\<close> to \<open>i\<close> is in order.\<close>

definition edge :: "tmap \<Rightarrow> tid list \<Rightarrow> nat \<Rightarrow> bool" where
  "edge tm h i \<longleftrightarrow> expires (tm (h ! (i div 2))) \<le> expires (tm (h ! i))"

definition elems :: "tid list \<Rightarrow> nat \<Rightarrow> tid set" where
  "elems h sz = (!) h ` {1..sz}"

definition offsets_ok :: "tmap \<Rightarrow> tid list \<Rightarrow> nat \<Rightarrow> bool" where
  "offsets_ok tm h sz \<longleftrightarrow> (\<forall>i \<in> {1..sz}. heap_offset (tm (h ! i)) = i)"

definition heap_ok :: "tmap \<Rightarrow> theap \<Rightarrow> bool" where
  "heap_ok tm hp \<longleftrightarrow>
     heap_size hp \<le> heap_limit hp \<and> heap_limit hp < 65536 \<and> heap_limit hp < length (slots hp) \<and>
     offsets_ok tm (slots hp) (heap_size hp) \<and> (\<forall>i \<in> {2..heap_size hp}. edge tm (slots hp) i)"

definition heap_set :: "theap \<Rightarrow> tid set" where
  "heap_set hp = elems (slots hp) (heap_size hp)"

text \<open>\<open>tm'\<close> differs from \<open>tm\<close> at most in the offsets of the timers in \<open>S\<close>.\<close>

definition moved :: "tid set \<Rightarrow> tmap \<Rightarrow> tmap \<Rightarrow> bool" where
  "moved S tm tm' \<longleftrightarrow> (\<forall>x. tm' x = (tm x)\<lparr>heap_offset := heap_offset (tm' x)\<rparr> \<and> (x \<notin> S \<longrightarrow> tm' x = tm x))"

lemma moved_refl [simp]: "moved S tm tm"
  by (simp add: moved_def)

lemma moved_trans: "moved S a b \<Longrightarrow> moved S b c \<Longrightarrow> moved S a c"
  unfolding moved_def by (metis timer.surjective timer.update_convs(3))

lemma moved_mono: "moved S a b \<Longrightarrow> S \<subseteq> T \<Longrightarrow> moved T a b"
  unfolding moved_def by blast

lemma moved_set_offset: "x \<in> S \<Longrightarrow> moved S tm (set_offset tm x p)"
  by (simp add: moved_def set_offset_def)

lemma moved_sel:
  assumes "moved S tm tm'"
  shows "expires (tm' x) = expires (tm x)" "expires_end (tm' x) = expires_end (tm x)" "fn (tm' x) = fn (tm x)"
    "data (tm' x) = data (tm x)" "cpu (tm' x) = cpu (tm x)" "status (tm' x) = status (tm x)"
  using assms unfolding moved_def
  by (metis timer.select_convs timer.surjective timer.update_convs(3))+

lemma set_offset_sel [simp]:
  "expires (set_offset tm x p y) = expires (tm y)" "status (set_offset tm x p y) = status (tm y)"
  "heap_offset (set_offset tm x p y) = (if y = x then p else heap_offset (tm y))"
  by (simp_all add: set_offset_def)

section \<open>Sifting\<close>

text \<open>
  The state of a sifting loop: timer \<open>t\<close> is on its way to the hole at \<open>pos\<close>; all other timers
  of the heap know their places.
\<close>

definition hole :: "tmap \<Rightarrow> tid list \<Rightarrow> nat \<Rightarrow> tid \<Rightarrow> nat \<Rightarrow> bool" where
  "hole tm h sz t pos \<longleftrightarrow>
     1 \<le> pos \<and> pos \<le> sz \<and> sz < length h \<and> (\<forall>i \<in> {1..sz} - {pos}. heap_offset (tm (h ! i)) = i \<and> h ! i \<noteq> t)"

lemma hole_step:
  assumes h: "hole tm h sz t pos" and q: "1 \<le> q" "q \<le> sz" "q \<noteq> pos"
  shows "hole (set_offset tm (h ! q) pos) (h[pos := h ! q]) sz t q"
    "elems (h[pos := h ! q, q := t]) sz = elems (h[pos := t]) sz"
proof -
  have len: "pos < length h" "q < length h" using h q by (auto simp: hole_def)
  have ne: "h ! i \<noteq> h ! q" if "i \<in> {1..sz}" "i \<noteq> q" "i \<noteq> pos" for i
    using h q that unfolding hole_def by (metis Diff_iff atLeastAtMost_iff singletonD)
  show "hole (set_offset tm (h ! q) pos) (h[pos := h ! q]) sz t q"
    using h q ne len by (auto simp: hole_def nth_list_update)
  show "elems (h[pos := h ! q, q := t]) sz = elems (h[pos := t]) sz" (is "?A = ?B")
  proof
    show "?A \<subseteq> ?B"
    proof
      fix x assume "x \<in> ?A"
      then obtain i where i: "i \<in> {1..sz}" "x = h[pos := h ! q, q := t] ! i" by (auto simp: elems_def)
      define j where "j = (if i = q then pos else if i = pos then q else i)"
      have "x = h[pos := t] ! j" "j \<in> {1..sz}"
        using i q h len by (auto simp: j_def nth_list_update hole_def)
      then show "x \<in> ?B" by (auto simp: elems_def)
    qed
    show "?B \<subseteq> ?A"
    proof
      fix x assume "x \<in> ?B"
      then obtain i where i: "i \<in> {1..sz}" "x = h[pos := t] ! i" by (auto simp: elems_def)
      define j where "j = (if i = q then pos else if i = pos then q else i)"
      have "x = h[pos := h ! q, q := t] ! j" "j \<in> {1..sz}"
        using i q h len by (auto simp: j_def nth_list_update hole_def)
      then show "x \<in> ?A" by (auto simp: elems_def)
    qed
  qed
qed

text \<open>What a sifting loop achieves from a hole.\<close>

definition sifted :: "tmap \<Rightarrow> tid list \<Rightarrow> nat \<Rightarrow> tid \<Rightarrow> nat \<Rightarrow> tmap \<Rightarrow> tid list \<Rightarrow> nat \<Rightarrow> bool" where
  "sifted tm h sz t pos tm' h' p \<longleftrightarrow>
     hole tm' h' sz t p \<and> length h' = length h \<and> elems (h'[p := t]) sz = elems (h[pos := t]) sz \<and>
     moved (elems (h[pos := t]) sz) tm tm' \<and> (\<forall>i \<in> {2..sz}. edge tm' (h'[p := t]) i)"

lemma edge_cong:
  assumes "\<And>x. expires (tm' x) = expires (tm x)"
  shows "edge tm' h i = edge tm h i"
  by (simp add: edge_def assms)

lemma elem_in: "1 \<le> q \<Longrightarrow> q \<le> sz \<Longrightarrow> q \<noteq> pos \<Longrightarrow> h ! q \<in> elems (h[pos := t]) sz"
  unfolding elems_def by (rule image_eqI [of _ _ q]) auto

lemma sifted_step:
  assumes h: "hole tm h sz t pos" and q: "1 \<le> q" "q \<le> sz" "q \<noteq> pos"
    and s: "sifted (set_offset tm (h ! q) pos) (h[pos := h ! q]) sz t q tm' h' p"
  shows "sifted tm h sz t pos tm' h' p"
proof -
  let ?S = "elems (h[pos := t]) sz"
  have e: "elems (h[pos := h ! q, q := t]) sz = ?S" by (rule hole_step(2) [OF h q])
  have "moved ?S tm (set_offset tm (h ! q) pos)" by (rule moved_set_offset [OF elem_in [OF q]])
  then have "moved ?S tm tm'" using s e moved_trans unfolding sifted_def by metis
  then show ?thesis using s e by (simp add: sifted_def)
qed

lemma half_cases: "(i :: nat) div 2 = pos \<longleftrightarrow> i = 2 * pos \<or> i = 2 * pos + 1"
  by presburger

lemma down_loop_spec:
  assumes "hole tm h sz t pos"
    and "\<forall>i \<in> {2..sz}. i div 2 \<noteq> pos \<longrightarrow> edge tm (h[pos := t]) i"
    and "\<forall>i \<in> {2..sz}. i div 2 = pos \<longrightarrow> pos > 1 \<longrightarrow> expires (tm (h ! (pos div 2))) \<le> expires (tm (h ! i))"
  shows "\<exists>tm' h' p. down_loop tm h sz t pos = Some (tm', h', p) \<and> sifted tm h sz t pos tm' h' p"
  using assms
proof (induction "sz - pos" arbitrary: tm h pos rule: less_induct)
  case less
  note h = less.prems(1) and ed = less.prems(2) and up = less.prems(3)
  have pos: "1 \<le> pos" "pos \<le> sz" "sz < length h" using h by (auto simp: hole_def)
  show ?case
  proof (cases "2 * pos \<le> sz")
    case False
    have "\<forall>i \<in> {2..sz}. i div 2 \<noteq> pos" using False by auto
    then have "sifted tm h sz t pos tm h pos" using h ed by (simp add: sifted_def)
    moreover have "down_loop tm h sz t pos = Some (tm, h, pos)" using False by (subst down_loop.simps) simp
    ultimately show ?thesis by blast
  next
    case True
    define q where "q = (if 2 * pos + 1 \<le> sz \<and> expires (tm (h ! (2 * pos + 1))) < expires (tm (h ! (2 * pos)))
      then 2 * pos + 1 else 2 * pos)"
    have q: "1 \<le> q" "q \<le> sz" "q \<noteq> pos" "q div 2 = pos" "pos < q" using True pos by (auto simp: q_def)
    have min: "expires (tm (h ! q)) \<le> expires (tm (h ! i))" if "i \<in> {2..sz}" "i div 2 = pos" for i
      using that by (auto simp: q_def half_cases)
    have unfold: "down_loop tm h sz t pos = (if expires (tm (h ! q)) > expires (tm t) then Some (tm, h, pos)
        else down_loop (set_offset tm (h ! q) pos) (h[pos := h ! q]) sz t q)"
      using True pos by (subst down_loop.simps) (auto simp: q_def)
    show ?thesis
    proof (cases "expires (tm (h ! q)) > expires (tm t)")
      case brk: True
      have "edge tm (h[pos := t]) i" if i: "i \<in> {2..sz}" for i
      proof (cases "i div 2 = pos")
        case True
        then show ?thesis using min [OF i True] brk pos by (auto simp: edge_def nth_list_update)
      qed (use ed i in auto)
      then have "sifted tm h sz t pos tm h pos" using h by (simp add: sifted_def)
      then show ?thesis using unfold brk by auto
    next
      case False
      let ?tm = "set_offset tm (h ! q) pos" and ?h = "h[pos := h ! q]"
      have "\<exists>tm' h' p. down_loop ?tm ?h sz t q = Some (tm', h', p) \<and> sifted ?tm ?h sz t q tm' h' p"
      proof (rule less.hyps)
        show "sz - q < sz - pos" using q by linarith
        show "hole ?tm ?h sz t q" by (rule hole_step(1) [OF h q(1-3)])
        show "\<forall>i \<in> {2..sz}. i div 2 \<noteq> q \<longrightarrow> edge ?tm (?h[q := t]) i"
        proof (intro ballI impI)
          fix i assume i: "i \<in> {2..sz}" "i div 2 \<noteq> q"
          show "edge ?tm (?h[q := t]) i"
          proof (cases "i div 2 = pos")
            case True
            then show ?thesis using min [OF i(1) True] False i pos q by (auto simp: edge_def nth_list_update)
          next
            case other: False
            show ?thesis
            proof (cases "i = pos")
              case True
              then show ?thesis using up i q pos by (auto simp: edge_def nth_list_update)
            next
              case False
              then have "i \<noteq> q" using other q by auto
              moreover have "edge tm (h[pos := t]) i" using ed i other by auto
              ultimately show ?thesis using False other i pos q by (auto simp: edge_def nth_list_update)
            qed
          qed
        qed
        show "\<forall>i \<in> {2..sz}. i div 2 = q \<longrightarrow> q > 1 \<longrightarrow> expires (?tm (?h ! (q div 2))) \<le> expires (?tm (?h ! i))"
        proof (intro ballI impI)
          fix i assume i: "i \<in> {2..sz}" "i div 2 = q"
          then have "edge tm (h[pos := t]) i" "i \<noteq> pos" using ed q by auto
          then show "expires (?tm (?h ! (q div 2))) \<le> expires (?tm (?h ! i))"
            using i q pos by (auto simp: edge_def nth_list_update)
        qed
      qed
      then show ?thesis using unfold False sifted_step [OF h q(1-3)] by auto
    qed
  qed
qed

lemma up_loop_spec:
  assumes "hole tm h sz t pos"
    and "\<forall>i \<in> {2..sz}. i \<noteq> pos \<longrightarrow> edge tm (h[pos := t]) i"
    and "\<forall>i \<in> {2..sz}. i div 2 = pos \<longrightarrow> pos > 1 \<longrightarrow> expires (tm (h ! (pos div 2))) \<le> expires (tm (h ! i))"
  shows "\<exists>tm' h' p. up_loop tm h t pos = Some (tm', h', p) \<and> sifted tm h sz t pos tm' h' p"
  using assms
proof (induction pos arbitrary: tm h rule: less_induct)
  case (less pos)
  note h = less.prems(1) and ed = less.prems(2) and up = less.prems(3)
  have pos: "1 \<le> pos" "pos \<le> sz" "sz < length h" using h by (auto simp: hole_def)
  show ?case
  proof (cases "pos > 1 \<and> expires (tm t) < expires (tm (h ! (pos div 2)))")
    case False
    have "edge tm (h[pos := t]) i" if "i \<in> {2..sz}" for i
      using False ed that pos by (cases "i = pos") (auto simp: edge_def nth_list_update)
    then have "sifted tm h sz t pos tm h pos" using h by (simp add: sifted_def)
    moreover have "up_loop tm h t pos = Some (tm, h, pos)" using False pos by (subst up_loop.simps) auto
    ultimately show ?thesis by blast
  next
    case True
    define q where "q = pos div 2"
    have q: "1 \<le> q" "q \<le> sz" "q \<noteq> pos" "q < pos" using True pos by (auto simp: q_def)
    let ?tm = "set_offset tm (h ! q) pos" and ?h = "h[pos := h ! q]"
    have unfold: "up_loop tm h t pos = up_loop ?tm ?h t q"
      using True pos q by (subst up_loop.simps) (auto simp: q_def)
    have "\<exists>tm' h' p. up_loop ?tm ?h t q = Some (tm', h', p) \<and> sifted ?tm ?h sz t q tm' h' p"
    proof (rule less.IH [OF q(4)])
      show "hole ?tm ?h sz t q" by (rule hole_step(1) [OF h q(1-3)])
      show "\<forall>i \<in> {2..sz}. i \<noteq> q \<longrightarrow> edge ?tm (?h[q := t]) i"
      proof (intro ballI impI)
        fix i assume i: "i \<in> {2..sz}" "i \<noteq> q"
        show "edge ?tm (?h[q := t]) i"
        proof (cases "i = pos")
          case True
          then show ?thesis using \<open>pos > 1 \<and> _\<close> pos q by (auto simp: edge_def nth_list_update q_def)
        next
          case False
          then have e: "edge tm (h[pos := t]) i" using ed i by auto
          show ?thesis
          proof (cases "i div 2 = pos")
            case True
            then show ?thesis using up i False q \<open>pos > 1 \<and> _\<close> pos by (auto simp: edge_def nth_list_update q_def)
          next
            case other: False
            show ?thesis
              using e i False other q \<open>pos > 1 \<and> _\<close> pos
              by (cases "i div 2 = q") (auto simp: edge_def nth_list_update q_def)
          qed
        qed
      qed
      show "\<forall>i \<in> {2..sz}. i div 2 = q \<longrightarrow> q > 1 \<longrightarrow> expires (?tm (?h ! (q div 2))) \<le> expires (?tm (?h ! i))"
      proof (intro ballI impI)
        fix i assume i: "i \<in> {2..sz}" "i div 2 = q" "q > 1"
        have "edge tm (h[pos := t]) q" using ed q i by auto
        then have g: "expires (tm (h ! (q div 2))) \<le> expires (tm (h ! q))" using q by (auto simp: edge_def nth_list_update)
        show "expires (?tm (?h ! (q div 2))) \<le> expires (?tm (?h ! i))"
        proof (cases "i = pos")
          case True
          then show ?thesis using g q pos by (auto simp: nth_list_update)
        next
          case False
          then have "edge tm (h[pos := t]) i" using ed i by auto
          then show ?thesis using g i q False by (auto simp: edge_def nth_list_update)
        qed
      qed
    qed
    then show ?thesis using unfold sifted_step [OF h q(1-3)] by auto
  qed
qed

section \<open>Removing and adding\<close>

lemma sifted_finish:
  assumes s: "sifted tm h sz t pos tm' h' p" and t: "t \<in> elems (h[pos := t]) sz"
    and tm2: "tm2 = set_offset tm' t p" and h2: "h2 = h'[p := t]"
  shows "p < length h'" "length h2 = length h" "offsets_ok tm2 h2 sz" "\<forall>i \<in> {2..sz}. edge tm2 h2 i"
    "elems h2 sz = elems (h[pos := t]) sz" "moved (elems (h[pos := t]) sz) tm tm2"
proof -
  have ho: "hole tm' h' sz t p" "length h' = length h" using s by (auto simp: sifted_def)
  then show "p < length h'" "length h2 = length h" using h2 by (auto simp: hole_def)
  show "elems h2 sz = elems (h[pos := t]) sz" using s h2 by (simp add: sifted_def)
  show "moved (elems (h[pos := t]) sz) tm tm2"
    using s moved_trans moved_set_offset [OF t] tm2 unfolding sifted_def by metis
  show "\<forall>i \<in> {2..sz}. edge tm2 h2 i"
    using s edge_cong [of tm2 tm'] by (simp add: sifted_def tm2 h2)
  show "offsets_ok tm2 h2 sz"
    unfolding offsets_ok_def
  proof
    fix i assume i: "i \<in> {1..sz}"
    show "heap_offset (tm2 (h2 ! i)) = i"
      using ho(1) i by (cases "i = p") (auto simp: hole_def tm2 h2)
  qed
qed

lemma self_elem: "1 \<le> pos \<Longrightarrow> pos \<le> sz \<Longrightarrow> sz < length h \<Longrightarrow> t \<in> elems (h[pos := t]) sz"
  unfolding elems_def by (rule image_eqI [of _ _ pos]) auto

lemma hole_self:
  assumes p: "1 \<le> pos" "pos \<le> sz" "sz < length h" and off: "offsets_ok tm h sz"
  shows "hole tm h sz (h ! pos) pos"
proof -
  have "heap_offset (tm (h ! pos)) = pos" using off p by (simp add: offsets_ok_def)
  moreover have "heap_offset (tm (h ! i)) = i" if "i \<in> {1..sz}" for i using off that by (simp add: offsets_ok_def)
  ultimately have "heap_offset (tm (h ! i)) = i \<and> h ! i \<noteq> h ! pos" if "i \<in> {1..sz} - {pos}" for i
    using that by fastforce
  then show ?thesis using p by (simp add: hole_def)
qed

definition heap_view :: "tmap \<Rightarrow> theap \<Rightarrow> tmap \<Rightarrow> theap \<Rightarrow> bool" where
  "heap_view tm hp tm' hp' \<longleftrightarrow>
     (\<exists>h. hp' = hp\<lparr>slots := h\<rparr> \<and> length h = length (slots hp) \<and> elems h (heap_size hp) = heap_set hp \<and>
       offsets_ok tm' h (heap_size hp) \<and> (\<forall>i \<in> {2..heap_size hp}. edge tm' h i)) \<and>
     moved (heap_set hp) tm tm'"

lemma up_heap_spec:
  assumes p: "1 \<le> pos" "pos \<le> heap_size hp" "heap_size hp < length (slots hp)"
    and off: "offsets_ok tm (slots hp) (heap_size hp)"
    and ed: "\<forall>i \<in> {2..heap_size hp}. i \<noteq> pos \<longrightarrow> edge tm (slots hp) i"
    and up: "\<forall>i \<in> {2..heap_size hp}. i div 2 = pos \<longrightarrow> pos > 1 \<longrightarrow>
      expires (tm (slots hp ! (pos div 2))) \<le> expires (tm (slots hp ! i))"
  obtains tm' hp' where "up_heap tm hp pos = Some (tm', hp')" "heap_view tm hp tm' hp'"
proof -
  let ?h = "slots hp" and ?t = "slots hp ! pos" and ?sz = "heap_size hp"
  have id: "?h[pos := ?t] = ?h" by simp
  have "hole tm ?h ?sz ?t pos" by (rule hole_self [OF p off])
  then obtain tm' h' q where u: "up_loop tm ?h ?t pos = Some (tm', h', q)" "sifted tm ?h ?sz ?t pos tm' h' q"
    using up_loop_spec [of tm ?h ?sz ?t pos] ed up id by auto
  note f = sifted_finish [OF u(2) self_elem [OF p] refl refl, unfolded id]
  have "up_heap tm hp pos = Some (set_offset tm' ?t q, hp\<lparr>slots := h'[q := ?t]\<rparr>)"
    using p u(1) f(1) by (simp add: up_heap_def)
  then show thesis using that f unfolding heap_view_def heap_set_def by blast
qed

lemma down_heap_spec:
  assumes p: "1 \<le> pos" "pos \<le> heap_size hp" "heap_size hp < length (slots hp)"
    and off: "offsets_ok tm (slots hp) (heap_size hp)"
    and ed: "\<forall>i \<in> {2..heap_size hp}. i div 2 \<noteq> pos \<longrightarrow> edge tm (slots hp) i"
    and up: "\<forall>i \<in> {2..heap_size hp}. i div 2 = pos \<longrightarrow> pos > 1 \<longrightarrow>
      expires (tm (slots hp ! (pos div 2))) \<le> expires (tm (slots hp ! i))"
  obtains tm' hp' where "down_heap tm hp pos = Some (tm', hp')" "heap_view tm hp tm' hp'"
proof -
  let ?h = "slots hp" and ?t = "slots hp ! pos" and ?sz = "heap_size hp"
  have id: "?h[pos := ?t] = ?h" by simp
  have "hole tm ?h ?sz ?t pos" by (rule hole_self [OF p off])
  then obtain tm' h' q where u: "down_loop tm ?h ?sz ?t pos = Some (tm', h', q)" "sifted tm ?h ?sz ?t pos tm' h' q"
    using down_loop_spec [of tm ?h ?sz ?t pos] ed up id by auto
  note f = sifted_finish [OF u(2) self_elem [OF p] refl refl, unfolded id]
  have "down_heap tm hp pos = Some (set_offset tm' ?t q, hp\<lparr>slots := h'[q := ?t]\<rparr>)"
    using p u(1) f(1) by (simp add: down_heap_def)
  then show thesis using that f unfolding heap_view_def heap_set_def by blast
qed

lemma heap_okD:
  assumes "heap_ok tm hp"
  shows "heap_size hp < 65536" "heap_size hp < length (slots hp)"
    "i \<in> {1..heap_size hp} \<Longrightarrow> heap_offset (tm (slots hp ! i)) = i"
    "i \<in> {2..heap_size hp} \<Longrightarrow> edge tm (slots hp) i"
  using assms by (auto simp: heap_ok_def offsets_ok_def)

lemma heap_set_offset:
  assumes "heap_ok tm hp" "t \<in> heap_set hp"
  shows "heap_offset (tm t) \<in> {1..heap_size hp}" "slots hp ! heap_offset (tm t) = t"
proof -
  obtain i where i: "i \<in> {1..heap_size hp}" "t = slots hp ! i" using assms(2) by (auto simp: heap_set_def elems_def)
  then show "heap_offset (tm t) \<in> {1..heap_size hp}" "slots hp ! heap_offset (tm t) = t"
    using heap_okD(3) [OF assms(1) i(1)] by auto
qed

lemma heap_slot_inj:
  assumes "heap_ok tm hp" "i \<in> {1..heap_size hp}" "j \<in> {1..heap_size hp}" "slots hp ! i = slots hp ! j"
  shows "i = j"
  using heap_okD(3) [OF assms(1,2)] heap_okD(3) [OF assms(1,3)] assms(4) by metis

text \<open>The first slot holds a timer that expires first.\<close>

lemma heap_top_min:
  assumes "heap_ok tm hp" "i \<in> {1..heap_size hp}"
  shows "expires (tm (slots hp ! 1)) \<le> expires (tm (slots hp ! i))"
  using assms(2)
proof (induction i rule: less_induct)
  case (less i)
  show ?case
  proof (cases "i = 1")
    case False
    then have "expires (tm (slots hp ! 1)) \<le> expires (tm (slots hp ! (i div 2)))" using less by auto
    moreover have "edge tm (slots hp) i" using heap_okD(4) [OF assms(1)] less.prems False by auto
    ultimately show ?thesis by (simp add: edge_def)
  qed simp
qed

lemma heap_view_ok:
  assumes v: "heap_view tm hp tm' hp'" and hp: "heap_size hp \<le> heap_limit hp" "heap_limit hp < 65536" "heap_limit hp < length (slots hp)"
  shows "heap_ok tm' hp'" "heap_set hp' = heap_set hp" "moved (heap_set hp) tm tm'" "heap_limit hp' = heap_limit hp"
    "heap_size hp' = heap_size hp"
  using assms by (auto simp: heap_view_def heap_ok_def heap_set_def)

lemma heap_set_minus:
  assumes "heap_ok tm hp" "1 \<le> pos" "pos \<le> heap_size hp"
  shows "(!) (slots hp) ` ({1..heap_size hp} - {pos}) = heap_set hp - {slots hp ! pos}"
proof -
  have "inj_on ((!) (slots hp)) {1..heap_size hp}"
    by (rule inj_onI) (rule heap_slot_inj [OF assms(1)])
  then have "(!) (slots hp) ` ({1..heap_size hp} - {pos}) = (!) (slots hp) ` {1..heap_size hp} - (!) (slots hp) ` {pos}"
    by (rule inj_on_image_set_diff) (use assms in auto)
  then show ?thesis by (simp add: heap_set_def elems_def)
qed

text \<open>The last timer replaces the one at \<open>pos\<close>.\<close>

lemma replace_last:
  assumes hp: "heap_ok tm hp" and p: "1 \<le> pos" "pos < heap_size hp"
    and x: "x = slots hp ! heap_size hp" and h: "h = (slots hp)[pos := x]" and tm1: "tm1 = set_offset tm x pos"
    and sz: "sz = heap_size hp - 1"
  shows "offsets_ok tm1 h sz" "elems h sz = heap_set hp - {slots hp ! pos}"
    "\<And>i. i \<in> {2..sz} \<Longrightarrow> i \<noteq> pos \<Longrightarrow> i div 2 \<noteq> pos \<Longrightarrow> edge tm1 h i"
    "\<And>i. i \<in> {2..sz} \<Longrightarrow> i div 2 = pos \<Longrightarrow> pos > 1 \<Longrightarrow> expires (tm1 (h ! (pos div 2))) \<le> expires (tm1 (h ! i))"
proof -
  note len = heap_okD(2) [OF hp]
  have in_hp: "i \<in> {2..heap_size hp}" if "i \<in> {2..sz}" for i using that sz by auto
  have inj: "slots hp ! i \<noteq> x" if "i \<in> {1..sz}" for i
  proof
    assume "slots hp ! i = x"
    moreover have "i \<in> {1..heap_size hp}" "heap_size hp \<in> {1..heap_size hp}" using that sz p by auto
    ultimately have "i = heap_size hp" using heap_slot_inj [OF hp] x by blast
    then show False using that sz p by simp
  qed
  show "offsets_ok tm1 h sz"
    unfolding offsets_ok_def
  proof
    fix i assume i: "i \<in> {1..sz}"
    then have "heap_offset (tm (slots hp ! i)) = i" using heap_okD(3) [OF hp, of i] sz by auto
    then show "heap_offset (tm1 (h ! i)) = i" using inj [OF i] i len p by (cases "i = pos") (simp_all add: h tm1)
  qed
  show "elems h sz = heap_set hp - {slots hp ! pos}"
  proof -
    have "elems h sz = insert x ((!) (slots hp) ` ({1..sz} - {pos}))"
      using p sz len by (auto simp: elems_def h nth_list_update image_iff)
    also have "\<dots> = (!) (slots hp) ` ({1..heap_size hp} - {pos})"
    proof -
      have "{1..heap_size hp} - {pos} = insert (heap_size hp) ({1..sz} - {pos})" using p sz by auto
      then show ?thesis using x by simp
    qed
    also have "\<dots> = heap_set hp - {slots hp ! pos}" by (rule heap_set_minus [OF hp]) (use p in simp_all)
    finally show ?thesis .
  qed
  show "edge tm1 h i" if "i \<in> {2..sz}" "i \<noteq> pos" "i div 2 \<noteq> pos" for i
    using heap_okD(4) [OF hp in_hp [OF that(1)]] that by (simp add: edge_def h tm1)
  show "expires (tm1 (h ! (pos div 2))) \<le> expires (tm1 (h ! i))" if "i \<in> {2..sz}" "i div 2 = pos" "pos > 1" for i
    using heap_okD(4) [OF hp in_hp [OF that(1)]] heap_okD(4) [OF hp, of pos] that p by (auto simp: edge_def h tm1)
qed

lemma remove_from_heap_spec:
  assumes hp: "heap_ok tm hp" and t: "t \<in> heap_set hp"
  obtains tm' hp' where "remove_from_heap tm hp t = Some (tm', hp', slots hp ! 1 = t)" "heap_ok tm' hp'"
    "heap_set hp' = heap_set hp - {t}" "moved (heap_set hp - {t}) tm tm'" "heap_limit hp' = heap_limit hp"
    "Suc (heap_size hp') = heap_size hp"
proof -
  define pos where "pos = heap_offset (tm t)"
  have p: "1 \<le> pos" "pos \<le> heap_size hp" "slots hp ! pos = t" using heap_set_offset [OF hp t] by (auto simp: pos_def)
  have lim: "heap_size hp \<le> heap_limit hp" "heap_limit hp < 65536" "heap_limit hp < length (slots hp)"
    using hp by (auto simp: heap_ok_def)
  have top: "slots hp ! 1 = t \<longleftrightarrow> pos = 1" using heap_slot_inj [OF hp, of 1 pos] p by auto
  show thesis
  proof (cases "pos = heap_size hp")
    case True
    let ?hp = "hp\<lparr>heap_size := heap_size hp - 1\<rparr>"
    have "remove_from_heap tm hp t = Some (tm, ?hp, pos = 1)"
      using True lim by (simp add: remove_from_heap_def pos_def SET_HEAP_SIZE_def Let_def)
    moreover have "heap_ok tm ?hp" using hp by (auto simp: heap_ok_def offsets_ok_def)
    moreover have "heap_set ?hp = heap_set hp - {t}"
    proof -
      have "{1..heap_size hp} - {pos} = {1..heap_size hp - 1}" using True by auto
      then show ?thesis using heap_set_minus [OF hp p(1,2)] p(3) by (simp add: heap_set_def elems_def)
    qed
    ultimately show thesis using that [of tm ?hp] True p top by auto
  next
    case False
    define x where "x = slots hp ! heap_size hp"
    define h where "h = (slots hp)[pos := x]"
    define tm1 where "tm1 = set_offset tm x pos"
    define hp1 where "hp1 = hp\<lparr>slots := h, heap_size := heap_size hp - 1\<rparr>"
    note r = replace_last [OF hp p(1) _ x_def h_def tm1_def refl]
    have lt: "pos < heap_size hp" using False p by simp
    have S: "heap_set hp1 = heap_set hp - {t}" using r(2) [OF lt] p(3) by (simp add: heap_set_def hp1_def)
    have xS: "x \<in> heap_set hp - {t}"
      using heap_slot_inj [OF hp, of "heap_size hp" pos] p lt by (auto simp: x_def heap_set_def elems_def)
    have lim1: "heap_size hp1 \<le> heap_limit hp1" "heap_limit hp1 < 65536" "heap_limit hp1 < length (slots hp1)"
      "heap_size hp1 < length (slots hp1)" "1 \<le> pos" "pos \<le> heap_size hp1"
      using lim p lt by (auto simp: hp1_def h_def)
    have mem: "h ! pos = x" using lim p by (simp add: h_def)
    define up where "up \<longleftrightarrow> pos > 1 \<and> expires (tm1 x) < expires (tm1 (h ! (pos div 2)))"
    obtain tm2 hp2 where u: "(if up then up_heap tm1 hp1 pos else down_heap tm1 hp1 pos) = Some (tm2, hp2)"
      "heap_view tm1 hp1 tm2 hp2"
    proof (cases up)
      case True
      have "edge tm1 h i" if "i \<in> {2..heap_size hp - 1}" "i \<noteq> pos" for i
        using r(3) [OF lt] r(4) [OF lt, of i] that True mem
        by (cases "i div 2 = pos") (auto simp: edge_def up_def)
      then show thesis
        using True r(1,4) [OF lt] lim1 that by (auto intro: up_heap_spec [of pos hp1 tm1] simp: hp1_def)
    next
      case False
      have "edge tm1 h i" if "i \<in> {2..heap_size hp - 1}" "i div 2 \<noteq> pos" for i
        using r(3) [OF lt, of i] that False mem by (cases "i = pos") (auto simp: edge_def up_def)
      then show thesis
        using False r(1,4) [OF lt] lim1 that by (auto intro: down_heap_spec [of pos hp1 tm1] simp: hp1_def)
    qed
    note v = heap_view_ok [OF u(2) lim1(1-3)]
    have "remove_from_heap tm hp t = Some (tm2, hp2, pos = 1)"
    proof -
      have A: "array_get (slots hp) (heap_size hp) = Some x" "array_set (slots hp) pos x = Some h"
        "(if pos > 1 then do { y \<leftarrow> array_get h (pos div 2); Some (expires (tm1 x) < expires (tm1 y)) } else Some False) = Some up"
        "SET_HEAP_SIZE (hp\<lparr>slots := h\<rparr>) (heap_size hp - 1) = hp1"
        using lim p by (simp_all add: x_def h_def up_def SET_HEAP_SIZE_def hp1_def)
      show ?thesis
        by (simp only: remove_from_heap_def Let_def pos_def [symmetric] False if_False A bind.simps
            tm1_def [symmetric] u(1) prod.case)
    qed
    moreover have "moved (heap_set hp - {t}) tm tm2"
      using moved_trans [OF _ v(3) [unfolded S]] moved_set_offset [OF xS] by (simp add: tm1_def)
    ultimately show thesis
      using that [of tm2 hp2] v S top lt by (simp add: hp1_def)
  qed
qed

lemma add_to_heap_spec:
  assumes hp: "heap_ok tm hp" and t: "t \<notin> heap_set hp" and room: "heap_size hp < heap_limit hp"
  obtains tm' hp' where "add_to_heap tm hp t = Some (tm', hp', slots hp' ! 1 = t)" "heap_ok tm' hp'"
    "heap_set hp' = insert t (heap_set hp)" "moved (insert t (heap_set hp)) tm tm'" "heap_limit hp' = heap_limit hp"
    "heap_offset (tm' t) \<noteq> 0"
proof -
  define sz where "sz = heap_size hp + 1"
  define h where "h = (slots hp)[sz := t]"
  define tm1 where "tm1 = set_offset tm t sz"
  define hp1 where "hp1 = hp\<lparr>heap_size := sz, slots := h\<rparr>"
  have lim: "heap_limit hp < 65536" "heap_limit hp < length (slots hp)" using hp by (auto simp: heap_ok_def)
  have lim1: "heap_size hp1 \<le> heap_limit hp1" "heap_limit hp1 < 65536" "heap_limit hp1 < length (slots hp1)"
    "1 \<le> sz" "sz \<le> heap_size hp1" "heap_size hp1 < length (slots hp1)"
    using lim room by (auto simp: hp1_def h_def sz_def)
  have nt: "slots hp ! i \<noteq> t" if "i \<in> {1..heap_size hp}" for i using t that by (auto simp: heap_set_def elems_def)
  have off: "offsets_ok tm1 h sz"
    unfolding offsets_ok_def
  proof
    fix i assume i: "i \<in> {1..sz}"
    show "heap_offset (tm1 (h ! i)) = i"
      using i nt [of i] heap_okD(3) [OF hp, of i] lim1 by (cases "i = sz") (auto simp: h_def tm1_def sz_def hp1_def)
  qed
  have ed: "edge tm1 h i" if "i \<in> {2..sz}" "i \<noteq> sz" for i
    using heap_okD(4) [OF hp, of i] that by (auto simp: edge_def h_def tm1_def sz_def)
  have S: "heap_set hp1 = insert t (heap_set hp)"
  proof -
    have "{1..sz} = insert sz {1..heap_size hp}" by (auto simp: sz_def)
    moreover have "(!) h ` {1..heap_size hp} = (!) (slots hp) ` {1..heap_size hp}"
      by (rule image_cong) (auto simp: h_def sz_def)
    ultimately show ?thesis using lim1 by (simp add: heap_set_def elems_def hp1_def h_def)
  qed
  obtain tm' hp' where u: "up_heap tm1 hp1 sz = Some (tm', hp')" "heap_view tm1 hp1 tm' hp'"
    by (rule up_heap_spec [of sz hp1 tm1]) (use lim1 off ed in \<open>auto simp: hp1_def\<close>)
  note v = heap_view_ok [OF u(2) lim1(1-3)]
  have tS: "t \<in> heap_set hp'" using v(2) S by simp
  note o = heap_set_offset [OF v(1) tS]
  have top: "heap_offset (tm' t) = 1 \<longleftrightarrow> slots hp' ! 1 = t"
    using o heap_okD(3) [OF v(1), of 1] by auto
  have A: "(SET_HEAP_SIZE hp sz)\<lparr>slots := h\<rparr> = hp1" "array_set (slots hp) sz t = Some h" "heap_size hp \<noteq> heap_limit hp"
    using lim room by (simp_all add: SET_HEAP_SIZE_def hp1_def h_def sz_def)
  have "add_to_heap tm hp t = Some (tm', hp', heap_offset (tm' t) = 1)"
    by (simp only: add_to_heap_def Let_def sz_def [symmetric] A if_False bind.simps tm1_def [symmetric] u(1) prod.case)
  moreover have "moved (insert t (heap_set hp)) tm tm'"
    using moved_trans [OF _ v(3) [unfolded S]] moved_set_offset by (simp add: tm1_def)
  ultimately show thesis
    using that [of tm' hp'] v S o top by (simp add: hp1_def)
qed

section \<open>The interface of the heap\<close>

text \<open>
  What the timer operations rely on.  The elements carry a priority that the operations keep; the
  operations may change other things in \<open>'m\<close>.
\<close>

locale min_heap =
  fixes ok :: "'m \<Rightarrow> 'h \<Rightarrow> bool" and set_of :: "'h \<Rightarrow> 'k set" and prio :: "'m \<Rightarrow> 'k \<Rightarrow> int"
    and top :: "'h \<Rightarrow> 'k" and remove :: "'m \<Rightarrow> 'h \<Rightarrow> 'k \<Rightarrow> ('m \<times> 'h \<times> bool) option"
  assumes top_in: "ok m h \<Longrightarrow> set_of h \<noteq> {} \<Longrightarrow> top h \<in> set_of h"
    and top_le: "ok m h \<Longrightarrow> x \<in> set_of h \<Longrightarrow> prio m (top h) \<le> prio m x"
    and remove_law: "ok m h \<Longrightarrow> x \<in> set_of h \<Longrightarrow>
      \<exists>m' h'. remove m h x = Some (m', h', top h = x) \<and> ok m' h' \<and> set_of h' = set_of h - {x} \<and> prio m' = prio m"
begin

text \<open>Taking the first element leaves elements that are not before it.\<close>

lemma pop:
  assumes "ok m h" "set_of h \<noteq> {}"
  obtains m' h' where "remove m h (top h) = Some (m', h', True)" "ok m' h'" "set_of h' = set_of h - {top h}"
    "\<And>x. x \<in> set_of h' \<Longrightarrow> prio m' (top h) \<le> prio m' x"
proof -
  obtain m' h' where r: "remove m h (top h) = Some (m', h', True)" "ok m' h'" "set_of h' = set_of h - {top h}" "prio m' = prio m"
    using remove_law [OF assms(1) top_in [OF assms]] by auto
  show thesis by (rule that [OF r(1-3)]) (use top_le [OF assms(1)] r in auto)
qed

end

lemma heap_set_empty: "heap_set hp = {} \<longleftrightarrow> heap_size hp = 0"
  by (auto simp: heap_set_def elems_def)

interpretation theaps: min_heap heap_ok heap_set "\<lambda>tm x. expires (tm x)" "\<lambda>hp. slots hp ! 1" remove_from_heap
proof
  show "slots hp ! 1 \<in> heap_set hp" if "heap_ok tm hp" "heap_set hp \<noteq> {}" for tm hp
    using that heap_set_empty [of hp] by (auto simp: heap_set_def elems_def)
  show "expires (tm (slots hp ! 1)) \<le> expires (tm x)" if "heap_ok tm hp" "x \<in> heap_set hp" for tm hp x
    using that heap_top_min by (auto simp: heap_set_def elems_def)
  show "\<exists>m' h'. remove_from_heap tm hp x = Some (m', h', slots hp ! 1 = x) \<and> heap_ok m' h' \<and>
      heap_set h' = heap_set hp - {x} \<and> (\<lambda>y. expires (m' y)) = (\<lambda>y. expires (tm y))"
    if hp: "heap_ok tm hp" "x \<in> heap_set hp" for tm hp x
    by (rule remove_from_heap_spec [OF hp]) (use moved_sel(1) in blast)
qed

lemma heap_set_finite [simp]: "finite (heap_set hp)"
  by (simp add: heap_set_def elems_def)

lemma heap_set_card:
  assumes "heap_ok tm hp"
  shows "card (heap_set hp) = heap_size hp"
proof -
  have "inj_on ((!) (slots hp)) {1..heap_size hp}" by (rule inj_onI) (rule heap_slot_inj [OF assms])
  then show ?thesis by (simp add: heap_set_def elems_def card_image)
qed

end
