(* ===== verification/Timer_Ops.thy ===== *)
theory Timer_Ops
  imports Timer_Heap
begin

text \<open>
  The invariant of the timer queues, and what the operations of \<^verbatim>\<open>timer.c\<close> do to the queues and
  to the armed timers.
\<close>

section \<open>Invariant\<close>

text \<open>The limits that the comment \<^verbatim>\<open>old_limit == (2^n)-1; new_limit == (2^(n+4))-1\<close> speaks of.\<close>

definition heap_limits :: "nat set" where
  "heap_limits = {0, 15, 255, 4095, 65535}"

definition queue_ok :: "tmap \<Rightarrow> nat \<Rightarrow> timers \<Rightarrow> bool" where
  "queue_ok tm c q \<longleftrightarrow>
     heap_ok tm (heap q) \<and> heap_limit (heap q) \<in> heap_limits \<and> (\<forall>t \<in> heap_set (heap q). status (tm t) = TIMER_STATUS_in_heap \<and> cpu (tm t) = c) \<and>
     distinct (tlist q) \<and> sorted (map (\<lambda>t. expires (tm t)) (tlist q)) \<and>
     (\<forall>t \<in> set (tlist q). status (tm t) = TIMER_STATUS_in_list \<and> cpu (tm t) = c)"

text \<open>
  The queue holds every timer of its CPU that is marked so, apart from those in \<open>R\<close>: the softirq
  handler takes all timers off the overflow list before it adds them again one by one.
\<close>

definition complete :: "tid set \<Rightarrow> tmap \<Rightarrow> nat \<Rightarrow> timers \<Rightarrow> bool" where
  "complete R tm c q \<longleftrightarrow>
     (\<forall>t. t \<notin> R \<longrightarrow> cpu (tm t) = c \<longrightarrow> (status (tm t) = TIMER_STATUS_in_heap \<longrightarrow> t \<in> heap_set (heap q)) \<and>
        (status (tm t) = TIMER_STATUS_in_list \<longrightarrow> t \<in> set (tlist q)))"

definition all_but :: "tid set \<Rightarrow> tstate \<Rightarrow> bool" where
  "all_but R s \<longleftrightarrow> (\<forall>c. queue_ok (tmr s) c (queue s c) \<and> complete R (tmr s) c (queue s c))"

abbreviation timers_ok :: "tstate \<Rightarrow> bool" where
  "timers_ok \<equiv> all_but {}"

text \<open>The timers that a queue holds.\<close>

definition pending :: "timers \<Rightarrow> tid set" where
  "pending q = heap_set (heap q) \<union> set (tlist q)"

lemma timers_okD:
  assumes "all_but R s"
  shows "queue_ok (tmr s) c (queue s c)" "complete R (tmr s) c (queue s c)" "heap_ok (tmr s) (heap (queue s c))"
  using assms by (auto simp: all_but_def queue_ok_def)

lemma queue_okD:
  assumes "queue_ok tm c q"
  shows "heap_ok tm (heap q)" "t \<in> heap_set (heap q) \<Longrightarrow> status (tm t) = TIMER_STATUS_in_heap"
    "t \<in> pending q \<Longrightarrow> cpu (tm t) = c" "distinct (tlist q)" "sorted (map (\<lambda>t. expires (tm t)) (tlist q))"
    "t \<in> set (tlist q) \<Longrightarrow> status (tm t) = TIMER_STATUS_in_list" "t \<in> pending q \<Longrightarrow> active_timer (tm t)"
  using assms by (auto simp: queue_ok_def pending_def active_timer_def)

lemma active_pending: "t \<notin> R \<Longrightarrow> all_but R s \<Longrightarrow> active_timer (tmr s t) \<Longrightarrow> t \<in> pending (queue s (cpu (tmr s t)))"
  by (auto simp: all_but_def complete_def active_timer_def pending_def)

lemma heap_ok_cong:
  assumes "\<And>x. x \<in> heap_set hp \<Longrightarrow> tm' x = tm x" "heap_ok tm hp"
  shows "heap_ok tm' hp"
proof -
  have e: "tm' (slots hp ! i) = tm (slots hp ! i)" if "i \<in> {1..heap_size hp}" for i
    using assms(1) that by (auto simp: heap_set_def elems_def)
  have "edge tm' (slots hp) i" if i: "i \<in> {2..heap_size hp}" for i
  proof -
    have "i div 2 \<in> {1..heap_size hp}" "i \<in> {1..heap_size hp}" using i by auto
    then show ?thesis using e heap_okD(4) [OF assms(2) i] unfolding edge_def by metis
  qed
  then show ?thesis using assms(2) e by (auto simp: heap_ok_def offsets_ok_def)
qed

lemma queue_ok_cong:
  assumes "\<And>x. x \<in> pending q \<Longrightarrow> tm' x = tm x" "queue_ok tm c q"
  shows "queue_ok tm' c q"
proof -
  have "map (\<lambda>t. expires (tm' t)) (tlist q) = map (\<lambda>t. expires (tm t)) (tlist q)"
    using assms(1) by (simp add: pending_def)
  then have "sorted (map (\<lambda>t. expires (tm' t)) (tlist q))" using queue_okD(5) [OF assms(2)] by (simp only:)
  moreover have "heap_ok tm' (heap q)"
    using heap_ok_cong [of "heap q" tm' tm] assms queue_okD(1) by (auto simp: pending_def)
  ultimately show ?thesis using assms by (auto simp: queue_ok_def pending_def)
qed

text \<open>An operation on the queue of CPU \<open>c\<close> that changes only timers of this CPU or inactive ones.\<close>

lemma timers_ok_upd:
  assumes s: "all_but R s" and q: "queue_ok tm' c q'" "complete R' tm' c q'" and R: "R' \<subseteq> R"
    and keep: "\<And>x. x \<in> R - R' \<Longrightarrow> cpu (tm' x) = c"
    and other: "\<And>x. tm' x \<noteq> tmr s x \<Longrightarrow>
      (cpu (tmr s x) = c \<or> \<not> active_timer (tmr s x)) \<and> (cpu (tm' x) = c \<or> \<not> active_timer (tm' x))"
    and s': "tmr s' = tm'" "queue s' = (queue s)(c := q')"
  shows "all_but R' s'"
  unfolding all_but_def
proof
  fix c'
  show "queue_ok (tmr s') c' (queue s' c') \<and> complete R' (tmr s') c' (queue s' c')"
  proof (cases "c' = c")
    case True
    then show ?thesis using q s' by simp
  next
    case False
    note o = timers_okD(1,2) [OF s, of c']
    have same: "tm' x = tmr s x" if "x \<in> pending (queue s c')" for x
      using other [of x] queue_okD(3,7) [OF o(1) that] False by auto
    have "queue_ok tm' c' (queue s c')" by (rule queue_ok_cong [OF same o(1)])
    moreover have "complete R' tm' c' (queue s c')"
      unfolding complete_def
    proof (intro allI impI)
      fix t assume t: "t \<notin> R'" "cpu (tm' t) = c'"
      show "(status (tm' t) = TIMER_STATUS_in_heap \<longrightarrow> t \<in> heap_set (heap (queue s c'))) \<and>
          (status (tm' t) = TIMER_STATUS_in_list \<longrightarrow> t \<in> set (tlist (queue s c')))"
        using other [of t] keep [of t] t False o(2) by (cases "tm' t = tmr s t") (auto simp: complete_def active_timer_def)
    qed
    ultimately show ?thesis using False s' by simp
  qed
qed

lemma set_queue_sel [simp]:
  "tmr (set_queue s c q) = tmr s" "queue (set_queue s c q) = (queue s)(c := q)" "softirqs (set_queue s c q) = softirqs s"
  "deadline_start (set_queue s c q) = deadline_start s" "deadline_end (set_queue s c q) = deadline_end s"
  by (simp_all add: set_queue_def)

lemma set_status_sel [simp]:
  "expires (set_status tm t st x) = expires (tm x)" "expires_end (set_status tm t st x) = expires_end (tm x)"
  "cpu (set_status tm t st x) = cpu (tm x)" "heap_offset (set_status tm t st x) = heap_offset (tm x)"
  "fn (set_status tm t st x) = fn (tm x)" "data (set_status tm t st x) = data (tm x)"
  "status (set_status tm t st x) = (if x = t then st else status (tm x))" "x \<noteq> t \<Longrightarrow> set_status tm t st x = tm x"
  by (simp_all add: set_status_def)

lemma set_status_offset: "set_status (set_offset tm x p) y st = set_offset (set_status tm y st) x p"
proof
  fix z show "set_status (set_offset tm x p) y st z = set_offset (set_status tm y st) x p z"
    by (cases "tm z") (simp add: set_status_def set_offset_def)
qed

section \<open>The overflow list\<close>

lemma remove_from_list_spec:
  "t \<in> set l \<Longrightarrow> distinct l \<Longrightarrow> remove_from_list l t = Some (removeAll t l, hd l = t)"
  by (induction l) auto

lemma add_to_list_spec:
  assumes "sorted (map (\<lambda>t. expires (tm t)) l)" "distinct l" "t \<notin> set l" "add_to_list tm l t = (l', head)"
  shows "sorted (map (\<lambda>t. expires (tm t)) l')" "distinct l'" "set l' = insert t (set l)"
    "head \<longleftrightarrow> hd l' = t" "\<not> head \<Longrightarrow> l \<noteq> [] \<and> expires (tm (hd l)) \<le> expires (tm t)"
proof -
  have "sorted (map (\<lambda>t. expires (tm t)) l') \<and> distinct l' \<and> set l' = insert t (set l) \<and> (head \<longleftrightarrow> hd l' = t) \<and>
    (\<not> head \<longrightarrow> l \<noteq> [] \<and> expires (tm (hd l)) \<le> expires (tm t))"
    using assms
  proof (induction tm l t arbitrary: l' head rule: add_to_list.induct)
    case (2 tm x xs t)
    show ?case
    proof (cases "expires (tm x) \<le> expires (tm t)")
      case True
      obtain l1 h1 where l1: "add_to_list tm xs t = (l1, h1)" by fastforce
      then show ?thesis using 2 True by auto
    next
      case False
      then have "\<forall>y \<in> set xs. expires (tm t) \<le> expires (tm y)" using "2.prems"(1) by fastforce
      then show ?thesis using False "2.prems" by auto
    qed
  qed auto
  then show "sorted (map (\<lambda>t. expires (tm t)) l')" "distinct l'" "set l' = insert t (set l)"
    "head \<longleftrightarrow> hd l' = t" "\<not> head \<Longrightarrow> l \<noteq> [] \<and> expires (tm (hd l)) \<le> expires (tm t)" by auto
qed

section \<open>Removing and adding an entry\<close>

text \<open>
  \<open>changed t st s s'\<close>: timer \<open>t\<close> now has status \<open>st\<close>, and apart from heap offsets no timer changed
  otherwise; the other CPUs' queues, the softirqs and the deadlines are as before.
\<close>

definition changed :: "tid \<Rightarrow> timer_status \<Rightarrow> nat \<Rightarrow> tstate \<Rightarrow> tstate \<Rightarrow> bool" where
  "changed t st c s s' \<longleftrightarrow>
     moved UNIV (set_status (tmr s) t st) (tmr s') \<and> (\<forall>c'. c' \<noteq> c \<longrightarrow> queue s' c' = queue s c') \<and>
     running (queue s' c) = running (queue s c) \<and> softirqs s' = softirqs s \<and>
     deadline_start s' = deadline_start s \<and> deadline_end s' = deadline_end s"

lemma remove_entry_spec:
  assumes s: "all_but R s" and t: "active_timer (tmr s t)" "t \<notin> R" and c: "cpu (tmr s t) = c"
  obtains s' top where "remove_entry s c t = Some (s', top)" "all_but R s'" "changed t TIMER_STATUS_inactive c s s'"
    "heap_set (heap (queue s' c)) = heap_set (heap (queue s c)) - {t}"
    "tlist (queue s' c) = removeAll t (tlist (queue s c))" "overflow (queue s' c) = overflow (queue s c)"
    "heap_limit (heap (queue s' c)) = heap_limit (heap (queue s c))"
proof -
  let ?q = "queue s c" and ?tm = "tmr s"
  note q = timers_okD(1) [OF s, of c] and co = timers_okD(2) [OF s, of c]
  have dis: "heap_set (heap ?q) \<inter> set (tlist ?q) = {}" using queue_okD(2,6) [OF q] by force
  show thesis
  proof (cases "status (?tm t) = TIMER_STATUS_in_heap")
    case True
    then have tin: "t \<in> heap_set (heap ?q)" using co c t(2) by (simp add: complete_def)
    then have tl: "t \<notin> set (tlist ?q)" using dis by auto
    obtain tm hp where r: "remove_from_heap ?tm (heap ?q) t = Some (tm, hp, slots (heap ?q) ! 1 = t)" "heap_ok tm hp"
      "heap_set hp = heap_set (heap ?q) - {t}" "moved (heap_set (heap ?q) - {t}) ?tm tm" "heap_limit hp = heap_limit (heap ?q)"
      by (rule remove_from_heap_spec [OF queue_okD(1) [OF q] tin]) blast
    let ?tm' = "set_status tm t TIMER_STATUS_inactive" and ?q' = "?q\<lparr>heap := hp\<rparr>"
    let ?s' = "(set_queue s c ?q')\<lparr>tmr := ?tm'\<rparr>"
    have mv: "tm x = ?tm x" if "x \<notin> heap_set (heap ?q) - {t}" for x using r(4) that by (auto simp: moved_def)
    note sel = moved_sel [OF r(4)]
    have hok: "heap_ok ?tm' hp" by (rule heap_ok_cong [OF _ r(2)]) (use r(3) in auto)
    have "queue_ok ?tm' c ?q'"
      using q hok r(3,5) sel tl queue_okD(3) [OF q] by (auto simp: queue_ok_def pending_def)
    moreover have "complete R ?tm' c ?q'" using co r(3) sel by (auto simp: complete_def)
    ultimately have ok: "all_but R ?s'"
    proof (rule timers_ok_upd [OF s])
      fix x assume x: "?tm' x \<noteq> ?tm x"
      have "x \<in> heap_set (heap ?q)"
      proof (rule ccontr)
        assume "x \<notin> heap_set (heap ?q)"
        then show False using x mv [of x] tin by (cases "x = t") auto
      qed
      then show "(cpu (?tm x) = c \<or> \<not> active_timer (?tm x)) \<and> (cpu (?tm' x) = c \<or> \<not> active_timer (?tm' x))"
        using queue_okD(3) [OF q] sel(5) by (auto simp: pending_def)
    qed simp_all
    have ch: "changed t TIMER_STATUS_inactive c s ?s'"
      using r(4) by (auto simp: changed_def moved_def set_status_def)
    have "remove_entry s c t = Some (?s', slots (heap ?q) ! 1 = t)" using True r(1) by (simp add: remove_entry_def Let_def)
    then show thesis using that [OF _ ok ch] r tl by (simp add: removeAll_id)
  next
    case False
    then have st: "status (?tm t) = TIMER_STATUS_in_list" using t(1) by (auto simp: active_timer_def)
    then have tin: "t \<in> set (tlist ?q)" using co c t(2) by (simp add: complete_def)
    then have th: "t \<notin> heap_set (heap ?q)" using dis by auto
    let ?tm' = "set_status ?tm t TIMER_STATUS_inactive" and ?q' = "?q\<lparr>tlist := removeAll t (tlist ?q)\<rparr>"
    let ?s' = "(set_queue s c ?q')\<lparr>tmr := ?tm'\<rparr>"
    have "heap_ok ?tm' (heap ?q)" by (rule heap_ok_cong [OF _ queue_okD(1) [OF q]]) (use th set_status_sel(8) in metis)
    moreover have "sorted (map (\<lambda>t. expires (?tm t)) (removeAll t (tlist ?q)))"
      using sorted_filter queue_okD(5) [OF q] unfolding removeAll_filter_not_eq by blast
    ultimately have "queue_ok ?tm' c ?q'"
      using q th queue_okD(3) [OF q] by (auto simp: queue_ok_def pending_def distinct_removeAll)
    moreover have "complete R ?tm' c ?q'" using co by (auto simp: complete_def)
    ultimately have ok: "all_but R ?s'"
    proof (rule timers_ok_upd [OF s])
      fix x assume x: "?tm' x \<noteq> ?tm x"
      then have "x = t" by (metis set_status_sel(8))
      then show "(cpu (?tm x) = c \<or> \<not> active_timer (?tm x)) \<and> (cpu (?tm' x) = c \<or> \<not> active_timer (?tm' x))" using c by simp
    qed simp_all
    have ch: "changed t TIMER_STATUS_inactive c s ?s'" by (simp add: changed_def)
    have "remove_entry s c t = Some (?s', hd (tlist ?q) = t)"
      using st remove_from_list_spec [OF tin queue_okD(4) [OF q]] by (simp add: remove_entry_def Let_def)
    then show thesis using that [OF _ ok ch] th by simp
  qed
qed

lemma add_to_heap_full: "heap_size hp = heap_limit hp \<Longrightarrow> add_to_heap tm hp t = Some (tm, hp, False)"
  by (simp add: add_to_heap_def)

lemma add_entry_spec:
  assumes s: "all_but R s" and t: "status (tmr s t) = TIMER_STATUS_inactive" and c: "cpu (tmr s t) = c"
  obtains (heap) s' where "add_entry s c t = Some (s', slots (heap (queue s' c)) ! 1 = t)" "all_but (R - {t}) s'"
      "changed t TIMER_STATUS_in_heap c s s'" "heap_set (heap (queue s' c)) = insert t (heap_set (heap (queue s c)))"
      "tlist (queue s' c) = tlist (queue s c)" "overflow (queue s' c) = overflow (queue s c)"
      "heap_limit (heap (queue s' c)) = heap_limit (heap (queue s c))"
  | (list) s' l head where "add_entry s c t = Some (s', head)" "all_but (R - {t}) s'" "changed t TIMER_STATUS_in_list c s s'"
      "heap (queue s' c) = heap (queue s c)" "add_to_list (tmr s') (tlist (queue s c)) t = (l, head)"
      "tlist (queue s' c) = l" "overflow (queue s' c)" "heap_size (heap (queue s c)) = heap_limit (heap (queue s c))"
proof -
  let ?q = "queue s c" and ?tm = "tmr s"
  note q = timers_okD(1) [OF s, of c] and co = timers_okD(2) [OF s, of c]
  have na: "\<not> active_timer (?tm t)" using t by (simp add: active_timer_def)
  have nin: "t \<notin> heap_set (heap ?q)" "t \<notin> set (tlist ?q)" using queue_okD(2,6) [OF q, of t] t by auto
  define tm0 where "tm0 = set_status (set_offset ?tm t 0) t TIMER_STATUS_in_heap"
  have tm0: "tm0 x = ?tm x" if "x \<noteq> t" for x using that by (simp add: tm0_def set_status_def set_offset_def)
  have tm0s: "status (tm0 t) = TIMER_STATUS_in_heap" "cpu (tm0 t) = c" "expires (tm0 t) = expires (?tm t)"
    using c by (simp_all add: tm0_def set_offset_def)
  have h0: "heap_ok tm0 (heap ?q)" by (rule heap_ok_cong [OF _ queue_okD(1) [OF q]]) (use tm0 nin in metis)
  have pre: "add_entry s c t = do {
      (tm, hp, top) \<leftarrow> add_to_heap tm0 (heap ?q) t;
      if heap_offset (tm t) \<noteq> 0
      then Some ((set_queue s c (?q\<lparr>heap := hp\<rparr>))\<lparr>tmr := tm\<rparr>, top)
      else
        (let tm1 = set_status tm t TIMER_STATUS_in_list; (l, head) = add_to_list tm1 (tlist ?q) t in
         Some ((set_queue s c (?q\<lparr>heap := hp, overflow := True, tlist := l\<rparr>))\<lparr>tmr := tm1\<rparr>, head)) }"
    using t by (simp add: add_entry_def tm0_def Let_def)
  have cpu_other: "(cpu (?tm x) = c \<or> \<not> active_timer (?tm x)) \<and> (cpu (tm' x) = c \<or> \<not> active_timer (tm' x))"
    if "tm' x \<noteq> ?tm x" "\<And>y. y \<notin> insert t (heap_set (heap ?q)) \<Longrightarrow> tm' y = ?tm y" "\<And>y. cpu (tm' y) = cpu (?tm y)" for tm' x
    using that queue_okD(3) [OF q, of x] c by (cases "x = t") (auto simp: pending_def)
  show thesis
  proof (cases "heap_size (heap ?q) = heap_limit (heap ?q)")
    case False
    then have "heap_size (heap ?q) < heap_limit (heap ?q)" using h0 by (simp add: heap_ok_def)
    then obtain tm hp where r: "add_to_heap tm0 (heap ?q) t = Some (tm, hp, slots hp ! 1 = t)" "heap_ok tm hp"
      "heap_set hp = insert t (heap_set (heap ?q))" "moved (insert t (heap_set (heap ?q))) tm0 tm"
      "heap_limit hp = heap_limit (heap ?q)" "heap_offset (tm t) \<noteq> 0"
      by (rule add_to_heap_spec [OF h0 nin(1)]) blast
    note sel = moved_sel [OF r(4)]
    let ?q' = "?q\<lparr>heap := hp\<rparr>"
    let ?s' = "(set_queue s c ?q')\<lparr>tmr := tm\<rparr>"
    have same: "status (tm x) = (if x = t then TIMER_STATUS_in_heap else status (?tm x))" "cpu (tm x) = cpu (?tm x)"
      "expires (tm x) = expires (?tm x)" for x
      using sel tm0 [of x] tm0s c by (cases "x = t"; simp)+
    have "queue_ok tm c ?q'"
      using q r(2,3,5) same nin queue_okD(3) [OF q] c by (auto simp: queue_ok_def pending_def)
    moreover have "complete (R - {t}) tm c ?q'" using co r(3) same by (auto simp: complete_def)
    ultimately have ok: "all_but (R - {t}) ?s'"
    proof (rule timers_ok_upd [OF s _ _ Diff_subset])
      fix x assume "tm x \<noteq> ?tm x"
      then show "(cpu (?tm x) = c \<or> \<not> active_timer (?tm x)) \<and> (cpu (tm x) = c \<or> \<not> active_timer (tm x))"
        by (rule cpu_other) (use r(4) tm0 same in \<open>auto simp: moved_def\<close>)
    qed (use same c in auto)
    have "moved UNIV (set_status ?tm t TIMER_STATUS_in_heap) tm"
      by (rule moved_trans [of _ _ tm0]) (use moved_mono [OF r(4)] moved_set_offset in \<open>simp_all add: tm0_def set_status_offset\<close>)
    then have "changed t TIMER_STATUS_in_heap c s ?s'" by (simp add: changed_def)
    moreover have "add_entry s c t = Some (?s', slots hp ! 1 = t)" using pre r(1,6) by simp
    ultimately show thesis using heap [OF _ ok] r by simp
  next
    case True
    note r = add_to_heap_full [OF True, of tm0 t]
    define tm1 where "tm1 = set_status tm0 t TIMER_STATUS_in_list"
    obtain l head where l: "add_to_list tm1 (tlist ?q) t = (l, head)" by fastforce
    let ?q' = "?q\<lparr>heap := heap ?q, overflow := True, tlist := l\<rparr>"
    let ?s' = "(set_queue s c ?q')\<lparr>tmr := tm1\<rparr>"
    have same: "status (tm1 x) = (if x = t then TIMER_STATUS_in_list else status (?tm x))" "cpu (tm1 x) = cpu (?tm x)"
      "expires (tm1 x) = expires (?tm x)" "x \<noteq> t \<Longrightarrow> tm1 x = ?tm x" for x
      using tm0 [of x] tm0s c by (cases "x = t"; simp add: tm1_def)+
    have srt: "sorted (map (\<lambda>t. expires (tm1 t)) (tlist ?q))" using queue_okD(5) [OF q] same by simp
    note ls = add_to_list_spec [OF srt queue_okD(4) [OF q] nin(2) l]
    have "heap_ok tm1 (heap ?q)" by (rule heap_ok_cong [OF _ queue_okD(1) [OF q]]) (use same nin in metis)
    then have "queue_ok tm1 c ?q'"
      using q ls same nin queue_okD(3) [OF q] c by (auto simp: queue_ok_def pending_def)
    moreover have "complete (R - {t}) tm1 c ?q'" using co ls same by (auto simp: complete_def)
    ultimately have ok: "all_but (R - {t}) ?s'"
    proof (rule timers_ok_upd [OF s _ _ Diff_subset])
      fix x assume "tm1 x \<noteq> ?tm x"
      then show "(cpu (?tm x) = c \<or> \<not> active_timer (?tm x)) \<and> (cpu (tm1 x) = c \<or> \<not> active_timer (tm1 x))"
        by (rule cpu_other) (use same in auto)
    qed (use same c in auto)
    have "set_status (set_status u t a) t b = set_status u t b" for u a b by (simp add: set_status_def)
    then have "changed t TIMER_STATUS_in_list c s ?s'"
      using moved_set_offset by (simp add: changed_def tm1_def tm0_def set_status_offset)
    moreover have "heap_offset (tm0 t) = 0" by (simp add: tm0_def)
    then have "add_entry s c t = Some (?s', head)" using pre r l by (simp add: tm1_def [symmetric] Let_def)
    ultimately show thesis using list [OF _ ok] l True by simp
  qed
qed

section \<open>Armed timers and deadlines\<close>

text \<open>
  The abstract state of the component: for each armed timer, the CPU on which and the time at
  which it is to be executed.
\<close>

definition armed :: "tstate \<Rightarrow> tid \<Rightarrow> (nat \<times> int) option" where
  "armed s t = (if active_timer (tmr s t) then Some (cpu (tmr s t), expires (tmr s t)) else None)"

text \<open>
  The hardware timer of CPU \<open>c\<close> fires no later than any timer in the heap is due, and no later
  than the end of the permitted delay of any timer in the list.
\<close>

definition on_time :: "tstate \<Rightarrow> nat \<Rightarrow> bool" where
  "on_time s c \<longleftrightarrow>
     (\<forall>t \<in> heap_set (heap (queue s c)). deadline_start s c \<le> expires (tmr s t)) \<and>
     (\<forall>t \<in> set (tlist (queue s c)). deadline_start s c \<le> expires_end (tmr s t))"

definition slop_ok :: "nat \<Rightarrow> tstate \<Rightarrow> bool" where
  "slop_ok slop s \<longleftrightarrow>
     (\<forall>t. active_timer (tmr s t) \<longrightarrow> expires_end (tmr s t) = expires (tmr s t) + int slop \<and> expires_end (tmr s t) \<le> STIME_MAX)"

definition punctual :: "tstate \<Rightarrow> bool" where
  "punctual s \<longleftrightarrow> (\<forall>c. c \<in> softirqs s \<or> on_time s c)"

lemma changed_sel:
  assumes "changed t st c s s'"
  shows "expires (tmr s' x) = expires (tmr s x)" "expires_end (tmr s' x) = expires_end (tmr s x)"
    "cpu (tmr s' x) = cpu (tmr s x)" "fn (tmr s' x) = fn (tmr s x)" "data (tmr s' x) = data (tmr s x)"
    "status (tmr s' x) = (if x = t then st else status (tmr s x))"
    "c' \<noteq> c \<Longrightarrow> queue s' c' = queue s c'" "running (queue s' c') = running (queue s c')" "softirqs s' = softirqs s"
    "deadline_start s' = deadline_start s" "deadline_end s' = deadline_end s"
  using assms moved_sel [of UNIV "set_status (tmr s) t st" "tmr s'"]
  by (auto simp: changed_def) (metis)

text \<open>The parts of the state that an operation on timer \<open>t\<close> never touches.\<close>

definition frame :: "tid \<Rightarrow> tstate \<Rightarrow> tstate \<Rightarrow> bool" where
  "frame t s s' \<longleftrightarrow>
     (\<forall>x. x \<noteq> t \<longrightarrow> tmr s' x = (tmr s x)\<lparr>heap_offset := heap_offset (tmr s' x)\<rparr>) \<and>
     (\<forall>c. running (queue s' c) = running (queue s c)) \<and> softirqs s \<subseteq> softirqs s' \<and>
     deadline_start s' = deadline_start s \<and> deadline_end s' = deadline_end s \<and>
     fn (tmr s' t) = fn (tmr s t) \<and> data (tmr s' t) = data (tmr s t)"

lemma frame_refl [simp]: "frame t s s"
  by (simp add: frame_def)

lemma frame_trans:
  assumes "frame t a b" "frame t b c"
  shows "frame t a c"
proof -
  have "tmr c x = (tmr a x)\<lparr>heap_offset := heap_offset (tmr c x)\<rparr>" if "x \<noteq> t" for x
    using assms that unfolding frame_def by (metis timer.surjective timer.update_convs(3))
  then show ?thesis using assms by (auto simp: frame_def)
qed

lemma frame_sel:
  assumes "frame t s s'" "x \<noteq> t"
  shows "expires (tmr s' x) = expires (tmr s x)" "expires_end (tmr s' x) = expires_end (tmr s x)"
    "cpu (tmr s' x) = cpu (tmr s x)" "status (tmr s' x) = status (tmr s x)" "armed s' x = armed s x"
proof -
  have e: "tmr s' x = (tmr s x)\<lparr>heap_offset := heap_offset (tmr s' x)\<rparr>" using assms by (simp add: frame_def)
  show *: "expires (tmr s' x) = expires (tmr s x)" "expires_end (tmr s' x) = expires_end (tmr s x)"
    "cpu (tmr s' x) = cpu (tmr s x)" "status (tmr s' x) = status (tmr s x)" by (subst e, simp)+
  show "armed s' x = armed s x" by (simp add: armed_def active_timer_def *)
qed

lemma frame_changed:
  assumes "changed t st c s s'" "softirqs s'' = softirqs s' \<union> X" "tmr s'' = tmr s'" "queue s'' = queue s'"
    "deadline_start s'' = deadline_start s'" "deadline_end s'' = deadline_end s'"
  shows "frame t s s''"
proof -
  have "tmr s' x = (tmr s x)\<lparr>heap_offset := heap_offset (tmr s' x)\<rparr>" if "x \<noteq> t" for x
    using assms(1) that unfolding changed_def moved_def by (metis set_status_sel(8))
  then show ?thesis using changed_sel [OF assms(1)] assms(2-) by (auto simp: frame_def)
qed

section \<open>Stopping and adding\<close>

lemma do_stop_timer_spec:
  assumes s: "timers_ok s" and t: "active_timer (tmr s t)"
  obtains s' where "do_stop_timer s t = Some s'" "timers_ok s'" "frame t s s'"
    "status (tmr s' t) = TIMER_STATUS_inactive" "cpu (tmr s' t) = cpu (tmr s t)"
    "\<And>c. on_time s c \<Longrightarrow> on_time s' c"
    "expires (tmr s' t) = expires (tmr s t)" "expires_end (tmr s' t) = expires_end (tmr s t)"
proof -
  let ?c = "cpu (tmr s t)"
  obtain s1 top where r: "remove_entry s ?c t = Some (s1, top)" "timers_ok s1" "changed t TIMER_STATUS_inactive ?c s s1"
    "heap_set (heap (queue s1 ?c)) = heap_set (heap (queue s ?c)) - {t}"
    "tlist (queue s1 ?c) = removeAll t (tlist (queue s ?c))"
    by (rule remove_entry_spec [OF s t _ refl]) auto
  let ?s = "if top then raise_timer_softirq s1 ?c else s1"
  note sel = changed_sel [OF r(3)]
  have q: "tmr ?s = tmr s1" "queue ?s = queue s1" "deadline_start ?s = deadline_start s1" "deadline_end ?s = deadline_end s1"
    "softirqs ?s = softirqs s1 \<union> (if top then {?c} else {})"
    by (auto simp: raise_timer_softirq_def)
  have "timers_ok ?s" using r(2) q by (simp add: all_but_def)
  moreover have "on_time ?s c" if "on_time s c" for c
    using that r(4,5) sel q by (cases "c = ?c") (auto simp: on_time_def)
  moreover have "do_stop_timer s t = Some ?s" using r(1) by (simp add: do_stop_timer_def Let_def)
  moreover have "frame t s ?s" using frame_changed [OF r(3) q(5,1,2,3,4)] .
  ultimately show thesis using that sel q by simp
qed

lemma add_timer_spec:
  assumes s: "timers_ok s" and t: "status (tmr s t) = TIMER_STATUS_inactive"
  obtains s' where "add_timer s t = Some s'" "timers_ok s'" "frame t s s'" "active_timer (tmr s' t)"
    "cpu (tmr s' t) = cpu (tmr s t)" "expires (tmr s' t) = expires (tmr s t)" "expires_end (tmr s' t) = expires_end (tmr s t)"
    "\<And>c slop. slop_ok slop s' \<Longrightarrow> on_time s c \<Longrightarrow> c \<in> softirqs s' \<or> on_time s' c"
proof (rule add_entry_spec [OF s t refl])
  let ?c = "cpu (tmr s t)"
  fix s1
  assume r: "add_entry s ?c t = Some (s1, slots (heap (queue s1 ?c)) ! 1 = t)" "all_but ({} - {t}) s1"
    "changed t TIMER_STATUS_in_heap ?c s s1" "heap_set (heap (queue s1 ?c)) = insert t (heap_set (heap (queue s ?c)))"
    "tlist (queue s1 ?c) = tlist (queue s ?c)"
  let ?top = "slots (heap (queue s1 ?c)) ! 1 = t"
  let ?s = "if ?top then raise_timer_softirq s1 ?c else s1"
  note sel = changed_sel [OF r(3)]
  have q: "tmr ?s = tmr s1" "queue ?s = queue s1" "deadline_start ?s = deadline_start s1" "deadline_end ?s = deadline_end s1"
    "softirqs ?s = softirqs s1 \<union> (if ?top then {?c} else {})"
    by (auto simp: raise_timer_softirq_def)
  have ok: "timers_ok s1" using r(2) by simp
  show thesis
  proof (rule that)
    show "add_timer s t = Some ?s" using r(1) by (simp add: add_timer_def Let_def)
    show "timers_ok ?s" using ok q by (simp add: all_but_def)
    show "frame t s ?s" using frame_changed [OF r(3) q(5,1,2,3,4)] .
    show "c \<in> softirqs ?s \<or> on_time ?s c" if "slop_ok slop ?s" "on_time s c" for c slop
    proof (cases "c = ?c \<and> \<not> ?top")
      case False
      then show ?thesis using that(2) q sel by (auto simp: on_time_def)
    next
      case True
      let ?x = "slots (heap (queue s1 ?c)) ! 1"
      note h = timers_okD(3) [OF ok, of ?c]
      have "?x \<in> heap_set (heap (queue s1 ?c))" using theaps.top_in [OF h] r(4) by blast
      then have x: "?x \<in> heap_set (heap (queue s ?c))" using r(4) True by auto
      have "expires (tmr s1 ?x) \<le> expires (tmr s1 t)" using theaps.top_le [OF h] r(4) by blast
      moreover have "deadline_start s ?c \<le> expires (tmr s ?x)" using that(2) x True by (simp add: on_time_def)
      ultimately have "on_time s1 ?c"
        using that(2) True r(4,5) sel by (auto simp: on_time_def)
      then show ?thesis using True by simp
    qed
  qed (use sel q in \<open>auto simp: active_timer_def\<close>)
next
  let ?c = "cpu (tmr s t)"
  fix s1 l head
  assume r: "add_entry s ?c t = Some (s1, head)" "all_but ({} - {t}) s1" "changed t TIMER_STATUS_in_list ?c s s1"
    "heap (queue s1 ?c) = heap (queue s ?c)" "add_to_list (tmr s1) (tlist (queue s ?c)) t = (l, head)"
    "tlist (queue s1 ?c) = l"
  let ?s = "if head then raise_timer_softirq s1 ?c else s1"
  note sel = changed_sel [OF r(3)]
  have q: "tmr ?s = tmr s1" "queue ?s = queue s1" "deadline_start ?s = deadline_start s1" "deadline_end ?s = deadline_end s1"
    "softirqs ?s = softirqs s1 \<union> (if head then {?c} else {})"
    by (auto simp: raise_timer_softirq_def)
  have ok: "timers_ok s1" using r(2) by simp
  note q0 = timers_okD(1) [OF s, of ?c]
  have nin: "t \<notin> set (tlist (queue s ?c))" using queue_okD(6) [OF q0, of t] t by auto
  have srt: "sorted (map (\<lambda>t. expires (tmr s1 t)) (tlist (queue s ?c)))" using queue_okD(5) [OF q0] sel(1) by simp
  note ls = add_to_list_spec [OF srt queue_okD(4) [OF q0] nin r(5)]
  show thesis
  proof (rule that)
    show "add_timer s t = Some ?s" using r(1) by (simp add: add_timer_def Let_def)
    show "timers_ok ?s" using ok q by (simp add: all_but_def)
    show "frame t s ?s" using frame_changed [OF r(3) q(5,1,2,3,4)] .
    show "c \<in> softirqs ?s \<or> on_time ?s c" if "slop_ok slop ?s" "on_time s c" for c slop
    proof (cases "c = ?c \<and> \<not> head")
      case False
      then show ?thesis using that(2) q sel by (auto simp: on_time_def)
    next
      case True
      let ?x = "hd (tlist (queue s ?c))"
      have x: "?x \<in> set (tlist (queue s ?c))" "expires (tmr s1 ?x) \<le> expires (tmr s1 t)" using ls(5) True by auto
      have act: "active_timer (tmr s1 ?x)" "active_timer (tmr s1 t)"
        using queue_okD(6) [OF q0 x(1)] sel(6) by (auto simp: active_timer_def)
      then have "expires_end (tmr s1 ?x) = expires (tmr s1 ?x) + int slop" "expires_end (tmr s1 t) = expires (tmr s1 t) + int slop"
        using that(1) q(1) by (simp_all add: slop_ok_def)
      moreover have "deadline_start s ?c \<le> expires_end (tmr s ?x)" using that(2) x True by (simp add: on_time_def)
      ultimately have "on_time s1 ?c"
        using that(2) True r(4,6) ls(3) x(2) sel by (auto simp: on_time_def)
      then show ?thesis using True by simp
    qed
  qed (use sel q in \<open>auto simp: active_timer_def\<close>)
qed

section \<open>The operations\<close>

text \<open>A timer that is in no queue may change freely.\<close>

lemma set_inactive:
  assumes s: "timers_ok s" and t: "\<not> active_timer (tmr s t)" and y: "\<not> active_timer y"
    and s': "s' = s\<lparr>tmr := (tmr s)(t := y)\<rparr>"
  shows "timers_ok s'" "on_time s c \<Longrightarrow> on_time s' c" "slop_ok slop s \<Longrightarrow> slop_ok slop s'" "punctual s \<Longrightarrow> punctual s'"
proof -
  have ne: "x \<noteq> t" if "x \<in> pending (queue s c)" for x c
    using queue_okD(7) [OF timers_okD(1) [OF s] that] t by auto
  have "queue_ok (tmr s') c (queue s c)" for c
    by (rule queue_ok_cong [OF _ timers_okD(1) [OF s]]) (use ne s' in auto)
  moreover have "complete {} (tmr s') c (queue s c)" for c
    using timers_okD(2) [OF s, of c] y by (auto simp: complete_def s' active_timer_def)
  ultimately show "timers_ok s'" by (simp add: all_but_def s')
  show on: "on_time s c \<Longrightarrow> on_time s' c" for c
    using ne [of _ c] by (auto simp: on_time_def pending_def s')
  show "slop_ok slop s \<Longrightarrow> slop_ok slop s'" using y by (auto simp: slop_ok_def s')
  show "punctual s \<Longrightarrow> punctual s'" using on by (auto simp: punctual_def s')
qed

text \<open>
  What every operation on one timer guarantees: the queues stay well-formed, only timer \<open>t\<close>
  changes, and the hardware timers stay early enough, or a softirq is pending.
\<close>

definition timer_step :: "nat \<Rightarrow> tid \<Rightarrow> tstate \<Rightarrow> tstate \<Rightarrow> bool" where
  "timer_step slop t s s' \<longleftrightarrow>
     timers_ok s' \<and> frame t s s' \<and> (slop_ok slop s \<longrightarrow> slop_ok slop s' \<and> (punctual s \<longrightarrow> punctual s'))"

lemma slop_ok_frame:
  assumes "frame t s s'" "slop_ok slop s"
    and "active_timer (tmr s' t) \<Longrightarrow> expires_end (tmr s' t) = expires (tmr s' t) + int slop \<and> expires_end (tmr s' t) \<le> STIME_MAX"
  shows "slop_ok slop s'"
  unfolding slop_ok_def
proof (intro allI impI)
  fix x assume "active_timer (tmr s' x)"
  then show "expires_end (tmr s' x) = expires (tmr s' x) + int slop \<and> expires_end (tmr s' x) \<le> STIME_MAX"
    using assms frame_sel [OF assms(1), of x] by (cases "x = t") (auto simp: slop_ok_def active_timer_def)
qed

lemma frame_softirqs: "frame t s s' \<Longrightarrow> softirqs s \<subseteq> softirqs s'"
  by (simp add: frame_def)

text \<open>The common first step of \<^verbatim>\<open>set_timer\<close>, \<^verbatim>\<open>stop_timer\<close> and \<^verbatim>\<open>kill_timer\<close>.\<close>

lemma deactivate_spec:
  assumes s: "timers_ok s"
  obtains s' where "(if active_timer (tmr s t) then do_stop_timer s t else Some s) = Some s'" "timer_step slop t s s'"
    "\<not> active_timer (tmr s' t)" "cpu (tmr s' t) = cpu (tmr s t)"
    "status (tmr s' t) = TIMER_STATUS_killed \<longleftrightarrow> status (tmr s t) = TIMER_STATUS_killed"
proof (cases "active_timer (tmr s t)")
  case True
  obtain s' where r: "do_stop_timer s t = Some s'" "timers_ok s'" "frame t s s'"
    "status (tmr s' t) = TIMER_STATUS_inactive" "cpu (tmr s' t) = cpu (tmr s t)" "\<And>c. on_time s c \<Longrightarrow> on_time s' c"
    by (rule do_stop_timer_spec [OF s True]) blast
  have "slop_ok slop s \<Longrightarrow> slop_ok slop s'" by (rule slop_ok_frame [OF r(3)]) (use r(4) in \<open>auto simp: active_timer_def\<close>)
  moreover have "punctual s \<Longrightarrow> punctual s'" using r(6) frame_softirqs [OF r(3)] by (auto simp: punctual_def)
  ultimately have "timer_step slop t s s'" using r by (simp add: timer_step_def)
  then show thesis using that [of s'] r True by (auto simp: active_timer_def)
next
  case False
  then show thesis using that [of s] s by (simp add: timer_step_def)
qed

lemma timer_step_trans: "timer_step slop t a b \<Longrightarrow> timer_step slop t b c \<Longrightarrow> timer_step slop t a c"
  using frame_trans by (auto simp: timer_step_def)

text \<open>A timer outside the queues gets new contents; its callback stays.\<close>

lemma set_inactive_step:
  assumes "timers_ok s" "\<not> active_timer (tmr s t)" "\<not> active_timer y" "fn y = fn (tmr s t)" "data y = data (tmr s t)"
  shows "timer_step slop t s (s\<lparr>tmr := (tmr s)(t := y)\<rparr>)"
  using set_inactive [OF assms(1-3) refl] assms(4,5) by (auto simp: timer_step_def frame_def)

lemma add_timer_step:
  assumes s: "timers_ok s" "status (tmr s t) = TIMER_STATUS_inactive"
    and ex: "slop_ok slop s \<Longrightarrow> expires_end (tmr s t) = expires (tmr s t) + int slop \<and> expires_end (tmr s t) \<le> STIME_MAX"
  obtains s' where "add_timer s t = Some s'" "timer_step slop t s s'" "armed s' t = Some (cpu (tmr s t), expires (tmr s t))"
proof -
  obtain s' where r: "add_timer s t = Some s'" "timers_ok s'" "frame t s s'" "active_timer (tmr s' t)"
    "cpu (tmr s' t) = cpu (tmr s t)" "expires (tmr s' t) = expires (tmr s t)" "expires_end (tmr s' t) = expires_end (tmr s t)"
    "\<And>c slop. slop_ok slop s' \<Longrightarrow> on_time s c \<Longrightarrow> c \<in> softirqs s' \<or> on_time s' c"
    by (rule add_timer_spec [OF s]) blast
  have "slop_ok slop s \<Longrightarrow> slop_ok slop s'" by (rule slop_ok_frame [OF r(3)]) (use r ex in auto)
  moreover have "slop_ok slop s' \<Longrightarrow> punctual s \<Longrightarrow> punctual s'"
    using r(8) frame_softirqs [OF r(3)] unfolding punctual_def by blast
  ultimately have "timer_step slop t s s'" using r by (simp add: timer_step_def)
  then show thesis using that [OF r(1)] r by (simp add: armed_def)
qed

lemma s64_id: "- (2 ^ 63) \<le> x \<Longrightarrow> x \<le> STIME_MAX \<Longrightarrow> s64 x = x"
  by (simp add: s64_def STIME_MAX_def)

lemma set_timer_spec:
  assumes s: "timers_ok s" and ex: "- (2 ^ 63) \<le> ex" "ex + int slop \<le> STIME_MAX"
  obtains s' where "set_timer slop s t ex = Some s'" "timer_step slop t s s'"
    "armed s' t = (if status (tmr s t) = TIMER_STATUS_killed then None else Some (cpu (tmr s t), ex))"
proof -
  obtain s1 where r: "(if active_timer (tmr s t) then do_stop_timer s t else Some s) = Some s1" "timer_step slop t s s1"
    "\<not> active_timer (tmr s1 t)" "cpu (tmr s1 t) = cpu (tmr s t)"
    "status (tmr s1 t) = TIMER_STATUS_killed \<longleftrightarrow> status (tmr s t) = TIMER_STATUS_killed"
    by (rule deactivate_spec [OF s, of t slop]) blast
  let ?y = "(tmr s1 t)\<lparr>expires := ex, expires_end := s64 (ex + int slop)\<rparr>"
  define s2 where "s2 = s1\<lparr>tmr := (tmr s1)(t := ?y)\<rparr>"
  have ny: "\<not> active_timer ?y" using r(3) by (simp add: active_timer_def)
  have ok1: "timers_ok s1" using r(2) by (simp add: timer_step_def)
  have st2: "timer_step slop t s s2"
    unfolding s2_def by (rule timer_step_trans [OF r(2) set_inactive_step [OF ok1 r(3) ny]]) simp_all
  have ok2: "timers_ok s2" using st2 by (simp add: timer_step_def)
  have t2: "tmr s2 t = ?y" by (simp add: s2_def)
  have unf: "set_timer slop s t ex = (if status (tmr s2 t) \<noteq> TIMER_STATUS_killed then add_timer s2 t else Some s2)"
    unfolding set_timer_def by (simp add: r(1) s2_def)
  show thesis
  proof (cases "status (tmr s t) = TIMER_STATUS_killed")
    case True
    then show thesis using that [of s2] unf st2 t2 r(5) by (simp add: armed_def active_timer_def)
  next
    case False
    have "status (tmr s2 t) = TIMER_STATUS_inactive"
      using r(3,5) False t2 by (cases "status (tmr s1 t)") (auto simp: active_timer_def)
    moreover have "s64 (ex + int slop) = ex + int slop" using s64_id ex by simp
    ultimately obtain s3 where a: "add_timer s2 t = Some s3" "timer_step slop t s2 s3"
      "armed s3 t = Some (cpu (tmr s2 t), expires (tmr s2 t))"
      using add_timer_step [OF ok2, of t slop] ex t2 by auto
    have "status (tmr s2 t) \<noteq> TIMER_STATUS_killed" using \<open>status (tmr s2 t) = TIMER_STATUS_inactive\<close> by simp
    then show thesis
      using that [of s3] unf a timer_step_trans [OF st2 a(2)] t2 r(4) False by simp
  qed
qed

lemma stop_timer_spec:
  assumes s: "timers_ok s"
  obtains s' where "stop_timer s t = Some s'" "timer_step slop t s s'" "armed s' t = None"
  by (rule deactivate_spec [OF s, of t slop]) (auto simp: stop_timer_def armed_def intro: that)

lemma timer_step_ok: "timer_step slop t s s' \<Longrightarrow> timers_ok s'" "timer_step slop t s s' \<Longrightarrow> frame t s s'"
  by (simp_all add: timer_step_def)

lemma mark_killed_spec:
  assumes s: "timers_ok s"
  obtains s' where "mark_killed s t = Some s'" "timer_step slop t s s'" "status (tmr s' t) = TIMER_STATUS_killed"
proof (rule deactivate_spec [OF s, of t slop])
  fix s1
  assume r: "(if active_timer (tmr s t) then do_stop_timer s t else Some s) = Some s1" "timer_step slop t s s1"
    "\<not> active_timer (tmr s1 t)"
  let ?s = "s1\<lparr>tmr := set_status (tmr s1) t TIMER_STATUS_killed\<rparr>"
  have "timer_step slop t s1 ?s"
    unfolding set_status_def
    by (rule set_inactive_step [OF timer_step_ok(1) [OF r(2)] r(3)]) (simp_all add: active_timer_def)
  then show thesis
    using that [of ?s] r timer_step_trans [OF r(2)] by (simp add: mark_killed_def)
qed

lemma init_timer_ok:
  assumes "timers_ok s" "\<not> active_timer (tmr s t)"
  shows "timers_ok (init_timer s t f d c)" "armed (init_timer s t f d c) = armed s" "punctual s \<Longrightarrow> punctual (init_timer s t f d c)"
    "slop_ok slop s \<Longrightarrow> slop_ok slop (init_timer s t f d c)"
  using set_inactive [OF assms _ refl] assms(2)
  by (auto simp: init_timer_def active_timer_def armed_def fun_eq_iff)

lemma migrate_timer_spec:
  assumes s: "timers_ok s" and c: "new_cpu < 65536"
  obtains s' where "migrate_timer s t new_cpu = Some s'" "timer_step slop t s s'"
    "armed s' t = map_option (\<lambda>(_, e). (new_cpu, e)) (armed s t)" "cpu (tmr s' t) = new_cpu"
proof (cases "cpu (tmr s t) = new_cpu")
  case True
  then show thesis using that [of s] s by (simp add: migrate_timer_def timer_step_def armed_def)
next
  case ne: False
  show thesis
  proof (cases "active_timer (tmr s t)")
    case False
    let ?s = "set_cpu s t new_cpu"
    have "timer_step slop t s ?s"
      unfolding set_cpu_def by (rule set_inactive_step [OF s False]) (use False in \<open>simp_all add: active_timer_def\<close>)
    then show thesis
      using that [of ?s] ne False c by (simp add: migrate_timer_def armed_def active_timer_def set_cpu_def)
  next
    case True
    obtain s1 where r: "do_stop_timer s t = Some s1" "timers_ok s1" "frame t s s1"
      "status (tmr s1 t) = TIMER_STATUS_inactive" "cpu (tmr s1 t) = cpu (tmr s t)" "\<And>c. on_time s c \<Longrightarrow> on_time s1 c"
      "expires (tmr s1 t) = expires (tmr s t)" "expires_end (tmr s1 t) = expires_end (tmr s t)"
      by (rule do_stop_timer_spec [OF s True]) blast
    have na: "\<not> active_timer (tmr s1 t)" using r(4) by (simp add: active_timer_def)
    have sl: "slop_ok slop s \<Longrightarrow> slop_ok slop s1" by (rule slop_ok_frame [OF r(3)]) (use na in auto)
    have st1: "timer_step slop t s s1"
      using r sl frame_softirqs [OF r(3)] by (auto simp: timer_step_def punctual_def)
    define s2 where "s2 = set_cpu s1 t new_cpu"
    have st2: "timer_step slop t s1 s2"
      unfolding s2_def set_cpu_def by (rule set_inactive_step [OF r(2) na]) (use na in \<open>simp_all add: active_timer_def\<close>)
    have t2: "status (tmr s2 t) = TIMER_STATUS_inactive" "cpu (tmr s2 t) = new_cpu" "expires (tmr s2 t) = expires (tmr s t)"
      "expires_end (tmr s2 t) = expires_end (tmr s t)"
      using r c by (simp_all add: s2_def set_cpu_def)
    obtain s3 where a: "add_timer s2 t = Some s3" "timers_ok s3" "frame t s2 s3" "active_timer (tmr s3 t)"
      "cpu (tmr s3 t) = cpu (tmr s2 t)" "expires (tmr s3 t) = expires (tmr s2 t)" "expires_end (tmr s3 t) = expires_end (tmr s2 t)"
      "\<And>c slop. slop_ok slop s3 \<Longrightarrow> on_time s2 c \<Longrightarrow> c \<in> softirqs s3 \<or> on_time s3 c"
      by (rule add_timer_spec [OF timer_step_ok(1) [OF st2] t2(1)]) blast
    note fr = frame_trans [OF frame_trans [OF r(3) timer_step_ok(2) [OF st2]] a(3)]
    have "slop_ok slop s \<Longrightarrow> slop_ok slop s3"
      by (rule slop_ok_frame [OF fr]) (use a t2 True in \<open>auto simp: slop_ok_def\<close>)
    moreover have "slop_ok slop s \<Longrightarrow> punctual s \<Longrightarrow> punctual s2" using st1 st2 by (simp add: timer_step_def)
    ultimately have "timer_step slop t s s3"
      using a fr frame_softirqs [OF a(3)] unfolding timer_step_def punctual_def by blast
    moreover have "migrate_timer s t new_cpu = Some s3" using ne True r(1) a(1) by (simp add: migrate_timer_def s2_def)
    ultimately show thesis using that [of s3] a t2 True by (simp add: armed_def)
  qed
qed

end
