(* ===== verification/Timer_Softirq.thy ===== *)
theory Timer_Softirq
  imports Timer_Ops
begin

text \<open>
  The softirq handler of \<^verbatim>\<open>timer.c\<close>: it executes every timer that is due, keeps the queues
  well-formed, and chooses a deadline for the hardware timer that is early enough.
\<close>

section \<open>Due timers and callbacks\<close>

definition due_heap :: "nat \<Rightarrow> int \<Rightarrow> tstate \<Rightarrow> tid set" where
  "due_heap c now s = {t \<in> heap_set (heap (queue s c)). expires (tmr s t) < now}"

definition due_list :: "nat \<Rightarrow> int \<Rightarrow> tstate \<Rightarrow> tid set" where
  "due_list c now s = {t \<in> set (tlist (queue s c)). expires (tmr s t) < now}"

text \<open>The other CPUs stay punctual: their softirq is raised, or their deadline is early enough.\<close>

definition others :: "nat \<Rightarrow> tstate \<Rightarrow> tstate \<Rightarrow> bool" where
  "others c s s' \<longleftrightarrow> (\<forall>c'. c' \<noteq> c \<longrightarrow> c' \<in> softirqs s \<or> on_time s c' \<longrightarrow> c' \<in> softirqs s' \<or> on_time s' c')"

lemma others_refl [simp]: "others c s s"
  by (simp add: others_def)

lemma others_trans: "others c a b \<Longrightarrow> others c b d \<Longrightarrow> others c a d"
  unfolding others_def by metis

lemma others_changed: "changed t st c s s' \<Longrightarrow> others c s s'"
  by (auto simp: others_def on_time_def changed_sel)

lemma others_quiet:
  assumes ok: "timers_ok s" "slop_ok slop s" "timers_ok s'" "slop_ok slop s'"
    and eq: "\<And>c'. c' \<noteq> c \<Longrightarrow> queue s' c' = queue s c' \<and> deadline_start s' c' = deadline_start s c'"
      "\<And>x. expires (tmr s' x) = expires (tmr s x)" "softirqs s \<subseteq> softirqs s'"
  shows "others c s s'"
proof -
  have "expires_end (tmr s' t) = expires_end (tmr s t)" if "c' \<noteq> c" "t \<in> set (tlist (queue s c'))" for c' t
  proof -
    have "active_timer (tmr s t)" "active_timer (tmr s' t)"
      using that eq(1) [OF that(1)] queue_okD(7) [OF timers_okD(1) [OF ok(1)], of t c']
        queue_okD(7) [OF timers_okD(1) [OF ok(3)], of t c'] by (simp_all add: pending_def)
    then show ?thesis using ok(2,4) eq(2) unfolding slop_ok_def by metis
  qed
  then show ?thesis using eq by (auto simp: others_def on_time_def)
qed

text \<open>No timer becomes due, and the other CPUs stay punctual.\<close>

definition calms :: "nat \<Rightarrow> int \<Rightarrow> tstate \<Rightarrow> tstate \<Rightarrow> bool" where
  "calms c now s s' \<longleftrightarrow> due_heap c now s' \<subseteq> due_heap c now s \<and> due_list c now s' \<subseteq> due_list c now s \<and> others c s s'"

lemma calms_refl [simp]: "calms c now s s"
  by (simp add: calms_def)

lemma calms_trans: "calms c now a b \<Longrightarrow> calms c now b d \<Longrightarrow> calms c now a d"
  unfolding calms_def using others_trans by blast

lemma pending_finite [simp]: "finite (pending q)"
  by (simp add: pending_def)

lemma due_finite [simp]: "finite (due_heap c now s)" "finite (due_list c now s)"
  by (simp_all add: due_heap_def due_list_def)

text \<open>
  What the handler relies on while it executes a timer: the callback, and the other processors
  meanwhile, keep the queues well-formed, and no timer is armed on this CPU for a time that has
  already passed; the other CPUs stay punctual.
\<close>

definition callbacks_ok :: "nat \<Rightarrow> nat \<Rightarrow> tenv \<Rightarrow> bool" where
  "callbacks_ok slop c E \<longleftrightarrow>
     (\<forall>f d s. timers_ok s \<longrightarrow> slop_ok slop s \<longrightarrow>
        timers_ok (callback E f d s) \<and> slop_ok slop (callback E f d s) \<and>
        calms c (NOW E) s (callback E f d s))"

lemma set_running_sel [simp]:
  "tmr (set_running s c r) = tmr s" "heap (queue (set_running s c r) c') = heap (queue s c')"
  "tlist (queue (set_running s c r) c') = tlist (queue s c')" "softirqs (set_running s c r) = softirqs s" "deadline_start (set_running s c r) = deadline_start s"
  by (simp_all add: set_running_def)

lemma set_running_ok [simp]:
  "all_but R (set_running s c r) = all_but R s" "slop_ok slop (set_running s c r) = slop_ok slop s"
  "calms c' now s1 (set_running s c r) = calms c' now s1 s" "calms c' now (set_running s c r) s1 = calms c' now s s1"
  by (simp_all add: all_but_def queue_ok_def complete_def slop_ok_def calms_def due_heap_def due_list_def others_def on_time_def)

lemma execute_timer_spec:
  assumes "callbacks_ok slop c E" "timers_ok s" "slop_ok slop s"
  shows "timers_ok (execute_timer E c t s)" "slop_ok slop (execute_timer E c t s)"
    "calms c (NOW E) s (execute_timer E c t s)" "running (queue (execute_timer E c t s) c) = None"
proof -
  let ?s = "set_running s c (Some t)"
  have "timers_ok (callback E f d ?s) \<and> slop_ok slop (callback E f d ?s) \<and> calms c (NOW E) ?s (callback E f d ?s)" for f d
    using assms unfolding callbacks_ok_def by (metis set_running_ok(1,2))
  then show "timers_ok (execute_timer E c t s)" "slop_ok slop (execute_timer E c t s)"
    "calms c (NOW E) s (execute_timer E c t s)"
    by (simp_all add: execute_timer_def)
  show "running (queue (execute_timer E c t s) c) = None" by (simp add: execute_timer_def set_running_def)
qed

text \<open>A timer leaves the queue of \<open>c\<close>.\<close>

lemma changed_slop:
  assumes "changed t st c s s'" "slop_ok slop s" "active_timer (tmr s t) \<or> st \<notin> {TIMER_STATUS_in_heap, TIMER_STATUS_in_list}"
  shows "slop_ok slop s'"
  unfolding slop_ok_def
proof (intro allI impI)
  fix x assume "active_timer (tmr s' x)"
  then have "active_timer (tmr s x)" using changed_sel(6) [OF assms(1), of x] assms(3) by (auto simp: active_timer_def split: if_splits)
  then show "expires_end (tmr s' x) = expires (tmr s' x) + int slop \<and> expires_end (tmr s' x) \<le> STIME_MAX"
    using assms(2) changed_sel(1,2) [OF assms(1), of x] unfolding slop_ok_def by metis
qed

lemma take_off:
  assumes s: "timers_ok s" "slop_ok slop s" and t: "t \<in> pending (queue s c)"
  obtains s' top where "remove_entry s c t = Some (s', top)" "timers_ok s'" "slop_ok slop s'" "changed t TIMER_STATUS_inactive c s s'"
    "heap_set (heap (queue s' c)) = heap_set (heap (queue s c)) - {t}" "tlist (queue s' c) = removeAll t (tlist (queue s c))"
    "overflow (queue s' c) = overflow (queue s c)"
    "due_heap c now s' = due_heap c now s - {t}" "due_list c now s' = due_list c now s - {t}" "calms c now s s'"
proof -
  note q = timers_okD(1) [OF s(1), of c]
  obtain s' top where r: "remove_entry s c t = Some (s', top)" "timers_ok s'" "changed t TIMER_STATUS_inactive c s s'"
    "heap_set (heap (queue s' c)) = heap_set (heap (queue s c)) - {t}" "tlist (queue s' c) = removeAll t (tlist (queue s c))"
    "overflow (queue s' c) = overflow (queue s c)"
    by (rule remove_entry_spec [OF s(1) queue_okD(7) [OF q t] _ queue_okD(3) [OF q t]]) auto
  have "slop_ok slop s'" by (rule changed_slop [OF r(3) s(2)]) simp
  moreover have "due_heap c now s' = due_heap c now s - {t}" "due_list c now s' = due_list c now s - {t}"
    using r(4,5) changed_sel(1) [OF r(3)] by (auto simp: due_heap_def due_list_def)
  moreover from this have "calms c now s s'" using others_changed [OF r(3)] by (auto simp: calms_def)
  ultimately show thesis using that r by blast
qed

section \<open>Executing timers\<close>

lemma remove_entry_heap:
  assumes "status (tmr s t) = TIMER_STATUS_in_heap" "remove_entry s c t = Some (s', b)"
  obtains tm hp where "remove_from_heap (tmr s) (heap (queue s c)) t = Some (tm, hp, b)"
    "s' = (set_queue s c ((queue s c)\<lparr>heap := hp\<rparr>))\<lparr>tmr := set_status tm t TIMER_STATUS_inactive\<rparr>"
  using assms by (auto simp: remove_entry_def Let_def split: bind_splits prod.splits)

lemma run_heap_spec:
  assumes "callbacks_ok slop c E" "timers_ok s" "slop_ok slop s"
  shows "\<exists>s'. run_heap E c (NOW E) s = Some s' \<and> timers_ok s' \<and> slop_ok slop s' \<and> calms c (NOW E) s s' \<and>
    (\<forall>t \<in> heap_set (heap (queue s' c)). NOW E \<le> expires (tmr s' t))"
  using assms(2,3)
proof (induction "card (due_heap c (NOW E) s)" arbitrary: s rule: less_induct)
  case less
  let ?hp = "heap (queue s c)" and ?now = "NOW E"
  note s = less.prems and h = timers_okD(3) [OF less.prems(1), of c]
  show ?case
  proof (cases "heap_size ?hp = 0")
    case True
    then have "run_heap E c ?now s = Some s" by (subst run_heap.simps) simp
    moreover have "heap_set ?hp = {}" using True by (simp add: heap_set_empty)
    ultimately show ?thesis using s by auto
  next
    case False
    let ?t = "slots ?hp ! 1"
    have ne: "heap_set ?hp \<noteq> {}" using False by (simp add: heap_set_empty)
    note tin = theaps.top_in [OF h ne]
    have "1 < length (slots ?hp)" using heap_okD(2) [OF h] False by linarith
    then have get: "array_get (slots ?hp) 1 = Some ?t" by (rule array_get_in)
    show ?thesis
    proof (cases "expires (tmr s ?t) < ?now")
      case late: False
      then have "run_heap E c ?now s = Some s" using False get by (subst run_heap.simps) simp
      moreover have "?now \<le> expires (tmr s t)" if "t \<in> heap_set ?hp" for t
        using theaps.top_le [OF h that] late by simp
      ultimately show ?thesis using s by auto
    next
      case True
      have tp: "?t \<in> pending (queue s c)" using tin by (simp add: pending_def)
      obtain s1 top where r: "remove_entry s c ?t = Some (s1, top)" "timers_ok s1" "slop_ok slop s1"
        "due_heap c ?now s1 = due_heap c ?now s - {?t}" "due_list c ?now s1 = due_list c ?now s - {?t}" "calms c ?now s s1"
        by (rule take_off [OF s tp]) blast
      obtain tm hp where m: "remove_from_heap (tmr s) ?hp ?t = Some (tm, hp, top)"
        "s1 = (set_queue s c ((queue s c)\<lparr>heap := hp\<rparr>))\<lparr>tmr := set_status tm ?t TIMER_STATUS_inactive\<rparr>"
        by (rule remove_entry_heap [OF queue_okD(2) [OF timers_okD(1) [OF s(1)] tin] r(1)]) blast
      let ?s2 = "execute_timer E c ?t s1"
      note e = execute_timer_spec [OF assms(1) r(2,3), of ?t]
      have "?t \<in> due_heap c ?now s" using tin True by (simp add: due_heap_def)
      then have "card (due_heap c ?now ?s2) < card (due_heap c ?now s)"
        using e(3) r(4,5) by (intro psubset_card_mono) (auto simp: calms_def)
      from less.hyps [OF this e(1,2)] obtain s' where
        i: "run_heap E c ?now ?s2 = Some s'" "timers_ok s'" "slop_ok slop s'" "calms c ?now ?s2 s'"
          "\<forall>t \<in> heap_set (heap (queue s' c)). ?now \<le> expires (tmr s' t)" by blast
      have "run_heap E c ?now s = Some s'"
        using False get True m(1) i(1) [unfolded m(2)] by (subst run_heap.simps) simp
      then show ?thesis using i calms_trans [OF calms_trans [OF r(6) e(3)] i(4)] by blast
    qed
  qed
qed

lemma run_list_spec:
  assumes "callbacks_ok slop c E" "timers_ok s" "slop_ok slop s"
  shows "\<exists>s'. run_list E c (NOW E) s = Some s' \<and> timers_ok s' \<and> slop_ok slop s' \<and> calms c (NOW E) s s' \<and>
    (\<forall>t \<in> set (tlist (queue s' c)). NOW E \<le> expires (tmr s' t))"
  using assms(2,3)
proof (induction "card (due_list c (NOW E) s)" arbitrary: s rule: less_induct)
  case less
  let ?now = "NOW E"
  note s = less.prems and q = timers_okD(1) [OF less.prems(1), of c]
  show ?case
  proof (cases "tlist (queue s c)")
    case Nil
    then have "run_list E c ?now s = Some s" by (subst run_list.simps) simp
    then show ?thesis using s Nil by simp
  next
    case (Cons t l)
    show ?thesis
    proof (cases "expires (tmr s t) < ?now")
      case False
      then have "run_list E c ?now s = Some s" using Cons by (subst run_list.simps) simp
      moreover have "\<forall>x \<in> set (t # l). ?now \<le> expires (tmr s x)" using queue_okD(5) [OF q] False Cons by auto
      ultimately show ?thesis using s Cons by auto
    next
      case True
      have tl: "t \<in> set (tlist (queue s c))" using Cons by simp
      then have tp: "t \<in> pending (queue s c)" by (simp add: pending_def)
      obtain s1 top where r: "remove_entry s c t = Some (s1, top)" "timers_ok s1" "slop_ok slop s1"
        "due_heap c ?now s1 = due_heap c ?now s - {t}" "due_list c ?now s1 = due_list c ?now s - {t}" "calms c ?now s s1"
        by (rule take_off [OF s tp]) blast
      have s1: "s1 = (set_queue s c ((queue s c)\<lparr>tlist := l\<rparr>))\<lparr>tmr := set_status (tmr s) t TIMER_STATUS_inactive\<rparr>"
        using r(1) queue_okD(6) [OF q tl] Cons by (simp add: remove_entry_def Let_def)
      let ?s2 = "execute_timer E c t s1"
      note e = execute_timer_spec [OF assms(1) r(2,3), of t]
      have "t \<in> due_list c ?now s" using tl True by (simp add: due_list_def)
      then have "card (due_list c ?now ?s2) < card (due_list c ?now s)"
        using e(3) r(4,5) by (intro psubset_card_mono) (auto simp: calms_def)
      from less.hyps [OF this e(1,2)] obtain s' where
        i: "run_list E c ?now ?s2 = Some s'" "timers_ok s'" "slop_ok slop s'" "calms c ?now ?s2 s'"
          "\<forall>t \<in> set (tlist (queue s' c)). ?now \<le> expires (tmr s' t)" by blast
      have "run_list E c ?now s = Some s'"
        using Cons True i(1) by (subst run_list.simps) (simp add: s1 [symmetric])
      then show ?thesis using i calms_trans [OF calms_trans [OF r(6) e(3)] i(4)] by blast
    qed
  qed
qed

section \<open>Refilling the heap\<close>

lemma requeue_spec:
  assumes "all_but (set ts) s" "slop_ok slop s" "distinct ts"
    and "\<And>t. t \<in> set ts \<Longrightarrow> status (tmr s t) = TIMER_STATUS_in_list \<and> cpu (tmr s t) = c \<and> t \<notin> pending (queue s c)"
  shows "\<exists>s'. requeue c ts s = Some s' \<and> timers_ok s' \<and> slop_ok slop s' \<and>
    pending (queue s' c) = pending (queue s c) \<union> set ts \<and>
    (\<forall>x. expires (tmr s' x) = expires (tmr s x) \<and> cpu (tmr s' x) = cpu (tmr s x) \<and>
       active_timer (tmr s' x) = active_timer (tmr s x)) \<and>
    (\<forall>c'. c' \<noteq> c \<longrightarrow> queue s' c' = queue s c') \<and> softirqs s' = softirqs s \<and> deadline_start s' = deadline_start s \<and>
    running (queue s' c) = running (queue s c)"
  using assms
proof (induction ts arbitrary: s)
  case (Cons t ts)
  note ok = Cons.prems(1) and tt = Cons.prems(4)
  let ?base = "s\<lparr>tmr := set_status (tmr s) t TIMER_STATUS_inactive\<rparr>"
  have t: "status (tmr s t) = TIMER_STATUS_in_list" "cpu (tmr s t) = c" "t \<notin> pending (queue s c)" using tt by auto
  have nt: "x \<noteq> t" if "x \<in> pending (queue s c')" for x c'
    using that t queue_okD(3) [of "tmr s" c' "queue s c'" t] ok by (auto simp: all_but_def)
  have "queue_ok (tmr ?base) c' (queue s c')" for c'
    by (rule queue_ok_cong [of _ _ "tmr s"]) (use nt ok in \<open>auto simp: all_but_def\<close>)
  moreover have "complete (set (t # ts)) (tmr ?base) c' (queue s c')" for c'
    using ok by (auto simp: all_but_def complete_def)
  ultimately have ok0: "all_but (set (t # ts)) ?base" by (simp add: all_but_def)
  have rest: "set (t # ts) - {t} = set ts" using Cons.prems(3) by auto
  obtain s1 b st where a: "add_entry ?base c t = Some (s1, b)" "all_but (set ts) s1" "changed t st c ?base s1"
    "pending (queue s1 c) = insert t (pending (queue s c))" "st \<in> {TIMER_STATUS_in_heap, TIMER_STATUS_in_list}"
  proof (rule add_entry_spec [OF ok0, of t c])
    show "status (tmr ?base t) = TIMER_STATUS_inactive" "cpu (tmr ?base t) = c" using t by simp_all
  next
    fix s1
    assume r: "add_entry ?base c t = Some (s1, slots (heap (queue s1 c)) ! 1 = t)" "all_but (set (t # ts) - {t}) s1"
      "changed t TIMER_STATUS_in_heap c ?base s1" "heap_set (heap (queue s1 c)) = insert t (heap_set (heap (queue ?base c)))"
      "tlist (queue s1 c) = tlist (queue ?base c)"
    show thesis by (rule that [OF r(1) _ r(3)]) (use r(2,4,5) rest in \<open>auto simp: pending_def\<close>)
  next
    fix s1 l b
    assume r: "add_entry ?base c t = Some (s1, b)" "all_but (set (t # ts) - {t}) s1" "changed t TIMER_STATUS_in_list c ?base s1"
      "heap (queue s1 c) = heap (queue ?base c)" "add_to_list (tmr s1) (tlist (queue ?base c)) t = (l, b)" "tlist (queue s1 c) = l"
    have q0: "queue_ok (tmr ?base) c (queue s c)" using ok0 by (simp add: all_but_def)
    have "sorted (map (\<lambda>t. expires (tmr s1 t)) (tlist (queue s c)))" using queue_okD(5) [OF q0] changed_sel(1) [OF r(3)] by simp
    from add_to_list_spec(3) [OF this queue_okD(4) [OF q0] _ r(5) [simplified]]
    have "set l = insert t (set (tlist (queue s c)))" using t(3) by (auto simp: pending_def)
    then show thesis by (intro that [OF r(1) _ r(3)]) (use r(2,4,6) rest in \<open>auto simp: pending_def\<close>)
  qed
  note sel = changed_sel [OF a(3)]
  have act: "active_timer (tmr s1 x) = active_timer (tmr s x)" for x
    using sel(6) [of x] t(1) a(5) by (auto simp: active_timer_def)
  have ex: "expires_end (tmr s1 x) = expires_end (tmr s x)" "expires (tmr s1 x) = expires (tmr s x)" "cpu (tmr s1 x) = cpu (tmr s x)" for x
    using sel by simp_all
  have "slop_ok slop s1" using Cons.prems(2) unfolding slop_ok_def act ex by assumption
  moreover have "status (tmr s1 x) = TIMER_STATUS_in_list \<and> cpu (tmr s1 x) = c \<and> x \<notin> pending (queue s1 c)" if "x \<in> set ts" for x
    using tt [of x] sel(6) [of x] ex(3) a(4) that Cons.prems(3) by auto
  ultimately obtain s' where "requeue c ts s1 = Some s'" "timers_ok s'" "slop_ok slop s'"
    "pending (queue s' c) = pending (queue s1 c) \<union> set ts"
    "\<forall>x. expires (tmr s' x) = expires (tmr s1 x) \<and> cpu (tmr s' x) = cpu (tmr s1 x) \<and> active_timer (tmr s' x) = active_timer (tmr s1 x)"
    "\<forall>c'. c' \<noteq> c \<longrightarrow> queue s' c' = queue s1 c'" "softirqs s' = softirqs s1" "deadline_start s' = deadline_start s1"
    "running (queue s' c) = running (queue s1 c)"
    using Cons.IH [OF a(2)] Cons.prems(3) by auto
  then show ?case using a(1,4) sel act by auto
qed simp

section \<open>Choosing the deadline\<close>

lemma moved_set_status:
  assumes "moved S u v"
  shows "moved S (set_status u t d) (set_status v t d)"
proof -
  have swap: "(y :: timer)\<lparr>heap_offset := a, status := b\<rparr> = y\<lparr>status := b, heap_offset := a\<rparr>" for y a b by (cases y) simp
  have "set_status v t d x = (set_status u t d x)\<lparr>heap_offset := heap_offset (set_status v t d x)\<rparr> \<and>
      (x \<notin> S \<longrightarrow> set_status v t d x = set_status u t d x)" for x
  proof -
    have v: "v x = (u x)\<lparr>heap_offset := heap_offset (v x)\<rparr>" "x \<notin> S \<longrightarrow> v x = u x" using assms unfolding moved_def by blast+
    have "(v x)\<lparr>status := d\<rparr> = (u x)\<lparr>status := d, heap_offset := heap_offset (v x)\<rparr>" by (subst v(1)) (rule swap)
    then show ?thesis using v by (auto simp: set_status_def)
  qed
  then show ?thesis unfolding moved_def by blast
qed

text \<open>The first timer of the heap moves to the end of the list.\<close>

lemma move_to_list:
  assumes s: "timers_ok s" "slop_ok slop s" and t: "t \<in> heap_set (heap (queue s c))"
    and le: "\<And>x. x \<in> set (tlist (queue s c)) \<Longrightarrow> expires (tmr s x) \<le> expires (tmr s t)"
  obtains s1 b s2 where "remove_entry s c t = Some (s1, b)"
    "s2 = (set_queue s1 c ((queue s1 c)\<lparr>tlist := tlist (queue s1 c) @ [t]\<rparr>))\<lparr>tmr := set_status (tmr s1) t TIMER_STATUS_in_list\<rparr>"
    "timers_ok s2" "slop_ok slop s2" "heap_set (heap (queue s2 c)) = heap_set (heap (queue s c)) - {t}"
    "tlist (queue s2 c) = tlist (queue s c) @ [t]" "overflow (queue s2 c) = overflow (queue s c)"
    "changed t TIMER_STATUS_in_list c s s2"
proof -
  note q = timers_okD(1) [OF s(1), of c]
  have tp: "t \<in> pending (queue s c)" using t by (simp add: pending_def)
  have tl: "t \<notin> set (tlist (queue s c))" using queue_okD(2) [OF q t] queue_okD(6) [OF q] by force
  obtain s1 b where r: "remove_entry s c t = Some (s1, b)" "timers_ok s1" "slop_ok slop s1" "changed t TIMER_STATUS_inactive c s s1"
    "heap_set (heap (queue s1 c)) = heap_set (heap (queue s c)) - {t}" "tlist (queue s1 c) = removeAll t (tlist (queue s c))"
    "overflow (queue s1 c) = overflow (queue s c)"
    by (rule take_off [OF s tp]) blast
  define s2 where "s2 = (set_queue s1 c ((queue s1 c)\<lparr>tlist := tlist (queue s1 c) @ [t]\<rparr>))\<lparr>tmr := set_status (tmr s1) t TIMER_STATUS_in_list\<rparr>"
  note sel = changed_sel [OF r(4)] and q1 = timers_okD(1) [OF r(2), of c]
  have l1: "tlist (queue s1 c) = tlist (queue s c)" using r(6) tl by (simp add: removeAll_id)
  have ct: "cpu (tmr s1 t) = c" using queue_okD(3) [OF q tp] sel(3) by simp
  have tm2: "tmr s2 x = tmr s1 x" if "x \<noteq> t" for x using that by (simp add: s2_def)
  have tm2t: "status (tmr s2 t) = TIMER_STATUS_in_list" "expires (tmr s2 x) = expires (tmr s1 x)"
    "expires_end (tmr s2 x) = expires_end (tmr s1 x)" "cpu (tmr s2 x) = cpu (tmr s1 x)" for x
    by (simp_all add: s2_def)
  have stat2: "status (tmr s2 x) = (if x = t then TIMER_STATUS_in_list else status (tmr s1 x))" for x by (simp add: s2_def)
  have h2: "heap_ok (tmr s2) (heap (queue s1 c))"
    by (rule heap_ok_cong [OF _ queue_okD(1) [OF q1]]) (use tm2 r(5) in auto)
  have srt: "sorted (map (\<lambda>x. expires (tmr s2 x)) (tlist (queue s1 c) @ [t]))"
    using queue_okD(5) [OF q1] le l1 sel(1) tm2t(2) by (auto simp: sorted_append)
  have "queue_ok (tmr s2) c ((queue s1 c)\<lparr>tlist := tlist (queue s1 c) @ [t]\<rparr>)"
    unfolding queue_ok_def
  proof (intro conjI)
    let ?q = "(queue s1 c)\<lparr>tlist := tlist (queue s1 c) @ [t]\<rparr>"
    show "heap_ok (tmr s2) (heap ?q)" "heap_limit (heap ?q) \<in> heap_limits" using h2 q1 by (simp_all add: queue_ok_def)
    show "\<forall>x \<in> heap_set (heap ?q). status (tmr s2 x) = TIMER_STATUS_in_heap \<and> cpu (tmr s2 x) = c"
      using q1 r(5) stat2 tm2t(4) by (simp add: queue_ok_def)
    show "distinct (tlist ?q)" using queue_okD(4) [OF q1] l1 tl by simp
    show "sorted (map (\<lambda>x. expires (tmr s2 x)) (tlist ?q))" using srt by simp
    show "\<forall>x \<in> set (tlist ?q). status (tmr s2 x) = TIMER_STATUS_in_list \<and> cpu (tmr s2 x) = c"
      using q1 stat2 tm2t(4) ct by (simp add: queue_ok_def)
  qed
  moreover have "complete {} (tmr s2) c ((queue s1 c)\<lparr>tlist := tlist (queue s1 c) @ [t]\<rparr>)"
    using timers_okD(2) [OF r(2), of c] stat2 tm2t(4) by (simp add: complete_def)
  ultimately have ok2: "timers_ok s2"
  proof (rule timers_ok_upd [OF r(2)])
    fix x assume "tmr s2 x \<noteq> tmr s1 x"
    then have "x = t" using tm2 by blast
    then show "(cpu (tmr s1 x) = c \<or> \<not> active_timer (tmr s1 x)) \<and> (cpu (tmr s2 x) = c \<or> \<not> active_timer (tmr s2 x))"
      using ct tm2t by simp
  qed (simp_all add: s2_def)
  have ch: "changed t TIMER_STATUS_in_list c s s2"
  proof -
    have "set_status (set_status u t a) t d = set_status u t d" for u a d by (simp add: set_status_def)
    moreover have "tmr s2 = set_status (tmr s1) t TIMER_STATUS_in_list" by (simp add: s2_def)
    ultimately have "moved UNIV (set_status (tmr s) t TIMER_STATUS_in_list) (tmr s2)"
      using r(4) moved_set_status [of UNIV "set_status (tmr s) t TIMER_STATUS_inactive" "tmr s1" t TIMER_STATUS_in_list]
      by (simp add: changed_def)
    then show ?thesis using r(4) by (simp add: changed_def s2_def)
  qed
  have "slop_ok slop s2" by (rule changed_slop [OF ch s(2)]) (use queue_okD(7) [OF q tp] in simp)
  then show thesis using that [OF r(1) s2_def ok2 _ _ _ _ ch] r(5,7) l1 by (simp add: s2_def)
qed

text \<open>
  A deadline range for CPU \<open>c\<close>: every timer in the list is due at its start at the latest and may
  wait until its end, and every timer in the heap is due later.
\<close>

definition range_ok :: "nat \<Rightarrow> int \<Rightarrow> int \<Rightarrow> tstate \<Rightarrow> bool" where
  "range_ok c st en s \<longleftrightarrow>
     (\<forall>t \<in> set (tlist (queue s c)). expires (tmr s t) \<le> st \<and> en \<le> expires_end (tmr s t)) \<and>
     (if tlist (queue s c) = [] then en = STIME_MAX
      else st \<le> en \<and> (\<forall>t \<in> heap_set (heap (queue s c)). st \<le> expires (tmr s t)))"

definition same_armed :: "nat \<Rightarrow> tstate \<Rightarrow> tstate \<Rightarrow> bool" where
  "same_armed c s s' \<longleftrightarrow>
     armed s' = armed s \<and> pending (queue s' c) = pending (queue s c) \<and>
     (\<forall>x. expires (tmr s' x) = expires (tmr s x) \<and> cpu (tmr s' x) = cpu (tmr s x)) \<and>
     (\<forall>c'. c' \<noteq> c \<longrightarrow> queue s' c' = queue s c') \<and> softirqs s' = softirqs s \<and>
     running (queue s' c) = running (queue s c) \<and> overflow (queue s' c) = overflow (queue s c) \<and>
     (\<forall>c'. c' \<noteq> c \<longrightarrow> deadline_start s' c' = deadline_start s c') \<and> (\<forall>x. expires_end (tmr s' x) = expires_end (tmr s x))"

lemma same_armed_refl [simp]: "same_armed c s s"
  by (simp add: same_armed_def)

lemma same_armed_trans: "same_armed c a b \<Longrightarrow> same_armed c b d \<Longrightarrow> same_armed c a d"
  by (simp add: same_armed_def)

lemma batch_spec:
  assumes "timers_ok s" "slop_ok slop s" "range_ok c st en s"
  shows "\<exists>s' st' en'. batch c st en s = Some (s', st', en') \<and> timers_ok s' \<and> slop_ok slop s' \<and> same_armed c s s' \<and>
    range_ok c st' en' s' \<and> (\<forall>t \<in> heap_set (heap (queue s' c)). en' < expires (tmr s' t))"
  using assms
proof (induction "heap_size (heap (queue s c))" arbitrary: s st en rule: less_induct)
  case less
  let ?hp = "heap (queue s c)"
  note s = less.prems(1,2) and rg = less.prems(3) and h = timers_okD(3) [OF less.prems(1), of c]
  show ?case
  proof (cases "heap_size ?hp = 0")
    case True
    then have "batch c st en s = Some (s, st, en)" by (subst batch.simps) simp
    moreover have "heap_set ?hp = {}" using True by (simp add: heap_set_empty)
    ultimately show ?thesis using s rg by auto
  next
    case False
    let ?t = "slots ?hp ! 1"
    have ne: "heap_set ?hp \<noteq> {}" using False by (simp add: heap_set_empty)
    note tin = theaps.top_in [OF h ne]
    have "1 < length (slots ?hp)" using heap_okD(2) [OF h] False by linarith
    then have get: "array_get (slots ?hp) 1 = Some ?t" by (rule array_get_in)
    show ?thesis
    proof (cases "expires (tmr s ?t) \<le> en")
      case late: False
      then have "batch c st en s = Some (s, st, en)" using False get by (subst batch.simps) simp
      moreover have "en < expires (tmr s t)" if "t \<in> heap_set ?hp" for t
        using theaps.top_le [OF h that] late by simp
      ultimately show ?thesis using s rg by auto
    next
      case True
      have le: "expires (tmr s x) \<le> expires (tmr s ?t)" if "x \<in> set (tlist (queue s c))" for x
        using rg tin that by (force simp: range_ok_def split: if_splits)
      obtain s1 b s2 where r: "remove_entry s c ?t = Some (s1, b)"
        "s2 = (set_queue s1 c ((queue s1 c)\<lparr>tlist := tlist (queue s1 c) @ [?t]\<rparr>))\<lparr>tmr := set_status (tmr s1) ?t TIMER_STATUS_in_list\<rparr>"
        "timers_ok s2" "slop_ok slop s2" "heap_set (heap (queue s2 c)) = heap_set ?hp - {?t}"
        "tlist (queue s2 c) = tlist (queue s c) @ [?t]" "overflow (queue s2 c) = overflow (queue s c)"
        "changed ?t TIMER_STATUS_in_list c s s2"
        by (rule move_to_list [OF s tin le]) blast
      note sel = changed_sel [OF r(8)] and h2 = timers_okD(3) [OF r(3), of c]
      have tp: "?t \<in> pending (queue s c)" using tin by (simp add: pending_def)
      have at: "active_timer (tmr s ?t)" by (rule queue_okD(7) [OF timers_okD(1) [OF s(1)] tp])
      have "armed s2 x = armed s x" for x
        using at sel(1,3,6) [of x] by (auto simp: armed_def active_timer_def)
      then have sa: "same_armed c s s2" using sel r(5-7) tin by (auto simp: same_armed_def pending_def fun_eq_iff)
      let ?st = "expires (tmr s2 ?t)" and ?en = "min en (expires_end (tmr s2 ?t))"
      have exe: "expires (tmr s ?t) \<le> expires_end (tmr s ?t)" using s(2) at by (simp add: slop_ok_def)
      have "range_ok c ?st ?en s2"
        unfolding range_ok_def
      proof (intro conjI)
        show "\<forall>t \<in> set (tlist (queue s2 c)). expires (tmr s2 t) \<le> ?st \<and> ?en \<le> expires_end (tmr s2 t)"
          using le rg r(6) sel(1,2) by (auto simp: range_ok_def min_def)
        have "?st \<le> ?en" using True exe sel(1,2) by simp
        moreover have "?st \<le> expires (tmr s2 x)" if "x \<in> heap_set (heap (queue s2 c))" for x
          using theaps.top_le [OF h, of x] that r(5) sel(1) by simp
        ultimately show "if tlist (queue s2 c) = [] then ?en = STIME_MAX
            else ?st \<le> ?en \<and> (\<forall>t \<in> heap_set (heap (queue s2 c)). ?st \<le> expires (tmr s2 t))" using r(6) by auto
      qed
      moreover have "heap_size (heap (queue s2 c)) < heap_size ?hp"
      proof -
        have "card (heap_set (heap (queue s2 c))) < card (heap_set ?hp)" unfolding r(5) by (rule card_Diff1_less) (use tin in simp_all)
        then show ?thesis by (simp add: heap_set_card [OF h] heap_set_card [OF h2])
      qed
      ultimately obtain s' st' en' where i: "batch c ?st ?en s2 = Some (s', st', en')" "timers_ok s'" "slop_ok slop s'"
        "same_armed c s2 s'" "range_ok c st' en' s'" "\<forall>t \<in> heap_set (heap (queue s' c)). en' < expires (tmr s' t)"
        using less.hyps [of s2 ?st ?en] r(3,4) by blast
      have "batch c st en s = Some (s', st', en')"
        using False get True r(1) i(1) [unfolded r(2)] by (subst batch.simps) (simp add: Let_def)
      then show ?thesis using i same_armed_trans [OF sa i(4)] by blast
    qed
  qed
qed

lemma set_queue_ok:
  assumes "q' = (queue s c)\<lparr>overflow := b\<rparr>"
  shows "all_but R (set_queue s c q') = all_but R s" "slop_ok slop (set_queue s c q') = slop_ok slop s"
    "range_ok c st en (set_queue s c q') = range_ok c st en s"
  using assms by (auto simp: all_but_def queue_ok_def complete_def slop_ok_def range_ok_def)

lemma set_deadline_sel [simp]:
  "tmr (set_deadline s c a b) = tmr s" "queue (set_deadline s c a b) = queue s" "softirqs (set_deadline s c a b) = softirqs s"
  "deadline_start (set_deadline s c a b) = (deadline_start s)(c := a)" "deadline_end (set_deadline s c a b) = (deadline_end s)(c := b)"
  by (simp_all add: set_deadline_def)

lemma set_deadline_ok [simp]:
  "all_but R (set_deadline s c a b) = all_but R s" "slop_ok slop (set_deadline s c a b) = slop_ok slop s"
  by (simp_all add: all_but_def slop_ok_def)

text \<open>
  The chosen deadline.  Unless the heap has overflowed, the deadline range lies in the permitted
  range of every timer that it serves.
\<close>

definition served :: "nat \<Rightarrow> tstate \<Rightarrow> bool" where
  "served c s \<longleftrightarrow>
     overflow (queue s c) \<or>
     (\<forall>t \<in> set (tlist (queue s c)). expires (tmr s t) \<le> deadline_start s c \<and> deadline_start s c \<le> deadline_end s c \<and>
        deadline_end s c \<le> expires_end (tmr s t)) \<and>
     (\<forall>t \<in> heap_set (heap (queue s c)). deadline_end s c < expires (tmr s t))"

lemma armed_cong: "tmr s = tmr s' \<Longrightarrow> armed s = armed s'"
  by (simp add: armed_def fun_eq_iff)

lemma slop_cong: "tmr s = tmr s' \<Longrightarrow> slop_ok slop s = slop_ok slop s'"
  unfolding slop_ok_def by (erule ssubst) (rule refl)

lemma pick_deadline_spec:
  assumes s: "timers_ok s" "slop_ok slop s"
  shows "\<exists>s'. pick_deadline c s = Some s' \<and> timers_ok s' \<and> slop_ok slop s' \<and> on_time s' c \<and> served c s' \<and>
    armed s' = armed s \<and> pending (queue s' c) = pending (queue s c) \<and> softirqs s' = softirqs s \<and>
    (\<forall>x. expires (tmr s' x) = expires (tmr s x)) \<and>
    (\<forall>c'. c' \<noteq> c \<longrightarrow> queue s' c' = queue s c' \<and> deadline_start s' c' = deadline_start s c')"
proof (cases "tlist (queue s c)")
  case Nil
  let ?base = "set_queue s c ((queue s c)\<lparr>overflow := False\<rparr>)"
  have "range_ok c 0 STIME_MAX ?base" using Nil by (simp add: range_ok_def)
  then obtain s1 st en where b: "batch c 0 STIME_MAX ?base = Some (s1, st, en)" "timers_ok s1" "slop_ok slop s1"
    "same_armed c ?base s1" "range_ok c st en s1" "\<forall>t \<in> heap_set (heap (queue s1 c)). en < expires (tmr s1 t)"
    using batch_spec [of ?base slop c 0 STIME_MAX] s set_queue_ok [OF refl] by metis
  let ?s = "set_deadline s1 c st en"
  have res: "pick_deadline c s = Some ?s" using Nil b(1) by (simp add: pick_deadline_def Let_def)
  have ovf: "\<not> overflow (queue s1 c)" using b(4) by (simp add: same_armed_def)
  have "served c ?s" using b(5,6) ovf by (auto simp: served_def range_ok_def split: if_splits)
  moreover have "on_time ?s c"
  proof (cases "tlist (queue s1 c) = []")
    case True
    have "heap_set (heap (queue s1 c)) = {}"
    proof (rule ccontr)
      assume "heap_set (heap (queue s1 c)) \<noteq> {}"
      then obtain t where t: "t \<in> heap_set (heap (queue s1 c))" by blast
      then have "active_timer (tmr s1 t)" using queue_okD(7) [OF timers_okD(1) [OF b(2)], of t c] by (simp add: pending_def)
      then have "expires (tmr s1 t) \<le> STIME_MAX" using b(3) unfolding slop_ok_def by (metis add_increasing2 dual_order.trans of_nat_0_le_iff order_refl)
      then show False using b(5,6) True t by (auto simp: range_ok_def)
    qed
    then show ?thesis using True by (simp add: on_time_def)
  next
    case False
    then show ?thesis using b(5) by (auto simp: on_time_def range_ok_def)
  qed
  moreover have "armed ?s = armed s"
  proof -
    have "armed ?s = armed s1" by (rule armed_cong) simp
    also have "\<dots> = armed ?base" using b(4) unfolding same_armed_def by blast
    also have "\<dots> = armed s" by (rule armed_cong) simp
    finally show ?thesis .
  qed
  moreover have "pending (queue ?s c) = pending (queue s c)" "softirqs ?s = softirqs s" "expires (tmr ?s x) = expires (tmr s x)" for x
    using b(4) by (auto simp: same_armed_def pending_def)
  moreover have "queue ?s c' = queue s c' \<and> deadline_start ?s c' = deadline_start s c'" if "c' \<noteq> c" for c'
    using b(4) that by (simp add: same_armed_def)
  ultimately show ?thesis using res b(2,3) by (intro exI [of _ ?s]) simp
next
  case (Cons u l)
  let ?q = "queue s c"
  let ?base = "set_queue s c (?q\<lparr>overflow := True\<rparr>)"
  note q = timers_okD(1) [OF s(1), of c] and h = timers_okD(3) [OF s(1), of c]
  define st where "st = (if heap_size (heap ?q) \<noteq> 0 then min (expires (tmr s (slots (heap ?q) ! 1))) (expires (tmr s u)) else expires (tmr s u))"
  have get: "array_get (slots (heap ?q)) 1 = Some (slots (heap ?q) ! 1)" if "heap_size (heap ?q) \<noteq> 0"
    using heap_okD(2) [OF h] that by (intro array_get_in) linarith
  have res: "pick_deadline c s = Some (set_deadline ?base c st st)"
    using Cons get by (auto simp: pick_deadline_def Let_def st_def)
  have "st \<le> expires_end (tmr s t)" if "t \<in> set (tlist ?q)" for t
  proof -
    have "st \<le> expires (tmr s u)" by (simp add: st_def)
    also have "\<dots> \<le> expires (tmr s t)" using queue_okD(5) [OF q] that Cons by auto
    also have "\<dots> \<le> expires_end (tmr s t)"
      using s(2) queue_okD(7) [OF q, of t] that by (simp add: slop_ok_def pending_def)
    finally show ?thesis .
  qed
  moreover have "st \<le> expires (tmr s t)" if "t \<in> heap_set (heap ?q)" for t
  proof -
    have "heap_size (heap ?q) \<noteq> 0" using that by (auto simp: heap_set_def elems_def)
    then show ?thesis using theaps.top_le [OF h that] by (simp add: st_def)
  qed
  ultimately have "on_time (set_deadline ?base c st st) c" by (simp add: on_time_def)
  then show ?thesis using res s by (auto simp: set_queue_ok [OF refl] served_def armed_def pending_def)
qed

lemma grow_heap_ok:
  assumes s: "timers_ok s" "slop_ok slop s"
  shows "timers_ok (grow_heap E c s)" "slop_ok slop (grow_heap E c s)" "tmr (grow_heap E c s) = tmr s" "others c s (grow_heap E c s)"
    "heap_set (heap (queue (grow_heap E c s) c')) = heap_set (heap (queue s c'))"
    "tlist (queue (grow_heap E c s) c') = tlist (queue s c')"
proof -
  let ?q = "queue s c" and ?hp = "heap (queue s c)"
  define n where "n = (heap_limit ?hp + 1) * 16 - 1"
  define hp where "hp = SET_HEAP_LIMIT (?hp\<lparr>slots := take (heap_limit ?hp + 1) (slots ?hp) @ replicate (n - heap_limit ?hp) 0\<rparr>) n"
  note h = timers_okD(3) [OF s(1), of c] and q = timers_okD(1) [OF s(1), of c]
  have lim: "heap_size ?hp \<le> heap_limit ?hp" "heap_limit ?hp < length (slots ?hp)" "heap_limit ?hp \<in> heap_limits"
    using h q by (auto simp: heap_ok_def queue_ok_def)
  have nth: "slots hp ! i = slots ?hp ! i" if "i \<le> heap_size ?hp" for i
    using that lim by (simp add: hp_def SET_HEAP_LIMIT_def nth_append)
  have ln: "length (slots hp) = n + 1" using lim by (simp add: hp_def SET_HEAP_LIMIT_def n_def)
  have hl: "heap_limit hp = n mod 65536" "heap_size hp = heap_size ?hp" by (simp_all add: hp_def SET_HEAP_LIMIT_def)
  have n: "n mod 65536 \<in> heap_limits" "heap_limit ?hp \<le> n mod 65536" "n mod 65536 \<le> n"
    using lim(3) by (auto simp: heap_limits_def n_def)
  have set: "heap_set hp = heap_set ?hp" unfolding heap_set_def elems_def hl(2) by (rule image_cong) (use nth in auto)
  have hok: "heap_ok (tmr s) hp"
    unfolding heap_ok_def
  proof (intro conjI)
    show "offsets_ok (tmr s) (slots hp) (heap_size hp)" using h nth hl by (simp add: heap_ok_def offsets_ok_def)
    show "\<forall>i \<in> {2..heap_size hp}. edge (tmr s) (slots hp) i"
    proof
      fix i assume i: "i \<in> {2..heap_size hp}"
      then have "i div 2 \<le> heap_size ?hp" "i \<le> heap_size ?hp" using hl by auto
      then show "edge (tmr s) (slots hp) i" using heap_okD(4) [OF h] i nth hl by (simp add: edge_def)
    qed
  qed (use n hl lim ln in \<open>auto simp: heap_limits_def\<close>)
  have "queue_ok (tmr s) c (?q\<lparr>heap := hp\<rparr>)" using q hok set n hl by (simp add: queue_ok_def)
  moreover have "complete {} (tmr s) c (?q\<lparr>heap := hp\<rparr>)"
    using timers_okD(2) [OF s(1), of c] set by (simp add: complete_def)
  ultimately have ok: "timers_ok (set_queue s c (?q\<lparr>heap := hp\<rparr>))" by (rule timers_ok_upd [OF s(1)]) simp_all
  have eq: "grow_heap E c s = (if overflow ?q \<and> heap_alloc_ok E then set_queue s c (?q\<lparr>heap := hp\<rparr>) else s)"
    by (simp add: grow_heap_def Let_def hp_def n_def)
  show "timers_ok (grow_heap E c s)" and tm: "tmr (grow_heap E c s) = tmr s"
    and "heap_set (heap (queue (grow_heap E c s) c')) = heap_set (heap (queue s c'))"
      "tlist (queue (grow_heap E c s) c') = tlist (queue s c')"
    using s ok set by (simp_all add: eq)
  show "slop_ok slop (grow_heap E c s)" using s(2) unfolding slop_ok_def tm by assumption
  show "others c s (grow_heap E c s)" by (simp add: eq others_def on_time_def)
qed

section \<open>The handler\<close>

lemma timer_softirq_spec:
  assumes E: "callbacks_ok slop c E" and s: "timers_ok s" "slop_ok slop s"
  shows "\<exists>s'. timer_softirq_action E c s = Some s' \<and> timers_ok s' \<and> slop_ok slop s' \<and>
    (\<forall>t \<in> pending (queue s' c). NOW E \<le> expires (tmr s' t)) \<and> on_time s' c \<and> served c s' \<and> others c s s' \<and>
    (reprogram_timer E (deadline_start s' c) \<or> c \<in> softirqs s')"
proof -
  let ?now = "NOW E"
  note g = grow_heap_ok [where E = E and c = c, OF s]
  obtain s1 where r1: "run_heap E c ?now (grow_heap E c s) = Some s1" "timers_ok s1" "slop_ok slop s1" "calms c ?now (grow_heap E c s) s1"
    "\<forall>t \<in> heap_set (heap (queue s1 c)). ?now \<le> expires (tmr s1 t)"
    using run_heap_spec [OF E g(1,2)] by blast
  obtain s2 where r2: "run_list E c ?now s1 = Some s2" "timers_ok s2" "slop_ok slop s2" "calms c ?now s1 s2"
    "\<forall>t \<in> set (tlist (queue s2 c)). ?now \<le> expires (tmr s2 t)"
    using run_list_spec [OF E r1(2,3)] by blast
  have "due_heap c ?now s1 = {}" using r1(5) by (force simp: due_heap_def)
  then have "due_heap c ?now s2 = {}" using r2(4) by (simp add: calms_def)
  then have calm: "?now \<le> expires (tmr s2 t)" if "t \<in> pending (queue s2 c)" for t
    using that r2(5) by (force simp: due_heap_def pending_def)
  let ?s2 = "set_queue s2 c ((queue s2 c)\<lparr>tlist := []\<rparr>)" and ?l = "tlist (queue s2 c)"
  note q = timers_okD(1) [OF r2(2), of c]
  have e: "queue_ok (tmr s2) c ((queue s2 c)\<lparr>tlist := []\<rparr>)" using q by (simp add: queue_ok_def)
  have f: "complete (set ?l) (tmr s2) c ((queue s2 c)\<lparr>tlist := []\<rparr>)"
    using timers_okD(2) [OF r2(2), of c] by (auto simp: complete_def)
  have "all_but (set ?l) s2" using r2(2) by (auto simp: all_but_def complete_def)
  then have ok2: "all_but (set ?l) ?s2" by (rule timers_ok_upd [OF _ e f]) (simp_all add: set_queue_def)
  have sl2: "slop_ok slop ?s2" using r2(3) slop_cong [of ?s2 s2] by simp
  have mem: "status (tmr ?s2 t) = TIMER_STATUS_in_list \<and> cpu (tmr ?s2 t) = c \<and> t \<notin> pending (queue ?s2 c)" if "t \<in> set ?l" for t
    using that queue_okD(2,3,6) [OF q, of t] by (auto simp: pending_def)
  obtain s3 where r3: "requeue c ?l ?s2 = Some s3" "timers_ok s3" "slop_ok slop s3"
    "pending (queue s3 c) = pending (queue ?s2 c) \<union> set ?l" "\<forall>x. expires (tmr s3 x) = expires (tmr ?s2 x)"
    "\<forall>c'. c' \<noteq> c \<longrightarrow> queue s3 c' = queue ?s2 c'" "softirqs s3 = softirqs ?s2" "deadline_start s3 = deadline_start ?s2"
    using requeue_spec [OF ok2 sl2 queue_okD(4) [OF q] mem] by blast
  have p3: "pending (queue s3 c) = pending (queue s2 c)" using r3(4) by (auto simp: pending_def)
  obtain s4 where r4: "pick_deadline c s3 = Some s4" "timers_ok s4" "slop_ok slop s4" "on_time s4 c" "served c s4"
    "pending (queue s4 c) = pending (queue s3 c)" "\<forall>x. expires (tmr s4 x) = expires (tmr s3 x)" "softirqs s4 = softirqs s3"
    "\<forall>c'. c' \<noteq> c \<longrightarrow> queue s4 c' = queue s3 c' \<and> deadline_start s4 c' = deadline_start s3 c'"
    using pick_deadline_spec [OF r3(2,3)] by blast
  let ?s' = "if reprogram_timer E (deadline_start s4 c) then s4 else raise_timer_softirq s4 c"
  have sel: "tmr ?s' = tmr s4" "queue ?s' = queue s4" "deadline_start ?s' = deadline_start s4" "deadline_end ?s' = deadline_end s4"
    by (simp_all add: raise_timer_softirq_def)
  have "timer_softirq_action E c s = Some ?s'"
    using r1(1) r2(1) r3(1) r4(1) by (simp add: timer_softirq_action_def)
  moreover have "timers_ok ?s'" "slop_ok slop ?s'" "on_time ?s' c" "served c ?s'"
    using r4(2-5) unfolding all_but_def slop_ok_def on_time_def served_def sel by - assumption+
  moreover have "?now \<le> expires (tmr ?s' t)" if "t \<in> pending (queue ?s' c)" for t
    using that calm r4(6,7) r3(5) p3 sel by simp
  moreover have "reprogram_timer E (deadline_start ?s' c) \<or> c \<in> softirqs ?s'" by (simp add: raise_timer_softirq_def)
  moreover
  have "others c s2 ?s'"
    by (rule others_quiet [OF r2(2,3) \<open>timers_ok ?s'\<close> \<open>slop_ok slop ?s'\<close>])
      (use r3(5-8) r4(7-9) sel in \<open>auto simp: raise_timer_softirq_def\<close>)
  then have "others c s1 ?s'" by (rule others_trans [rotated]) (use r2(4) in \<open>simp add: calms_def\<close>)
  then have "others c (grow_heap E c s) ?s'" by (rule others_trans [rotated]) (use r1(4) in \<open>simp add: calms_def\<close>)
  from others_trans [OF g(4) this] have "others c s ?s'" .
  ultimately show ?thesis by blast
qed

end
