(* ===== verification/Timer_Theorems.thy ===== *)
theory Timer_Theorems
  imports Timer_Softirq
begin

text \<open>
  What the timers promise: the operations implement a table of armed timers, the per-CPU heaps
  deliver the earliest timer, and in every reachable state a CPU's deadline is early enough for all
  its timers.
\<close>

section \<open>The timer subsystem as a transition system\<close>

text \<open>
  The operations that other parts of the hypervisor call, and the softirq handler, which starts
  with its pending bit cleared.
\<close>

inductive timer_op :: "nat \<Rightarrow> tstate \<Rightarrow> tstate \<Rightarrow> bool" for slop where
  init: "\<not> active_timer (tmr s t) \<Longrightarrow> timer_op slop s (init_timer s t f d c)"
| set: "set_timer slop s t ex = Some s' \<Longrightarrow> - (2 ^ 63) \<le> ex \<Longrightarrow> ex + int slop \<le> STIME_MAX \<Longrightarrow> timer_op slop s s'"
| stop: "stop_timer s t = Some s' \<Longrightarrow> timer_op slop s s'"
| migrate: "migrate_timer s t c = Some s' \<Longrightarrow> c < 65536 \<Longrightarrow> timer_op slop s s'"
| kill: "mark_killed s t = Some s' \<Longrightarrow> timer_op slop s s'"
| softirq: "callbacks_ok slop c E \<Longrightarrow> timer_softirq_action E c (s\<lparr>softirqs := softirqs s - {c}\<rparr>) = Some s' \<Longrightarrow>
    timer_op slop s s'"

definition timers_inv :: "nat \<Rightarrow> tstate \<Rightarrow> bool" where
  "timers_inv slop s \<longleftrightarrow> timers_ok s \<and> slop_ok slop s \<and> punctual s"

text \<open>
  What \<^verbatim>\<open>kill_timer\<close> relies on while it waits: the other processors keep the queues well-formed, do
  not revive the killed timer \<open>t\<close> or start to execute it, and an execution of \<open>t\<close> in progress comes
  closer to its end, which \<open>work\<close> measures.
\<close>

definition relax_ok :: "tid \<Rightarrow> (tstate \<Rightarrow> nat) \<Rightarrow> (nat \<Rightarrow> tstate \<Rightarrow> tstate) \<Rightarrow> bool" where
  "relax_ok t work relax \<longleftrightarrow>
     (\<forall>n s. timers_ok s \<longrightarrow> status (tmr s t) = TIMER_STATUS_killed \<longrightarrow>
        timers_ok (relax n s) \<and> status (tmr (relax n s) t) = TIMER_STATUS_killed \<and>
        (\<forall>c. running (queue (relax n s) c) = Some t \<longrightarrow> running (queue s c) = Some t) \<and>
        (\<forall>c. running (queue s c) = Some t \<longrightarrow> work (relax n s) < work s))"

lemma timer_step_inv: "timer_step slop t s s' \<Longrightarrow> timers_inv slop s \<Longrightarrow> timers_inv slop s'"
  by (simp add: timer_step_def timers_inv_def)

lemma softirq_inv:
  assumes E: "callbacks_ok slop c E" and s: "timers_inv slop s"
    and r: "timer_softirq_action E c (s\<lparr>softirqs := softirqs s - {c}\<rparr>) = Some s'"
  shows "timers_inv slop s'"
proof -
  let ?s = "s\<lparr>softirqs := softirqs s - {c}\<rparr>"
  have "all_but {} ?s" "slop_ok slop ?s"
    using s slop_cong [of ?s s slop] by (simp_all add: timers_inv_def all_but_def)
  from timer_softirq_spec [OF E this] r
  have s': "timers_ok s'" "slop_ok slop s'" "on_time s' c" "others c ?s s'" by auto
  have "c' \<in> softirqs ?s \<or> on_time ?s c'" if "c' \<noteq> c" for c'
    using s that by (auto simp: timers_inv_def punctual_def on_time_def)
  then have "punctual s'" using s'(3,4) unfolding punctual_def others_def by metis
  then show ?thesis using s' by (simp add: timers_inv_def)
qed

lemma timer_op_inv:
  assumes "timer_op slop s s'" "timers_inv slop s"
  shows "timers_inv slop s'"
proof -
  have ok: "timers_ok s" using assms(2) by (simp add: timers_inv_def)
  from assms(1) show ?thesis
  proof cases
    case (init t f d c)
    then show ?thesis using init_timer_ok [OF ok init(2)] assms(2) by (simp add: timers_inv_def)
  next
    case (set t ex)
    with set_timer_spec [OF ok set(2,3), of t] show ?thesis by (metis assms(2) option.inject timer_step_inv)
  next
    case (stop t)
    with stop_timer_spec [OF ok, of t slop] show ?thesis by (metis assms(2) option.inject timer_step_inv)
  next
    case (migrate t c)
    with migrate_timer_spec [OF ok migrate(2), of t slop] show ?thesis by (metis assms(2) option.inject timer_step_inv)
  next
    case (kill t)
    with mark_killed_spec [OF ok, of t slop] show ?thesis by (metis assms(2) option.inject timer_step_inv)
  next
    case (softirq c E)
    then show ?thesis using softirq_inv assms(2) by blast
  qed
qed

interpretation ticks: invariant_steps "timer_op slop" "timers_inv slop" for slop
  by unfold_locales (rule timer_op_inv)

lemma timer_init_inv:
  assumes "\<And>t. \<not> active_timer (tm t)"
  shows "timers_inv slop (timer_init tm)"
proof -
  have "status (tm t) \<noteq> TIMER_STATUS_in_heap" "status (tm t) \<noteq> TIMER_STATUS_in_list" for t
    using assms [of t] by (auto simp: active_timer_def)
  then show ?thesis
    using assms by (simp add: timers_inv_def timer_init_def all_but_def queue_ok_def complete_def heap_ok_def offsets_ok_def
        heap_set_def elems_def heap_limits_def slop_ok_def punctual_def on_time_def)
qed

lemma armed_deadline:
  assumes inv: "timers_inv slop s" and t: "armed s t = Some (c, e)"
  shows "c \<in> softirqs s \<or> deadline_start s c \<le> e + int slop"
proof -
  have act: "active_timer (tmr s t)" "cpu (tmr s t) = c" "expires (tmr s t) = e"
    using t by (auto simp: armed_def split: if_splits)
  have "t \<in> pending (queue s c)" using active_pending [of t "{}" s] act inv by (auto simp: timers_inv_def)
  moreover have "expires_end (tmr s t) = e + int slop" using inv act unfolding timers_inv_def slop_ok_def by metis
  moreover have "c \<in> softirqs s \<or> on_time s c" using inv by (simp add: timers_inv_def punctual_def)
  ultimately show ?thesis using act by (force simp: on_time_def pending_def)
qed

lemma timer_step_armed:
  assumes "timer_step slop t s s'"
  shows "armed s' = (armed s)(t := armed s' t)"
  using frame_sel(5) [OF timer_step_ok(2) [OF assms]] by (auto simp: fun_eq_iff)

lemma map_armed:
  assumes "r = Some s'" "timer_step slop t s s'" "armed s' t = a"
  shows "map_option armed r = Some ((armed s)(t := a))"
  using assms(1,3) timer_step_armed [OF assms(2)] by simp

lemma wait_cpu_ends:
  assumes relax: "relax_ok t work relax" and s: "timers_ok s" "status (tmr s t) = TIMER_STATUS_killed"
  shows "\<exists>n' s'. wait_cpu relax c t n s = Some (n', s') \<and> timers_ok s' \<and> status (tmr s' t) = TIMER_STATUS_killed \<and>
    running (queue s' c) \<noteq> Some t \<and> (\<forall>c'. running (queue s' c') = Some t \<longrightarrow> running (queue s c') = Some t)"
  using s
proof (induction "work s" arbitrary: n s rule: less_induct)
  case less
  show ?case
  proof (cases "running (queue s c) = Some t")
    case True
    have r: "timers_ok (relax n s)" "status (tmr (relax n s) t) = TIMER_STATUS_killed" "work (relax n s) < work s"
      "\<And>c'. running (queue (relax n s) c') = Some t \<Longrightarrow> running (queue s c') = Some t"
      using relax less.prems True unfolding relax_ok_def by blast+
    have "wait_cpu relax c t n s = wait_cpu relax c t (n + 1) (relax n s)" using True by (subst wait_cpu.simps) simp
    then show ?thesis using less.hyps [OF r(3,1,2), of "n + 1"] r(4) by auto
  next
    case False
    then have "wait_cpu relax c t n s = Some (n, s)" by (subst wait_cpu.simps) simp
    then show ?thesis using less.prems False by blast
  qed
qed

lemma wait_all_ends:
  assumes relax: "relax_ok t work relax" and s: "timers_ok s" "status (tmr s t) = TIMER_STATUS_killed"
  shows "\<exists>s'. wait_all relax cs t n s = Some s' \<and> timers_ok s' \<and> status (tmr s' t) = TIMER_STATUS_killed \<and>
    (\<forall>c \<in> set cs. running (queue s' c) \<noteq> Some t) \<and> (\<forall>c. running (queue s' c) = Some t \<longrightarrow> running (queue s c) = Some t)"
  using s
proof (induction cs arbitrary: n s)
  case (Cons c cs)
  obtain n1 s1 where a: "wait_cpu relax c t n s = Some (n1, s1)" "timers_ok s1" "status (tmr s1 t) = TIMER_STATUS_killed"
    "running (queue s1 c) \<noteq> Some t" "\<forall>c'. running (queue s1 c') = Some t \<longrightarrow> running (queue s c') = Some t"
    using wait_cpu_ends [OF relax Cons.prems] by blast
  obtain s' where "wait_all relax cs t n1 s1 = Some s'" "timers_ok s'" "status (tmr s' t) = TIMER_STATUS_killed"
    "\<forall>c \<in> set cs. running (queue s' c) \<noteq> Some t" "\<forall>c. running (queue s' c) = Some t \<longrightarrow> running (queue s1 c) = Some t"
    using Cons.IH [OF a(2,3)] by blast
  then show ?case using a by auto
qed simp

section \<open>A concrete queue\<close>

definition ex_timer :: timer where
  "ex_timer = \<lparr>expires = 0, expires_end = 0, heap_offset = 0, fn = 0, data = 0, cpu = 0, status = TIMER_STATUS_inactive\<rparr>"

definition ex_timers :: tstate where
  "ex_timers = timer_init (\<lambda>_. ex_timer)"

lemma ex_timers_inv: "timers_inv slop ex_timers"
  unfolding ex_timers_def by (rule timer_init_inv) (simp add: active_timer_def ex_timer_def)

lemma ex_timers_ok: "timers_ok ex_timers" "slop_ok slop ex_timers"
  using ex_timers_inv by (simp_all add: timers_inv_def)

text \<open>The state after timer 3 has been set for time 1000: it waits in the overflow list of CPU 0.\<close>

definition ex_armed :: tstate where
  "ex_armed = ex_timers\<lparr>
     tmr := (tmr ex_timers)(3 := ex_timer\<lparr>expires := 1000, expires_end := 1050, status := TIMER_STATUS_in_list\<rparr>),
     queue := (queue ex_timers)(0 := (queue ex_timers 0)\<lparr>overflow := True, tlist := [3]\<rparr>), softirqs := {0}\<rparr>"

lemma ex_armed_set: "set_timer 50 ex_timers 3 1000 = Some ex_armed"
  by (simp add: set_timer_def ex_timers_def timer_init_def ex_timer_def active_timer_def add_timer_def add_entry_def
      add_to_heap_def set_status_def set_offset_def s64_def raise_timer_softirq_def set_queue_def ex_armed_def Let_def bug_on_def)

lemma ex_armed_reachable: "(timer_op 50)\<^sup>*\<^sup>* (timer_init (\<lambda>_. ex_timer)) ex_armed"
  using timer_op.set [OF ex_armed_set] by (simp add: STIME_MAX_def ex_timers_def r_into_rtranclp)

definition ex_heap :: theap where
  "ex_heap = \<lparr>heap_size = 2, heap_limit = 15, slots = [0, 7, 8] @ replicate 13 0\<rparr>"

definition ex_tmap :: tmap where
  "ex_tmap = (\<lambda>_. ex_timer)(7 := ex_timer\<lparr>expires := 10, heap_offset := 1\<rparr>, 8 := ex_timer\<lparr>expires := 20, heap_offset := 2\<rparr>)"

lemma ex_heap_ok: "heap_ok ex_tmap ex_heap" "heap_set ex_heap = {7, 8}"
proof -
  have r: "{2..2::nat} = {2}" "{Suc 0..2::nat} = {1, 2}" by auto
  show "heap_ok ex_tmap ex_heap" "heap_set ex_heap = {7, 8}"
    by (simp_all add: heap_ok_def offsets_ok_def edge_def heap_set_def elems_def ex_heap_def ex_tmap_def r)
qed

section \<open>Properties\<close>

text \<open>
  C7: From boot, whatever sequence of timer operations and softirqs the hypervisor performs, the
  per-CPU queues stay well-formed, and no armed timer can be missed: the CPU of a timer armed for
  time \<open>e\<close> has its timer softirq pending, or its hardware deadline is at most \<open>e\<close> plus the slop.
\<close>

theorem timers_reachable_punctual:
  assumes "(timer_op slop)\<^sup>*\<^sup>* (timer_init tm) s" "\<And>t. \<not> active_timer (tm t)" "armed s t = Some (c, e)"
  shows "timers_ok s \<and> t \<in> pending (queue s c) \<and> (c \<in> softirqs s \<or> deadline_start s c \<le> e + int slop)"
proof -
  have inv: "timers_inv slop s" by (rule ticks.steps_inv [OF assms(1) timer_init_inv]) (rule assms(2))
  then have "t \<in> pending (queue s c)" using active_pending [of t "{}" s] assms(3)
    by (auto simp: timers_inv_def armed_def split: if_splits)
  then show ?thesis using inv armed_deadline [OF inv assms(3)] by (simp add: timers_inv_def)
qed

theorem timers_reachable_punctual_witness:
  "timers_ok ex_armed \<and> 3 \<in> pending (queue ex_armed 0) \<and> (0 \<in> softirqs ex_armed \<or> deadline_start ex_armed 0 \<le> 1000 + int 50)"
  by (rule timers_reachable_punctual [OF ex_armed_reachable])
    (simp_all add: active_timer_def ex_timer_def armed_def ex_armed_def)

text \<open>
  C15: \<^verbatim>\<open>set_timer\<close>, \<^verbatim>\<open>stop_timer\<close> and \<^verbatim>\<open>migrate_timer\<close> implement updates of a table that maps each
  armed timer to its CPU and expiry time: setting arms the timer on its CPU unless it was killed,
  stopping disarms it, migrating moves it, and no other timer changes.
\<close>

theorem timer_ops_refine_armed:
  assumes "timers_ok s" "- (2 ^ 63) \<le> ex" "ex + int slop \<le> STIME_MAX" "new_cpu < 65536"
  shows "map_option armed (set_timer slop s t ex) =
      Some ((armed s)(t := if status (tmr s t) = TIMER_STATUS_killed then None else Some (cpu (tmr s t), ex))) \<and>
    map_option armed (stop_timer s t) = Some ((armed s)(t := None)) \<and>
    map_option armed (migrate_timer s t new_cpu) = Some ((armed s)(t := map_option (\<lambda>(_, e). (new_cpu, e)) (armed s t)))"
proof (intro conjI)
  show "map_option armed (set_timer slop s t ex) =
      Some ((armed s)(t := if status (tmr s t) = TIMER_STATUS_killed then None else Some (cpu (tmr s t), ex)))"
    by (rule set_timer_spec [OF assms(1-3)]) (rule map_armed)
  show "map_option armed (stop_timer s t) = Some ((armed s)(t := None))"
    by (rule stop_timer_spec [OF assms(1), of t slop]) (rule map_armed)
  show "map_option armed (migrate_timer s t new_cpu) = Some ((armed s)(t := map_option (\<lambda>(_, e). (new_cpu, e)) (armed s t)))"
    by (rule migrate_timer_spec [OF assms(1,4), of t slop]) (rule map_armed)
qed

theorem timer_ops_refine_armed_witness:
  "map_option armed (set_timer 50 ex_timers 3 1000) = Some ((armed ex_timers)(3 \<mapsto> (0, 1000))) \<and>
   map_option armed (migrate_timer ex_timers 3 2) = Some (armed ex_timers)"
proof -
  have t: "status (tmr ex_timers 3) = TIMER_STATUS_inactive" "cpu (tmr ex_timers 3) = 0" "armed ex_timers 3 = None"
    by (simp_all add: ex_timers_def timer_init_def ex_timer_def armed_def active_timer_def)
  then have "(armed ex_timers)(3 := None) = armed ex_timers" by auto
  then show ?thesis using timer_ops_refine_armed [OF ex_timers_ok(1), of 1000 50 2 3] t by (simp add: STIME_MAX_def)
qed

text \<open>
  C20: The heap operations keep a well-formed heap: removing a timer takes exactly that timer out
  and tells whether it was the first; adding one to a heap with room puts exactly that timer in;
  element 1 of a heap is a timer with the earliest expiry.
\<close>

theorem timer_heap_correct:
  assumes "heap_ok tm hp" "t \<in> heap_set hp" "u \<notin> heap_set hp" "heap_size hp < heap_limit hp"
  shows "(\<exists>tm' hp'. remove_from_heap tm hp t = Some (tm', hp', slots hp ! 1 = t) \<and> heap_ok tm' hp' \<and>
      heap_set hp' = heap_set hp - {t}) \<and>
    (\<exists>tm' hp'. add_to_heap tm hp u = Some (tm', hp', slots hp' ! 1 = u) \<and> heap_ok tm' hp' \<and>
      heap_set hp' = insert u (heap_set hp)) \<and>
    expires (tm (slots hp ! 1)) \<le> expires (tm t)"
proof (intro conjI)
  show "\<exists>tm' hp'. remove_from_heap tm hp t = Some (tm', hp', slots hp ! 1 = t) \<and> heap_ok tm' hp' \<and> heap_set hp' = heap_set hp - {t}"
    by (rule remove_from_heap_spec [OF assms(1,2)]) blast
  show "\<exists>tm' hp'. add_to_heap tm hp u = Some (tm', hp', slots hp' ! 1 = u) \<and> heap_ok tm' hp' \<and> heap_set hp' = insert u (heap_set hp)"
    by (rule add_to_heap_spec [OF assms(1,3,4)]) blast
  show "expires (tm (slots hp ! 1)) \<le> expires (tm t)" by (rule theaps.top_le [OF assms(1,2)])
qed

theorem timer_heap_correct_witness:
  "(\<exists>tm' hp'. remove_from_heap ex_tmap ex_heap 7 = Some (tm', hp', True) \<and> heap_ok tm' hp' \<and> heap_set hp' = {8}) \<and>
   (\<exists>tm' hp'. add_to_heap ex_tmap ex_heap 9 = Some (tm', hp', slots hp' ! 1 = 9) \<and> heap_ok tm' hp' \<and> heap_set hp' = {9, 7, 8})"
proof -
  have h: "7 \<in> heap_set ex_heap" "9 \<notin> heap_set ex_heap" "heap_size ex_heap < heap_limit ex_heap" "slots ex_heap ! 1 = 7" "{7, 8} - {7} = {8::nat}"
    using ex_heap_ok(2) by (auto simp: ex_heap_def)
  show ?thesis using timer_heap_correct [OF ex_heap_ok(1) h(1-3)] unfolding ex_heap_ok(2) h(4,5) by simp
qed

text \<open>
  C11: The softirq handler returns.  Afterwards no timer of the CPU that was due is left in its
  queue, the queues are well-formed, the deadline is early enough for every timer of the CPU,
  and, unless the heap overflowed, within the permitted range of every timer that the deadline
  serves; if the hardware refuses the deadline, the softirq is raised again.  It is assumed
  (\<open>callbacks_ok\<close>) that the callbacks, with what other CPUs do while they run, keep the queues
  well-formed and arm no timer on this CPU that is already due: the code runs as long as
  it finds a due timer, so with a callback that always arms one it never returns.
\<close>

theorem timer_softirq_serves:
  assumes "callbacks_ok slop c E" "timers_ok s" "slop_ok slop s"
  shows "\<exists>s'. timer_softirq_action E c s = Some s' \<and> timers_ok s' \<and> slop_ok slop s' \<and>
    (\<forall>t \<in> pending (queue s' c). NOW E \<le> expires (tmr s' t)) \<and> on_time s' c \<and> served c s' \<and>
    (reprogram_timer E (deadline_start s' c) \<or> c \<in> softirqs s')"
  using timer_softirq_spec [OF assms] by blast

definition ex_tenv :: tenv where
  "ex_tenv = \<lparr>heap_alloc_ok = True, NOW = 2000, callback = (\<lambda>_ _ s. s), reprogram_timer = (\<lambda>_. True)\<rparr>"

theorem timer_softirq_serves_witness:
  "\<exists>s'. timer_softirq_action ex_tenv 0 ex_armed = Some s' \<and> timers_ok s' \<and>
    (\<forall>t \<in> pending (queue s' 0). 2000 \<le> expires (tmr s' t)) \<and> on_time s' 0 \<and> served 0 s'"
proof -
  have "callbacks_ok 50 0 ex_tenv" by (simp add: callbacks_ok_def ex_tenv_def)
  moreover have "timers_inv 50 ex_armed"
    by (rule timer_op_inv [OF timer_op.set [OF ex_armed_set] ex_timers_inv]) (simp_all add: STIME_MAX_def)
  ultimately show ?thesis using timer_softirq_serves [of 50 0 ex_tenv ex_armed]
    by (auto simp: timers_inv_def ex_tenv_def)
qed

text \<open>
  C24: \<^verbatim>\<open>kill_timer\<close> returns once every execution of the timer in progress has ended; then the timer
  is killed, in no queue, and no online CPU executes it.
\<close>

theorem kill_timer_stops:
  assumes "timers_ok s" "running (queue s this_cpu) \<noteq> Some t" "relax_ok t work relax"
  shows "\<exists>s'. kill_timer relax online this_cpu s t = Some s' \<and> timers_ok s' \<and> armed s' t = None \<and>
    status (tmr s' t) = TIMER_STATUS_killed \<and> (\<forall>c \<in> set online. running (queue s' c) \<noteq> Some t)"
proof -
  obtain s1 where m: "mark_killed s t = Some s1" "timers_ok s1" "status (tmr s1 t) = TIMER_STATUS_killed"
    using mark_killed_spec [OF assms(1), of t 0] timer_step_ok(1) by metis
  obtain s' where "wait_all relax online t 0 s1 = Some s'" "timers_ok s'" "status (tmr s' t) = TIMER_STATUS_killed"
    "\<forall>c \<in> set online. running (queue s' c) \<noteq> Some t"
    using wait_all_ends [OF assms(3) m(2,3)] by blast
  then show ?thesis using m(1) assms(2) by (simp add: kill_timer_def bug_on_def armed_def active_timer_def)
qed

definition ex_relax :: "nat \<Rightarrow> tstate \<Rightarrow> tstate" where
  "ex_relax n s = s\<lparr>queue := \<lambda>c. (queue s c)\<lparr>running := None\<rparr>\<rparr>"

lemma ex_relax_ok: "relax_ok 3 (\<lambda>s. if \<exists>c. running (queue s c) = Some 3 then 1 else 0) ex_relax"
proof -
  have "timers_ok (ex_relax n s) = timers_ok s" for n s by (simp add: all_but_def queue_ok_def complete_def ex_relax_def)
  then show ?thesis unfolding relax_ok_def by (auto simp: ex_relax_def)
qed

theorem kill_timer_stops_witness:
  "\<exists>s'. kill_timer ex_relax [0, 1] 0 (set_running ex_timers 1 (Some 3)) 3 = Some s' \<and> armed s' 3 = None \<and>
    status (tmr s' 3) = TIMER_STATUS_killed \<and> running (queue s' 1) \<noteq> Some 3"
proof -
  have "timers_ok (set_running ex_timers 1 (Some 3))" using ex_timers_ok(1) by simp
  moreover have "running (queue (set_running ex_timers 1 (Some 3)) 0) \<noteq> Some 3"
    by (simp add: set_running_def set_queue_def ex_timers_def timer_init_def)
  ultimately show ?thesis using kill_timer_stops [OF _ _ ex_relax_ok, of _ 0 "[0, 1]"] by fastforce
qed

text \<open>
  \<^verbatim>\<open>align_timer\<close> rounds the first tick up to the next multiple of the period, when the sum fits
  into 64 bits.
\<close>

theorem align_timer_rounds_up:
  assumes "0 < unat period" "0 < unat firsttick" "unat firsttick + (unat period - 1) < 2 ^ 64"
  shows "unat (align_timer firsttick period) = (unat firsttick + (unat period - 1)) div unat period * unat period"
proof -
  let ?f = "unat firsttick" and ?p = "unat period"
  have ne: "period \<noteq> 0" "firsttick \<noteq> 0" using assms by auto
  then have m1: "unat (firsttick - 1) = ?f - 1" "unat (period - 1) = ?p - 1" by (simp_all add: unat_minus_one)
  have sum: "unat (firsttick + (period - 1)) = ?f + (?p - 1)" using assms(3) m1(2) by (simp add: unat_word_ariths(1))
  have md: "unat ((firsttick - 1) mod period) = (?f - 1) mod ?p" using m1 by (simp add: unat_mod)
  have le: "(?f - 1) mod ?p \<le> ?f + (?p - 1)" by (meson add_leD1 diff_le_self le_add1 le_trans mod_less_eq_dividend)
  then have "(firsttick - 1) mod period \<le> firsttick + (period - 1)" using sum md by (simp add: word_le_nat_alt)
  then have "unat (align_timer firsttick period) = ?f + (?p - 1) - (?f - 1) mod ?p"
    using ne sum md by (simp add: align_timer_def unat_sub)
  also have "\<dots> = (?f + (?p - 1)) div ?p * ?p"
  proof -
    obtain k where k: "?f = k + 1" using assms(2) by (metis Suc_eq_plus1 gr0_conv_Suc)
    have e: "?f + (?p - 1) = k + ?p" "?f - 1 = k" using k assms(1) by simp_all
    have "?f + (?p - 1) - (?f - 1) mod ?p = ?p + (k div ?p) * ?p"
      unfolding e using div_mult_mod_eq [of k ?p] by linarith
    also have "\<dots> = (?f + (?p - 1)) div ?p * ?p"
      unfolding e by (subst div_add_self2) (use assms(1) in simp_all)
    finally show ?thesis .
  qed
  finally show ?thesis .
qed

theorem align_timer_rounds_up_witness: "unat (align_timer 1001 250) = 1250"
  using align_timer_rounds_up [of 250 1001] by simp

end
