(* ===== verification/String_Lib.thy ===== *)
theory String_Lib
  imports Xen_Prelude
begin

text \<open>
  The string and memory functions of \<^verbatim>\<open>xen/common/string.c\<close>, with the character classes of
  \<^verbatim>\<open>xen/include/xen/ctype.h\<close> and \<^verbatim>\<open>xen/common/lib.c\<close> that they use.

  Memory is a list of bytes and a pointer is an index into it, so that source and destination
  of a copy may overlap.  An access outside the memory is \<open>None\<close>.  Where the C function returns a
  pointer or \<^verbatim>\<open>NULL\<close>, the value returned is itself an option.  \<^verbatim>\<open>char\<close> is signed, as on x86.
\<close>

unbundle bit_operations_syntax

type_synonym byte = "8 word"
type_synonym mem = "byte list"

section \<open>Character classes\<close>

definition ctU :: byte where "ctU = 0x01"
definition ctL :: byte where "ctL = 0x02"
definition ctD :: byte where "ctD = 0x04"
definition ctC :: byte where "ctC = 0x08"
definition ctP :: byte where "ctP = 0x10"
definition ctS :: byte where "ctS = 0x20"
definition ctX :: byte where "ctX = 0x40"
definition ctSP :: byte where "ctSP = 0x80"

definition ctype_table :: "byte list" where
  "ctype_table =
     [ctC, ctC, ctC, ctC, ctC, ctC, ctC, ctC,
      ctC, ctC OR ctS, ctC OR ctS, ctC OR ctS, ctC OR ctS, ctC OR ctS, ctC, ctC,
      ctC, ctC, ctC, ctC, ctC, ctC, ctC, ctC,
      ctC, ctC, ctC, ctC, ctC, ctC, ctC, ctC,
      ctS OR ctSP, ctP, ctP, ctP, ctP, ctP, ctP, ctP,
      ctP, ctP, ctP, ctP, ctP, ctP, ctP, ctP,
      ctD, ctD, ctD, ctD, ctD, ctD, ctD, ctD,
      ctD, ctD, ctP, ctP, ctP, ctP, ctP, ctP,
      ctP, ctU OR ctX, ctU OR ctX, ctU OR ctX, ctU OR ctX, ctU OR ctX, ctU OR ctX, ctU,
      ctU, ctU, ctU, ctU, ctU, ctU, ctU, ctU,
      ctU, ctU, ctU, ctU, ctU, ctU, ctU, ctU,
      ctU, ctU, ctU, ctP, ctP, ctP, ctP, ctP,
      ctP, ctL OR ctX, ctL OR ctX, ctL OR ctX, ctL OR ctX, ctL OR ctX, ctL OR ctX, ctL,
      ctL, ctL, ctL, ctL, ctL, ctL, ctL, ctL,
      ctL, ctL, ctL, ctL, ctL, ctL, ctL, ctL,
      ctL, ctL, ctL, ctP, ctP, ctP, ctP, ctC] @
     replicate 32 0 @
     (ctS OR ctSP) # replicate 15 ctP @
     replicate 16 ctP @
     replicate 16 ctU @
     replicate 7 ctU @ ctP # replicate 7 ctU @ [ctL] @
     replicate 16 ctL @
     replicate 7 ctL @ ctP # replicate 8 ctL"

definition ismask :: "byte \<Rightarrow> byte" where
  "ismask x = ctype_table ! unat x"

definition isupper :: "byte \<Rightarrow> bool" where
  "isupper c \<longleftrightarrow> ismask c AND ctU \<noteq> 0"

definition islower :: "byte \<Rightarrow> bool" where
  "islower c \<longleftrightarrow> ismask c AND ctL \<noteq> 0"

definition isdigit :: "byte \<Rightarrow> bool" where
  "isdigit c \<longleftrightarrow> ismask c AND ctD \<noteq> 0"

definition tolower :: "byte \<Rightarrow> byte" where
  "tolower c = (if isupper c then c - (65 - 97) else c)"

definition toupper :: "byte \<Rightarrow> byte" where
  "toupper c = (if islower c then c - (97 - 65) else c)"

section \<open>Length and search\<close>

function strlen_loop :: "mem \<Rightarrow> nat \<Rightarrow> nat option" where
  "strlen_loop m sc = do { c \<leftarrow> array_get m sc; if c \<noteq> 0 then strlen_loop m (sc + 1) else Some sc }"
  by pat_completeness auto
termination by (relation "measure (\<lambda>(m, sc). length m - sc)") (auto simp: array_get_Some)

definition strlen :: "mem \<Rightarrow> nat \<Rightarrow> nat option" where
  "strlen m s = do { sc \<leftarrow> strlen_loop m s; Some (sc - s) }"

fun strnlen_loop :: "mem \<Rightarrow> nat \<Rightarrow> nat \<Rightarrow> nat option" where
  "strnlen_loop m sc 0 = Some sc"
| "strnlen_loop m sc (Suc count) = do {
     c \<leftarrow> array_get m sc;
     if c \<noteq> 0 then strnlen_loop m (sc + 1) count else Some sc
   }"

definition strnlen :: "mem \<Rightarrow> nat \<Rightarrow> nat \<Rightarrow> nat option" where
  "strnlen m s count = do { sc \<leftarrow> strnlen_loop m s count; Some (sc - s) }"

text \<open>\<^verbatim>\<open>(char) c\<close> for an \<^verbatim>\<open>int\<close> argument.\<close>

definition char_of_int :: "32 word \<Rightarrow> byte" where
  "char_of_int c = ucast c"

function strchr_loop :: "mem \<Rightarrow> nat \<Rightarrow> byte \<Rightarrow> nat option option" where
  "strchr_loop m s c = do {
     x \<leftarrow> array_get m s;
     if x \<noteq> c then (if x = 0 then Some None else strchr_loop m (s + 1) c) else Some (Some s)
   }"
  by pat_completeness auto
termination by (relation "measure (\<lambda>(m, s, c). length m - s)") (auto simp: array_get_Some)

definition strchr :: "mem \<Rightarrow> nat \<Rightarrow> 32 word \<Rightarrow> nat option option" where
  "strchr m s c = strchr_loop m s (char_of_int c)"

text \<open>The loop runs downwards; its argument is the distance of \<^verbatim>\<open>p\<close> from \<^verbatim>\<open>s\<close>.\<close>

fun strrchr_loop :: "mem \<Rightarrow> nat \<Rightarrow> nat \<Rightarrow> byte \<Rightarrow> nat option option" where
  "strrchr_loop m s d c = do {
     x \<leftarrow> array_get m (s + d);
     if x = c then Some (Some (s + d))
     else (case d of 0 \<Rightarrow> Some None | Suc d' \<Rightarrow> strrchr_loop m s d' c)
   }"

definition strrchr :: "mem \<Rightarrow> nat \<Rightarrow> 32 word \<Rightarrow> nat option option" where
  "strrchr m s c = do { n \<leftarrow> strlen m s; strrchr_loop m s n (char_of_int c) }"

text \<open>The inner loops of \<^verbatim>\<open>strspn\<close> and \<^verbatim>\<open>strpbrk\<close>: does the string at \<open>a\<close> contain \<open>x\<close>?\<close>

function in_string :: "mem \<Rightarrow> byte \<Rightarrow> nat \<Rightarrow> bool option" where
  "in_string m x a = do {
     y \<leftarrow> array_get m a;
     if y \<noteq> 0 then (if x = y then Some True else in_string m x (a + 1)) else Some False
   }"
  by pat_completeness auto
termination by (relation "measure (\<lambda>(m, x, a). length m - a)") (auto simp: array_get_Some)

function strspn_loop :: "mem \<Rightarrow> nat \<Rightarrow> nat \<Rightarrow> nat \<Rightarrow> nat option" where
  "strspn_loop m p accept count = do {
     x \<leftarrow> array_get m p;
     if x \<noteq> 0 then do {
       found \<leftarrow> in_string m x accept;
       if found then strspn_loop m (p + 1) accept (count + 1) else Some count
     } else Some count
   }"
  by pat_completeness auto
termination by (relation "measure (\<lambda>(m, p, a, n). length m - p)") (auto simp: array_get_Some)

definition strspn :: "mem \<Rightarrow> nat \<Rightarrow> nat \<Rightarrow> nat option" where
  "strspn m s accept = strspn_loop m s accept 0"

function strpbrk :: "mem \<Rightarrow> nat \<Rightarrow> nat \<Rightarrow> nat option option" where
  "strpbrk m sc1 ct = do {
     x \<leftarrow> array_get m sc1;
     if x \<noteq> 0 then do {
       found \<leftarrow> in_string m x ct;
       if found then Some (Some sc1) else strpbrk m (sc1 + 1) ct
     } else Some None
   }"
  by pat_completeness auto
termination by (relation "measure (\<lambda>(m, p, ct). length m - p)") (auto simp: array_get_Some)

text \<open>\<^verbatim>\<open>strsep\<close> returns the memory, the new value of \<^verbatim>\<open>*s\<close> and the token.\<close>

definition strsep :: "mem \<Rightarrow> nat option \<Rightarrow> nat \<Rightarrow> (mem \<times> nat option \<times> nat option) option" where
  "strsep m s ct = (case s of
     None \<Rightarrow> Some (m, None, None)
   | Some sbegin \<Rightarrow> do {
       stop \<leftarrow> strpbrk m sbegin ct;
       case stop of
         None \<Rightarrow> Some (m, None, Some sbegin)
       | Some e \<Rightarrow> do { m' \<leftarrow> array_set m e 0; Some (m', Some (e + 1), Some sbegin) }
     })"

section \<open>Comparison\<close>

text \<open>Conversion of an \<^verbatim>\<open>int\<close> to \<^verbatim>\<open>signed char\<close>.\<close>

definition s8 :: "int \<Rightarrow> int" where
  "s8 x = (x + 128) mod 256 - 128"

function strcmp :: "mem \<Rightarrow> nat \<Rightarrow> nat \<Rightarrow> int option" where
  "strcmp m cs ct = do {
     x \<leftarrow> array_get m cs;
     y \<leftarrow> array_get m ct;
     let res = s8 (sint x - sint y);
     if res \<noteq> 0 \<or> x = 0 then Some res else strcmp m (cs + 1) (ct + 1)
   }"
  by pat_completeness auto
termination by (relation "measure (\<lambda>(m, cs, ct). length m - cs)") (auto simp: array_get_Some)

fun strncmp_loop :: "mem \<Rightarrow> nat \<Rightarrow> nat \<Rightarrow> nat \<Rightarrow> int \<Rightarrow> int option" where
  "strncmp_loop m cs ct 0 res = Some res"
| "strncmp_loop m cs ct (Suc count) _ = do {
     x \<leftarrow> array_get m cs;
     y \<leftarrow> array_get m ct;
     let res = s8 (sint x - sint y);
     if res \<noteq> 0 \<or> x = 0 then Some res else strncmp_loop m (cs + 1) (ct + 1) count res
   }"

definition strncmp :: "mem \<Rightarrow> nat \<Rightarrow> nat \<Rightarrow> nat \<Rightarrow> int option" where
  "strncmp m cs ct count = strncmp_loop m cs ct count 0"

text \<open>One more pass than the argument says, since the C loop tests its condition at the end.\<close>

fun strnicmp_loop :: "mem \<Rightarrow> nat \<Rightarrow> nat \<Rightarrow> nat \<Rightarrow> (byte \<times> byte) option" where
  "strnicmp_loop m s1 s2 len = do {
     c1 \<leftarrow> array_get m s1;
     c2 \<leftarrow> array_get m s2;
     if c1 = 0 \<or> c2 = 0 then Some (c1, c2)
     else if c1 = c2 then
       (case len of 0 \<Rightarrow> Some (c1, c2) | Suc len' \<Rightarrow> strnicmp_loop m (s1 + 1) (s2 + 1) len')
     else if tolower c1 \<noteq> tolower c2 then Some (tolower c1, tolower c2)
     else
       (case len of 0 \<Rightarrow> Some (tolower c1, tolower c2) | Suc len' \<Rightarrow> strnicmp_loop m (s1 + 1) (s2 + 1) len')
   }"

definition strnicmp :: "mem \<Rightarrow> nat \<Rightarrow> nat \<Rightarrow> nat \<Rightarrow> int option" where
  "strnicmp m s1 s2 len = (case len of
     0 \<Rightarrow> Some 0
   | Suc len' \<Rightarrow> do { (c1, c2) \<leftarrow> strnicmp_loop m s1 s2 len'; Some (uint c1 - uint c2) })"

fun memcmp_loop :: "mem \<Rightarrow> nat \<Rightarrow> nat \<Rightarrow> nat \<Rightarrow> int \<Rightarrow> int option" where
  "memcmp_loop m su1 su2 0 res = Some res"
| "memcmp_loop m su1 su2 (Suc count) _ = do {
     x \<leftarrow> array_get m su1;
     y \<leftarrow> array_get m su2;
     let res = uint x - uint y;
     if res \<noteq> 0 then Some res else memcmp_loop m (su1 + 1) (su2 + 1) count res
   }"

definition memcmp :: "mem \<Rightarrow> nat \<Rightarrow> nat \<Rightarrow> nat \<Rightarrow> int option" where
  "memcmp m cs ct count = memcmp_loop m cs ct count 0"

text \<open>\<^verbatim>\<open>*p == c\<close> compares the byte with the whole \<^verbatim>\<open>int\<close>.\<close>

fun memscan :: "mem \<Rightarrow> nat \<Rightarrow> 32 word \<Rightarrow> nat \<Rightarrow> nat option" where
  "memscan m p c 0 = Some p"
| "memscan m p c (Suc sz) = do {
     x \<leftarrow> array_get m p;
     if ucast x = c then Some p else memscan m (p + 1) c sz
   }"

fun memchr :: "mem \<Rightarrow> nat \<Rightarrow> 32 word \<Rightarrow> nat \<Rightarrow> nat option option" where
  "memchr m p c 0 = Some None"
| "memchr m p c (Suc n) = do {
     x \<leftarrow> array_get m p;
     if char_of_int c = x then Some (Some p) else memchr m (p + 1) c n
   }"

text \<open>Conversion of a \<^verbatim>\<open>size_t\<close> to \<^verbatim>\<open>int\<close>.\<close>

definition s32 :: "int \<Rightarrow> int" where
  "s32 x = (x + 2 ^ 31) mod 2 ^ 32 - 2 ^ 31"

function strstr_loop :: "mem \<Rightarrow> nat \<Rightarrow> nat \<Rightarrow> int \<Rightarrow> int \<Rightarrow> nat option option" where
  "strstr_loop m s1 s2 l1 l2 =
     (if l1 \<ge> l2 then do {
        r \<leftarrow> memcmp m s1 s2 (nat (l2 mod 2 ^ 64));
        if r = 0 then Some (Some s1) else strstr_loop m (s1 + 1) s2 (l1 - 1) l2
      } else Some None)"
  by pat_completeness auto
termination by (relation "measure (\<lambda>(m, s1, s2, l1, l2). nat (l1 - l2 + 1))") auto

definition strstr :: "mem \<Rightarrow> nat \<Rightarrow> nat \<Rightarrow> nat option option" where
  "strstr m s1 s2 = do {
     n2 \<leftarrow> strlen m s2;
     let l2 = s32 (int n2);
     if l2 = 0 then Some (Some s1)
     else do {
       n1 \<leftarrow> strlen m s1;
       strstr_loop m s1 s2 (s32 (int n1)) l2
     }
   }"

section \<open>Filling and copying\<close>

text \<open>
  The portable bodies of \<^verbatim>\<open>memset\<close>, \<^verbatim>\<open>memcpy\<close> and \<^verbatim>\<open>memmove\<close> in \<^verbatim>\<open>xen/common/string.c\<close>.
  They are compiled where the architecture has none of its own; x86 defines \<^verbatim>\<open>__HAVE_ARCH_*\<close> for
  the three (\<^verbatim>\<open>asm-x86/string.h\<close>) and uses compiler builtins or \<^verbatim>\<open>arch/x86/string.c\<close>.
\<close>

fun memset_loop :: "mem \<Rightarrow> nat \<Rightarrow> byte \<Rightarrow> nat \<Rightarrow> mem option" where
  "memset_loop m xs c 0 = Some m"
| "memset_loop m xs c (Suc count) = do { m' \<leftarrow> array_set m xs c; memset_loop m' (xs + 1) c count }"

definition memset :: "mem \<Rightarrow> nat \<Rightarrow> 32 word \<Rightarrow> nat \<Rightarrow> mem option" where
  "memset m s c count = memset_loop m s (char_of_int c) count"

text \<open>Copying upwards.\<close>

fun memcpy :: "mem \<Rightarrow> nat \<Rightarrow> nat \<Rightarrow> nat \<Rightarrow> mem option" where
  "memcpy m tmp s 0 = Some m"
| "memcpy m tmp s (Suc count) = do {
     x \<leftarrow> array_get m s;
     m' \<leftarrow> array_set m tmp x;
     memcpy m' (tmp + 1) (s + 1) count
   }"

text \<open>Copying downwards: the pointers are \<open>dest + count\<close> and \<open>src + count\<close>.\<close>

fun copy_down :: "mem \<Rightarrow> nat \<Rightarrow> nat \<Rightarrow> nat \<Rightarrow> mem option" where
  "copy_down m dest src 0 = Some m"
| "copy_down m dest src (Suc count) = do {
     x \<leftarrow> array_get m (src + count);
     m' \<leftarrow> array_set m (dest + count) x;
     copy_down m' dest src count
   }"

definition memmove :: "mem \<Rightarrow> nat \<Rightarrow> nat \<Rightarrow> nat \<Rightarrow> mem option" where
  "memmove m dest src count = (if dest \<le> src then memcpy m dest src count else copy_down m dest src count)"

definition strlcpy :: "mem \<Rightarrow> nat \<Rightarrow> nat \<Rightarrow> nat \<Rightarrow> (mem \<times> nat) option" where
  "strlcpy m dest src sz = do {
     ret \<leftarrow> strlen m src;
     if sz \<noteq> 0 then do {
       let len = (if ret \<ge> sz then sz - 1 else ret);
       m1 \<leftarrow> memcpy m dest src len;
       m2 \<leftarrow> array_set m1 (dest + len) 0;
       Some (m2, ret)
     } else Some (m, ret)
   }"

text \<open>The loop of \<^verbatim>\<open>strlcat\<close>; \<open>room\<close> is \<^verbatim>\<open>size - (p - dest)\<close>.\<close>

fun strlcat_loop :: "mem \<Rightarrow> nat \<Rightarrow> nat \<Rightarrow> nat \<Rightarrow> (mem \<times> nat) option" where
  "strlcat_loop m p src 0 = Some (m, p)"
| "strlcat_loop m p src (Suc room) = do {
     x \<leftarrow> array_get m src;
     m' \<leftarrow> array_set m p x;
     if x = 0 then Some (m', p + 1) else strlcat_loop m' (p + 1) (src + 1) room
   }"

definition strlcat :: "mem \<Rightarrow> nat \<Rightarrow> nat \<Rightarrow> nat \<Rightarrow> (mem \<times> nat) option" where
  "strlcat m dest src sz = do {
     slen \<leftarrow> strlen m src;
     dlen \<leftarrow> strnlen m dest sz;
     (m1, p) \<leftarrow> strlcat_loop m (dest + dlen) src (sz - dlen);
     m2 \<leftarrow> (if dlen < sz then array_set m1 (p - 1) 0 else Some m1);
     Some (m2, slen + dlen)
   }"

text \<open>The equations of these loops are unfolded by hand.\<close>

declare strlen_loop.simps [simp del] strchr_loop.simps [simp del] strrchr_loop.simps [simp del]
  in_string.simps [simp del] strspn_loop.simps [simp del] strpbrk.simps [simp del] strcmp.simps [simp del]
  strnicmp_loop.simps [simp del] strstr_loop.simps [simp del]

end
