(* ===== verification/String_Facts.thy ===== *)
theory String_Facts
  imports String_Lib
begin

text \<open>
  The string that a pointer denotes, and what the functions of \<^verbatim>\<open>string.c\<close> compute in terms of it.
\<close>

section \<open>Strings in memory\<close>

definition str_at :: "mem \<Rightarrow> nat \<Rightarrow> byte list" where
  "str_at m p = takeWhile (\<lambda>c. c \<noteq> 0) (drop p m)"

definition terminated :: "mem \<Rightarrow> nat \<Rightarrow> bool" where
  "terminated m p \<longleftrightarrow> 0 \<in> set (drop p m)"

lemma str_at_step: "p < length m \<Longrightarrow> str_at m p = (if m ! p = 0 then [] else m ! p # str_at m (p + 1))"
  by (simp add: str_at_def Cons_nth_drop_Suc [symmetric])

lemma terminated_step: "terminated m p \<longleftrightarrow> p < length m \<and> (m ! p = 0 \<or> terminated m (p + 1))"
  by (cases "p < length m") (auto simp: terminated_def Cons_nth_drop_Suc [symmetric])

lemma str_at_nz: "0 \<notin> set (str_at m p)"
  by (auto simp: str_at_def dest: set_takeWhileD)

lemma takeWhile_shorter: "x \<in> set xs \<Longrightarrow> length (takeWhile (\<lambda>c. c \<noteq> x) xs) < length xs"
  by (induction xs) auto

lemma terminated_end:
  assumes "terminated m p"
  shows "p + length (str_at m p) < length m" "m ! (p + length (str_at m p)) = 0"
proof -
  let ?n = "length (str_at m p)"
  have "?n < length (drop p m)"
    using assms unfolding str_at_def terminated_def by (rule takeWhile_shorter)
  then show "p + ?n < length m" by simp
  have "drop p m ! ?n = 0"
    using nth_length_takeWhile [of "\<lambda>c. c \<noteq> 0" "drop p m"] \<open>?n < length (drop p m)\<close> by (simp add: str_at_def)
  then show "m ! (p + ?n) = 0" using \<open>p + ?n < length m\<close> by simp
qed

lemma str_at_nth: "i < length (str_at m p) \<Longrightarrow> str_at m p ! i = m ! (p + i) \<and> p + i < length m"
proof -
  assume i: "i < length (str_at m p)"
  then have "i < length (drop p m)" unfolding str_at_def using length_takeWhile_le order_less_le_trans by blast
  moreover have "str_at m p ! i = drop p m ! i" using i unfolding str_at_def by (rule takeWhile_nth)
  ultimately show ?thesis by simp
qed

lemma str_at_eqI:
  assumes "p + length xs < length m" "\<And>i. i < length xs \<Longrightarrow> m ! (p + i) = xs ! i" "m ! (p + length xs) = 0" "0 \<notin> set xs"
  shows "str_at m p = xs" "terminated m p"
proof -
  have "drop p m = take (length xs) (drop p m) @ drop (p + length xs) m"
    by (metis add.commute append_take_drop_id drop_drop)
  also have "take (length xs) (drop p m) = xs"
    using assms(1,2) by (intro nth_equalityI) simp_all
  also have "drop (p + length xs) m = 0 # drop (Suc (p + length xs)) m"
    using assms(1,3) by (metis Cons_nth_drop_Suc)
  finally have d: "drop p m = xs @ 0 # drop (Suc (p + length xs)) m" .
  have "takeWhile (\<lambda>c. c \<noteq> 0) (xs @ 0 # drop (Suc (p + length xs)) m) = xs"
    using assms(4) by (subst takeWhile_append2) (auto simp: takeWhile_eq_all_conv)
  with d show "str_at m p = xs" by (simp add: str_at_def)
  show "terminated m p" by (simp add: terminated_def d)
qed

lemma str_at_cong:
  assumes "terminated m p" "length m' = length m" "\<And>i. p \<le> i \<Longrightarrow> i \<le> p + length (str_at m p) \<Longrightarrow> m' ! i = m ! i"
  shows "str_at m' p = str_at m p" "terminated m' p"
  using str_at_eqI [of p "str_at m p" m'] terminated_end [OF assms(1)] assms str_at_nz str_at_nth by auto

section \<open>Length\<close>

lemma strlen_loop_eq: "strlen_loop m p = (if terminated m p then Some (p + length (str_at m p)) else None)"
proof (induction m p rule: strlen_loop.induct)
  case (1 m p)
  show ?case
  proof (cases "p < length m")
    case True
    with 1 [of "m ! p"] show ?thesis
      using terminated_step [of m p] by (subst strlen_loop.simps) (simp add: str_at_step)
  next
    case False
    then show ?thesis using terminated_step [of m p] by (subst strlen_loop.simps) (simp add: array_get_def)
  qed
qed

lemma strlen_eq: "strlen m p = (if terminated m p then Some (length (str_at m p)) else None)"
  by (simp add: strlen_def strlen_loop_eq)

lemma strnlen_loop_eq:
  "p + n \<le> length m \<Longrightarrow> strnlen_loop m p n = Some (p + length (takeWhile (\<lambda>c. c \<noteq> 0) (take n (drop p m))))"
proof (induction n arbitrary: p)
  case (Suc n)
  then have "drop p m = m ! p # drop (p + 1) m" by (simp add: Cons_nth_drop_Suc)
  then show ?case using Suc by simp
qed simp

lemma strnlen_eq: "p + n \<le> length m \<Longrightarrow> strnlen m p n = Some (length (takeWhile (\<lambda>c. c \<noteq> 0) (take n (drop p m))))"
  by (simp add: strnlen_def strnlen_loop_eq)

section \<open>Comparison\<close>

lemma s8_eq:
  assumes "- 256 < z" "z < 256"
  shows "s8 z = (if z < - 128 then z + 256 else if z < 128 then z else z - 256)"
proof -
  consider "z < - 128" | "- 128 \<le> z" "z < 128" | "128 \<le> z" by linarith
  then show ?thesis
  proof cases
    case 1
    have "(z + 128) mod 256 = (z + 384) mod 256" using mod_add_self2 [of "z + 128" 256] by (simp add: add.commute)
    also have "\<dots> = z + 384" using 1 assms by simp
    finally show ?thesis using 1 by (simp add: s8_def)
  next
    case 2
    then show ?thesis by (simp add: s8_def)
  next
    case 3
    have "(z + 128) mod 256 = (z - 128) mod 256" using mod_add_self2 [of "z - 128" 256] by (simp add: add.commute)
    also have "\<dots> = z - 128" using 3 assms by simp
    finally show ?thesis using 3 by (simp add: s8_def)
  qed
qed

lemma sint_byte: "- 128 \<le> sint (x :: byte)" "sint (x :: byte) < 128"
  using sint_range_size [of x] by (simp_all add: word_size)

lemma s8_zero: "s8 (sint x - sint (y :: byte)) = 0 \<longleftrightarrow> x = y"
proof -
  have "- 256 < sint x - sint y" "sint x - sint y < 256" using sint_byte [of x] sint_byte [of y] by linarith+
  from s8_eq [OF this] have "s8 (sint x - sint y) = 0 \<longleftrightarrow> sint x = sint y"
    using sint_byte [of x] sint_byte [of y] by (auto split: if_splits)
  then show ?thesis using signed_word_eqI [of x y] by auto
qed

lemma sint_ascii: "(x :: byte) < 128 \<Longrightarrow> sint x = uint x"
  by (simp add: sint_uint signed_take_bit_int_eq_self_iff word_less_def order_trans [OF _ uint_ge_0])

lemma s8_ascii: "x < 128 \<Longrightarrow> y < 128 \<Longrightarrow> s8 (sint x - sint (y :: byte)) < 0 \<longleftrightarrow> x < y"
proof -
  assume a: "x < 128" "y < 128"
  then have "uint x < 128" "uint y < 128" "0 \<le> uint x" "0 \<le> uint y" by (simp_all add: word_less_def)
  then have "- 128 < uint x - uint y" "uint x - uint y < 128" by linarith+
  then have "s8 (uint x - uint y) = uint x - uint y" by (simp add: s8_eq)
  then show ?thesis using a by (simp add: sint_ascii word_less_def)
qed

text \<open>The lexicographic order of the bytes, and strings of ASCII characters.\<close>

definition str_less :: "byte list \<Rightarrow> byte list \<Rightarrow> bool" where
  "str_less xs ys \<longleftrightarrow> (xs, ys) \<in> lexord {(x, y). x < y}"

definition ascii :: "byte list \<Rightarrow> bool" where
  "ascii xs \<longleftrightarrow> (\<forall>x \<in> set xs. x < 128)"

lemma str_less_simps [simp]:
  "\<not> str_less xs []" "str_less [] (y # ys)" "str_less (x # xs) (y # ys) \<longleftrightarrow> x < y \<or> x = y \<and> str_less xs ys"
  by (simp_all add: str_less_def)

lemma ascii_simps [simp]: "ascii []" "ascii (x # xs) \<longleftrightarrow> x < 128 \<and> ascii xs"
  by (simp_all add: ascii_def)

lemma strcmp_spec:
  assumes "terminated m a" "terminated m b"
  shows "\<exists>r. strcmp m a b = Some r \<and> (r = 0 \<longleftrightarrow> str_at m a = str_at m b) \<and>
    (ascii (str_at m a) \<longrightarrow> ascii (str_at m b) \<longrightarrow> (r < 0 \<longleftrightarrow> str_less (str_at m a) (str_at m b)))"
  using assms
proof (induction m a b rule: strcmp.induct)
  case (1 m a b)
  let ?x = "m ! a" and ?y = "m ! b" and ?r = "s8 (sint (m ! a) - sint (m ! b))"
  have l: "a < length m" "b < length m" and t: "?x = 0 \<or> terminated m (a + 1)" "?y = 0 \<or> terminated m (b + 1)"
    using 1(2,3) terminated_step by blast+
  note st = str_at_step [OF l(1)] str_at_step [OF l(2)]
  show ?case
  proof (cases "?x \<noteq> ?y \<or> ?x = 0")
    case True
    then have "strcmp m a b = Some ?r" using l s8_zero [of ?x ?y] by (subst strcmp.simps) (auto simp: Let_def)
    moreover have "?r = 0 \<longleftrightarrow> str_at m a = str_at m b" using True s8_zero [of ?x ?y] st by auto
    moreover have "?r < 0 \<longleftrightarrow> str_less (str_at m a) (str_at m b)" if asc: "ascii (str_at m a)" "ascii (str_at m b)"
    proof -
      have "?x < 128" "?y < 128" using asc st by (auto split: if_splits)
      from s8_ascii [OF this] show ?thesis using True st by (auto split: if_splits simp: word_gt_0)
    qed
    ultimately show ?thesis by blast
  next
    case False
    then have eq: "strcmp m a b = strcmp m (a + 1) (b + 1)"
      using l s8_zero [of ?x ?y] by (subst strcmp.simps) (simp add: Let_def)
    have "\<exists>r. strcmp m (a + 1) (b + 1) = Some r \<and> (r = 0 \<longleftrightarrow> str_at m (a + 1) = str_at m (b + 1)) \<and>
      (ascii (str_at m (a + 1)) \<longrightarrow> ascii (str_at m (b + 1)) \<longrightarrow> (r < 0 \<longleftrightarrow> str_less (str_at m (a + 1)) (str_at m (b + 1))))"
      by (rule 1(1) [of ?x ?y ?r]) (use False l t s8_zero [of ?x ?y] in auto)
    then show ?thesis using False st unfolding eq by auto
  qed
qed

section \<open>Copying\<close>

text \<open>The memory after the \<open>n\<close> bytes at \<open>s\<close> have been copied to \<open>d\<close>.\<close>

definition copied :: "mem \<Rightarrow> nat \<Rightarrow> nat \<Rightarrow> nat \<Rightarrow> mem" where
  "copied m d s n = map (\<lambda>i. if d \<le> i \<and> i < d + n then m ! (s + (i - d)) else m ! i) [0..<length m]"

lemma copied_sel [simp]:
  "length (copied m d s n) = length m"
  "i < length m \<Longrightarrow> copied m d s n ! i = (if d \<le> i \<and> i < d + n then m ! (s + (i - d)) else m ! i)"
  by (simp_all add: copied_def)

lemma copied_0 [simp]: "copied m d s 0 = m"
  by (rule nth_equalityI) auto

lemma memcpy_eq:
  assumes "s + n \<le> length m" "d + n \<le> length m" "d \<le> s \<or> s + n \<le> d"
  shows "memcpy m d s n = Some (copied m d s n)"
  using assms
proof (induction n arbitrary: m d s)
  case (Suc n)
  let ?m = "m[d := m ! s]"
  have "memcpy ?m (d + 1) (s + 1) n = Some (copied ?m (d + 1) (s + 1) n)" using Suc.prems by (intro Suc.IH) auto
  moreover have "copied ?m (d + 1) (s + 1) n = copied m d s (Suc n)"
  proof (rule nth_equalityI)
    fix i assume "i < length (copied ?m (d + 1) (s + 1) n)"
    then have i: "i < length m" by simp
    show "copied ?m (d + 1) (s + 1) n ! i = copied m d s (Suc n) ! i"
    proof (cases "d < i \<and> i < d + Suc n")
      case True
      then have "Suc (s + (i - Suc d)) = s + (i - d)" "s + (i - d) \<noteq> d" using Suc.prems(3) by auto
      then show ?thesis using True i by simp
    qed (use i in auto)
  qed simp
  ultimately show ?case using Suc.prems by simp
qed simp

lemma copy_down_eq:
  assumes "s + n \<le> length m" "d + n \<le> length m" "s < d"
  shows "copy_down m d s n = Some (copied m d s n)"
  using assms
proof (induction n arbitrary: m)
  case (Suc n)
  let ?m = "m[d + n := m ! (s + n)]"
  have "copy_down ?m d s n = Some (copied ?m d s n)" using Suc.prems by (intro Suc.IH) auto
  moreover have "copied ?m d s n = copied m d s (Suc n)"
  proof (rule nth_equalityI)
    fix i assume "i < length (copied ?m d s n)"
    then have i: "i < length m" by simp
    show "copied ?m d s n ! i = copied m d s (Suc n) ! i"
    proof (cases "i = d + n")
      case True
      then show ?thesis using i by simp
    next
      case False
      then show ?thesis using i Suc.prems(3) by (auto simp: nth_list_update)
    qed
  qed simp
  ultimately show ?case using Suc.prems by simp
qed simp

definition filled :: "mem \<Rightarrow> nat \<Rightarrow> nat \<Rightarrow> byte \<Rightarrow> mem" where
  "filled m p n c = map (\<lambda>i. if p \<le> i \<and> i < p + n then c else m ! i) [0..<length m]"

lemma filled_sel [simp]:
  "length (filled m p n c) = length m"
  "i < length m \<Longrightarrow> filled m p n c ! i = (if p \<le> i \<and> i < p + n then c else m ! i)"
  by (simp_all add: filled_def)

lemma memset_loop_eq: "p + n \<le> length m \<Longrightarrow> memset_loop m p c n = Some (filled m p n c)"
proof (induction n arbitrary: m p)
  case 0
  have "filled m p 0 c = m" by (rule nth_equalityI) auto
  then show ?case by simp
next
  case (Suc n)
  have "memset_loop (m[p := c]) (p + 1) c n = Some (filled (m[p := c]) (p + 1) n c)"
    using Suc.prems by (intro Suc.IH) simp
  moreover have "filled (m[p := c]) (p + 1) n c = filled m p (Suc n) c"
    by (rule nth_equalityI) (auto simp: nth_list_update)
  ultimately show ?case using Suc.prems by simp
qed

lemma memmove_eq: "s + n \<le> length m \<Longrightarrow> d + n \<le> length m \<Longrightarrow> memmove m d s n = Some (copied m d s n)"
  by (simp add: memmove_def memcpy_eq copy_down_eq)

section \<open>Bounded copies of strings\<close>

text \<open>Everything outside the buffer of \<open>n\<close> bytes at \<open>d\<close> is kept.\<close>

definition only_in :: "nat \<Rightarrow> nat \<Rightarrow> mem \<Rightarrow> mem \<Rightarrow> bool" where
  "only_in d n m m' \<longleftrightarrow> length m' = length m \<and> (\<forall>i < length m. i < d \<or> d + n \<le> i \<longrightarrow> m' ! i = m ! i)"

text \<open>The string at \<open>p\<close>, with its end, is apart from the buffer.\<close>

definition apart :: "mem \<Rightarrow> nat \<Rightarrow> nat \<Rightarrow> nat \<Rightarrow> bool" where
  "apart m p d n \<longleftrightarrow> p + length (str_at m p) < d \<or> d + n \<le> p"

lemma strlcpy_spec:
  assumes src: "terminated m src" and dst: "dest + n \<le> length m" "apart m src dest n"
  shows "\<exists>m'. strlcpy m dest src n = Some (m', length (str_at m src)) \<and> only_in dest n m m' \<and>
    (0 < n \<longrightarrow> terminated m' dest \<and> str_at m' dest = take (n - 1) (str_at m src))"
proof (cases "n = 0")
  case True
  then show ?thesis using src by (simp add: strlcpy_def strlen_eq only_in_def)
next
  case False
  let ?s = "str_at m src"
  define k where "k = length (take (n - 1) ?s)"
  let ?m = "(copied m dest src k)[dest + k := 0]"
  have k: "k < n" "k \<le> length ?s" "(if length ?s \<ge> n then n - 1 else length ?s) = k" using False by (auto simp: k_def)
  have b: "dest + k < length m" "src + k \<le> length m" using dst(1) k terminated_end(1) [OF src] by auto
  have mc: "memcpy m dest src k = Some (copied m dest src k)"
    by (rule memcpy_eq) (use dst(2) b k in \<open>auto simp: apart_def\<close>)
  have res: "strlcpy m dest src n = Some (?m, length ?s)"
    using src False mc b(1) by (simp add: strlcpy_def strlen_eq k(3) Let_def)
  have nth: "?m ! (dest + i) = take (n - 1) ?s ! i" if "i < k" for i
  proof -
    have "take (n - 1) ?s ! i = m ! (src + i)" using that str_at_nth [of i m src] by (simp add: k_def)
    then show ?thesis using that b(1) by simp
  qed
  have "0 \<notin> set (take (n - 1) ?s)" using str_at_nz [of m src] set_take_subset [of "n - 1" ?s] by blast
  from str_at_eqI [OF _ _ _ this, of dest ?m] have "str_at ?m dest = take (n - 1) ?s" "terminated ?m dest"
    using b(1) nth by (simp_all add: k_def)
  moreover have "only_in dest n m ?m" using k(1) by (auto simp: only_in_def nth_list_update)
  ultimately show ?thesis using res False by blast
qed

lemma strlcat_loop_spec:
  assumes "terminated m src" "p + room \<le> length m" "apart m src p room"
  shows "\<exists>m'. strlcat_loop m p src room = Some (m', p + min room (length (str_at m src) + 1)) \<and> length m' = length m \<and>
    (\<forall>i < length m. m' ! i =
       (if p \<le> i \<and> i < p + min room (length (str_at m src) + 1) then (str_at m src @ [0]) ! (i - p) else m ! i))"
  using assms
proof (induction room arbitrary: m p src)
  case (Suc room)
  let ?m = "m[p := m ! src]" and ?s = "str_at m src"
  have l: "src < length m" "p < length m" and t: "m ! src = 0 \<or> terminated m (src + 1)"
    using Suc.prems terminated_step [of m src] by auto
  show ?case
  proof (cases "m ! src = 0")
    case True
    then have "str_at m src = []" using str_at_step [OF l(1)] by simp
    then show ?thesis using True l by (auto simp: nth_list_update)
  next
    case False
    then have s: "?s = m ! src # str_at m (src + 1)" using str_at_step [OF l(1)] by simp
    have t1: "terminated m (src + 1)" using t False by simp
    have "str_at ?m (src + 1) = str_at m (src + 1)" "terminated ?m (src + 1)"
      by (rule str_at_cong [OF t1]; use Suc.prems(3) s in \<open>auto simp: apart_def nth_list_update\<close>)+
    note s1 = this
    have "apart ?m (src + 1) (p + 1) room" using Suc.prems(3) s s1(1) by (auto simp: apart_def)
    from Suc.IH [OF s1(2) _ this] obtain m' where
      r: "strlcat_loop ?m (p + 1) (src + 1) room = Some (m', p + 1 + min room (length (str_at m (src + 1)) + 1))" "length m' = length m"
        "\<And>i. i < length m \<Longrightarrow> m' ! i = (if p + 1 \<le> i \<and> i < p + 1 + min room (length (str_at m (src + 1)) + 1)
          then (str_at m (src + 1) @ [0]) ! (i - (p + 1)) else ?m ! i)"
      unfolding s1(1) using Suc.prems(2) by auto
    have "strlcat_loop m p src (Suc room) = Some (m', p + min (Suc room) (length ?s + 1))"
      using False l r(1) s by simp
    moreover have "m' ! i = (if p \<le> i \<and> i < p + min (Suc room) (length ?s + 1) then (?s @ [0]) ! (i - p) else m ! i)" if "i < length m" for i
    proof (cases "p < i")
      case True
      then have "i - p = Suc (i - (p + 1))" by simp
      then show ?thesis using r(3) [OF that] True s by auto
    next
      case False
      then show ?thesis using r(3) [OF that] s l by (auto simp: nth_list_update)
    qed
    ultimately show ?thesis using r(2) by blast
  qed
qed auto

text \<open>The part of a string that lies in the first \<open>n\<close> bytes.\<close>

definition str_in :: "mem \<Rightarrow> nat \<Rightarrow> nat \<Rightarrow> byte list" where
  "str_in m p n = takeWhile (\<lambda>c. c \<noteq> 0) (take n (drop p m))"

lemma str_in_props:
  "length (str_in m p n) \<le> n" "0 \<notin> set (str_in m p n)"
  "i < length (str_in m p n) \<Longrightarrow> str_in m p n ! i = m ! (p + i)"
proof -
  show "length (str_in m p n) \<le> n"
    unfolding str_in_def by (rule order_trans [OF length_takeWhile_le]) simp
  show "0 \<notin> set (str_in m p n)" by (auto simp: str_in_def dest: set_takeWhileD)
  assume i: "i < length (str_in m p n)"
  then have "i < length (take n (drop p m))" unfolding str_in_def using length_takeWhile_le order_less_le_trans by blast
  then have "i < n" "p \<le> length m" by auto
  then show "str_in m p n ! i = m ! (p + i)" using i takeWhile_nth [of i "\<lambda>c. c \<noteq> 0" "take n (drop p m)"] by (simp add: str_in_def)
qed

lemma strlcat_spec:
  assumes src: "terminated m src" and dst: "dest + n \<le> length m" "apart m src dest n"
  shows "\<exists>m'. strlcat m dest src n = Some (m', length (str_at m src) + length (str_in m dest n)) \<and> only_in dest n m m' \<and>
    (length (str_in m dest n) < n \<longrightarrow>
       terminated m' dest \<and> str_at m' dest = take (n - 1) (str_in m dest n @ str_at m src))"
proof -
  let ?s = "str_at m src" and ?d = "str_in m dest n"
  define l where "l = length ?d"
  define k where "k = min (n - l) (length ?s + 1)"
  have l: "l \<le> n" using str_in_props(1) by (simp add: l_def)
  have sn: "strnlen m dest n = Some l" using dst(1) by (simp add: strnlen_eq l_def str_in_def)
  have "apart m src (dest + l) (n - l)" using dst(2) l by (auto simp: apart_def)
  from strlcat_loop_spec [OF src _ this] obtain m1 where
    r: "strlcat_loop m (dest + l) src (n - l) = Some (m1, dest + l + k)" "length m1 = length m"
      "\<And>i. i < length m \<Longrightarrow> m1 ! i = (if dest + l \<le> i \<and> i < dest + l + k then (?s @ [0]) ! (i - (dest + l)) else m ! i)"
    using dst(1) l unfolding k_def by auto
  show ?thesis
  proof (cases "l < n")
    case False
    then have "k = 0" using l by (simp add: k_def)
    then have "m1 = m" using r(2,3) by (intro nth_equalityI) auto
    then have "strlcat m dest src n = Some (m, length ?s + l)" using src sn r(1) False by (simp add: strlcat_def strlen_eq)
    then show ?thesis using False by (auto simp: only_in_def l_def)
  next
    case True
    then have k: "0 < k" "k \<le> n - l" "k - 1 \<le> length ?s" by (auto simp: k_def)
    let ?m = "m1[dest + l + k - 1 := 0]"
    have e: "dest + l + k - 1 = dest + (l + (k - 1))" "dest + (l + (k - 1)) < length m" using k dst(1) True by auto
    have res: "strlcat m dest src n = Some (?m, length ?s + l)"
      using src sn r(1,2) True e by (simp add: strlcat_def strlen_eq)
    have tk: "take (n - 1) (?d @ ?s) = ?d @ take (k - 1) ?s" using True l_def k by (auto simp: k_def min_def)
    have ln: "length (?d @ take (k - 1) ?s) = l + (k - 1)" using k by (simp add: l_def)
    have nz: "0 \<notin> set (?d @ take (k - 1) ?s)"
      using str_in_props(2) str_at_nz [of m src] set_take_subset [of "k - 1" ?s] by auto
    have nth: "?m ! (dest + i) = (?d @ take (k - 1) ?s) ! i" if il: "i < l + (k - 1)" for i
    proof (cases "i < l")
      case True
      then show ?thesis using that e r(3) [of "dest + i"] str_in_props(3) [of i m dest n] by (simp add: l_def nth_append)
    next
      case False
      then obtain j where j: "i = l + j" "j < k - 1" using il by (metis add_less_cancel_left le_Suc_ex not_less)
      have lt: "dest + i < length m" "dest + l \<le> dest + i" "dest + i < dest + l + k" "dest + i - (dest + l) = j"
        "dest + i \<noteq> dest + l + k - 1" "j < length ?s" using j e(2) k by auto
      then have "m1 ! (dest + i) = ?s ! j" using r(3) [of "dest + i"] by (simp add: nth_append)
      moreover have "(?d @ take (k - 1) ?s) ! i = ?s ! j" using j by (simp add: l_def nth_append)
      ultimately show ?thesis using lt(5) by simp
    qed
    have "str_at ?m dest = ?d @ take (k - 1) ?s" "terminated ?m dest"
      by (rule str_at_eqI [OF _ _ _ nz]; use nth e r(2) ln in simp)+
    moreover have "only_in dest n m ?m" using r k l by (auto simp: only_in_def nth_list_update)
    ultimately show ?thesis using res tk by (auto simp: l_def)
  qed
qed

end
