(* ===== verification/String_Search.thy ===== *)
theory String_Search
  imports String_Facts
begin

text \<open>
  Comparing memory and searching in strings: the functions find the first (or last) occurrence.
\<close>

section \<open>Comparing memory\<close>

lemma memcmp_loop_spec:
  assumes "a + n \<le> length m" "b + n \<le> length m"
  shows "\<exists>r'. memcmp_loop m a b n r = Some r' \<and>
    (0 < n \<or> r = 0 \<longrightarrow> (r' = 0 \<longleftrightarrow> take n (drop a m) = take n (drop b m)) \<and>
      (r' < 0 \<longleftrightarrow> str_less (take n (drop a m)) (take n (drop b m))))"
  using assms
proof (induction n arbitrary: a b r)
  case (Suc n)
  let ?x = "m ! a" and ?y = "m ! b"
  have d: "drop a m = ?x # drop (a + 1) m" "drop b m = ?y # drop (b + 1) m"
    using Suc.prems by (simp_all add: Cons_nth_drop_Suc)
  show ?case
  proof (cases "?x = ?y")
    case True
    have "\<exists>r'. memcmp_loop m (a + 1) (b + 1) n 0 = Some r' \<and>
      (0 < n \<or> (0::int) = 0 \<longrightarrow> (r' = 0 \<longleftrightarrow> take n (drop (a + 1) m) = take n (drop (b + 1) m)) \<and>
        (r' < 0 \<longleftrightarrow> str_less (take n (drop (a + 1) m)) (take n (drop (b + 1) m))))"
      using Suc.prems by (intro Suc.IH) simp_all
    then show ?thesis using True d Suc.prems by auto
  next
    case False
    then have "uint ?x \<noteq> uint ?y" using unsigned_word_eqI [of ?x ?y] by auto
    then show ?thesis using False d Suc.prems by (simp add: word_less_def)
  qed
qed simp

lemma memcmp_spec:
  assumes "a + n \<le> length m" "b + n \<le> length m"
  shows "\<exists>r. memcmp m a b n = Some r \<and> (r = 0 \<longleftrightarrow> take n (drop a m) = take n (drop b m)) \<and>
      (r < 0 \<longleftrightarrow> str_less (take n (drop a m)) (take n (drop b m)))"
  using memcmp_loop_spec [OF assms, of 0] by (simp add: memcmp_def)

section \<open>Substrings\<close>

text \<open>\<open>ys\<close> occurs in \<open>xs\<close> at index \<open>i\<close>.\<close>

definition occurs :: "byte list \<Rightarrow> byte list \<Rightarrow> nat \<Rightarrow> bool" where
  "occurs ys xs i \<longleftrightarrow> i + length ys \<le> length xs \<and> take (length ys) (drop i xs) = ys"

text \<open>\<open>r\<close> is the place of the first occurrence in the string \<open>xs\<close> at \<open>p\<close>.\<close>

definition first_occurrence :: "byte list \<Rightarrow> byte list \<Rightarrow> nat \<Rightarrow> nat option \<Rightarrow> bool" where
  "first_occurrence ys xs p r \<longleftrightarrow> (case r of
     None \<Rightarrow> \<forall>i. \<not> occurs ys xs i
   | Some q \<Rightarrow> \<exists>i. q = p + i \<and> occurs ys xs i \<and> (\<forall>j < i. \<not> occurs ys xs j))"

lemma occurs_Suc [simp]: "occurs ys (x # xs) (Suc i) = occurs ys xs i"
  by (simp add: occurs_def)

lemma first_occurrence_Cons:
  assumes "\<not> occurs ys (x # xs) 0" "first_occurrence ys xs (p + 1) r"
  shows "first_occurrence ys (x # xs) p r"
proof (cases r)
  case None
  have "\<not> occurs ys (x # xs) i" for i using assms None by (cases i) (auto simp: first_occurrence_def)
  then show ?thesis using None by (simp add: first_occurrence_def)
next
  case (Some q)
  then obtain i where i: "q = p + 1 + i" "occurs ys xs i" "\<forall>j < i. \<not> occurs ys xs j"
    using assms(2) by (auto simp: first_occurrence_def)
  have "\<not> occurs ys (x # xs) j" if "j < Suc i" for j using assms(1) i(3) that by (cases j) auto
  then show ?thesis using Some i(1,2) by (auto simp: first_occurrence_def intro!: exI [of _ "Suc i"])
qed

lemma take_str:
  assumes "terminated m p" "n \<le> length (str_at m p)"
  shows "take n (drop p m) = take n (str_at m p)"
proof (rule nth_equalityI)
  show "length (take n (drop p m)) = length (take n (str_at m p))" using terminated_end(1) [OF assms(1)] assms(2) by simp
  fix i assume "i < length (take n (drop p m))"
  then show "take n (drop p m) ! i = take n (str_at m p) ! i" using str_at_nth [of i m p] assms(2) by simp
qed

lemma strstr_loop_spec:
  assumes "terminated m p" "terminated m s2" "str_at m s2 = ys" "ys \<noteq> []" "length ys < 2 ^ 31"
  shows "\<exists>r. strstr_loop m p s2 (int (length (str_at m p))) (int (length ys)) = Some r \<and> first_occurrence ys (str_at m p) p r"
  using assms(1)
proof (induction "length (str_at m p)" arbitrary: p)
  case 0
  then have "strstr_loop m p s2 (int (length (str_at m p))) (int (length ys)) = Some None"
    using assms(4) by (subst strstr_loop.simps) simp
  moreover have "first_occurrence ys (str_at m p) p None"
    using 0 assms(4) by (simp add: first_occurrence_def occurs_def)
  ultimately show ?case by blast
next
  case (Suc k)
  let ?xs = "str_at m p" and ?n = "length ys"
  show ?case
  proof (cases "?n \<le> length ?xs")
    case False
    then have "strstr_loop m p s2 (int (length ?xs)) (int ?n) = Some None" by (subst strstr_loop.simps) simp
    moreover have "first_occurrence ys ?xs p None" using False by (auto simp: first_occurrence_def occurs_def)
    ultimately show ?thesis by blast
  next
    case True
    have nl: "nat (int ?n mod 2 ^ 64) = ?n" using assms(5) by simp
    have "p + ?n \<le> length m" "s2 + ?n \<le> length m"
      using True terminated_end(1) [OF Suc.prems] terminated_end(1) [OF assms(2)] assms(3) by auto
    from memcmp_spec [OF this] obtain r0 where r0: "memcmp m p s2 ?n = Some r0"
      "r0 = 0 \<longleftrightarrow> take ?n (drop p m) = take ?n (drop s2 m)" by blast
    have r00: "r0 = 0 \<longleftrightarrow> occurs ys ?xs 0"
      using r0(2) True take_str [OF Suc.prems True] take_str [OF assms(2), of ?n] assms(3) by (simp add: occurs_def)
    show ?thesis
    proof (cases "r0 = 0")
      case True': True
      then have "strstr_loop m p s2 (int (length ?xs)) (int ?n) = Some (Some p)"
        using True r0(1) nl by (subst strstr_loop.simps) simp
      moreover have "first_occurrence ys ?xs p (Some p)" using True' r00 by (simp add: first_occurrence_def)
      ultimately show ?thesis by blast
    next
      case False
      have l: "p < length m" "m ! p \<noteq> 0" using Suc.hyps(2) Suc.prems terminated_step [of m p] str_at_step [of p m] by auto
      then have xs: "?xs = m ! p # str_at m (p + 1)" by (simp add: str_at_step)
      have "terminated m (p + 1)" using Suc.prems terminated_step [of m p] l by simp
      then obtain r where r: "strstr_loop m (p + 1) s2 (int (length (str_at m (p + 1)))) (int ?n) = Some r"
        "first_occurrence ys (str_at m (p + 1)) (p + 1) r"
        using Suc.hyps(1) [of "p + 1"] Suc.hyps(2) xs by auto
      have "int (length ?xs) - 1 = int (length (str_at m (p + 1)))" using xs by simp
      then have "strstr_loop m p s2 (int (length ?xs)) (int ?n) = Some r"
        using True False r0(1) nl r(1) by (subst strstr_loop.simps) simp
      moreover have "first_occurrence ys ?xs p r" using first_occurrence_Cons [OF _ r(2)] False r00 xs by simp
      ultimately show ?thesis by blast
    qed
  qed
qed

lemma s32_id: "0 \<le> x \<Longrightarrow> x < 2 ^ 31 \<Longrightarrow> s32 x = x"
  by (simp add: s32_def)

lemma strstr_spec:
  assumes "terminated m s1" "terminated m s2" "length (str_at m s1) < 2 ^ 31" "length (str_at m s2) < 2 ^ 31"
  shows "\<exists>r. strstr m s1 s2 = Some r \<and> first_occurrence (str_at m s2) (str_at m s1) s1 r"
proof -
  have l: "s32 (int (length (str_at m s1))) = int (length (str_at m s1))" "s32 (int (length (str_at m s2))) = int (length (str_at m s2))"
    by (rule s32_id; use assms(3,4) in simp)+
  show ?thesis
  proof (cases "str_at m s2 = []")
    case True
    then have "strstr m s1 s2 = Some (Some s1)" using assms(2) l(2) by (simp add: strstr_def strlen_eq)
    moreover have "first_occurrence (str_at m s2) (str_at m s1) s1 (Some s1)"
      using True by (simp add: first_occurrence_def occurs_def)
    ultimately show ?thesis by blast
  next
    case False
    have "strstr m s1 s2 = strstr_loop m s1 s2 (int (length (str_at m s1))) (int (length (str_at m s2)))"
      using False assms(1,2) l by (simp add: strstr_def strlen_eq Let_def)
    then show ?thesis using strstr_loop_spec [OF assms(1,2) refl False assms(4)] by simp
  qed
qed

section \<open>Characters\<close>

text \<open>Does a byte that satisfies \<open>P\<close> occur in \<open>xs\<close>, and where first?\<close>

definition first_index :: "(byte \<Rightarrow> bool) \<Rightarrow> byte list \<Rightarrow> nat \<Rightarrow> nat option" where
  "first_index P xs p = (if \<exists>x \<in> set xs. P x then Some (p + length (takeWhile (\<lambda>x. \<not> P x) xs)) else None)"

lemma first_index_simps [simp]:
  "first_index P [] p = None"
  "first_index P (x # xs) p = (if P x then Some p else first_index P xs (Suc p))"
  by (auto simp: first_index_def)

lemma in_string_eq: "terminated m a \<Longrightarrow> in_string m x a = Some (x \<in> set (str_at m a))"
proof (induction m x a rule: in_string.induct)
  case (1 m x a)
  have l: "a < length m" and t: "m ! a = 0 \<or> terminated m (a + 1)" using 1(2) terminated_step [of m a] by blast+
  note st = str_at_step [OF l]
  show ?case
  proof (cases "m ! a = 0")
    case True
    then show ?thesis using l st by (subst in_string.simps) simp
  next
    case False
    then show ?thesis using 1(1) [of "m ! a"] t l st by (subst in_string.simps) auto
  qed
qed

lemma strpbrk_eq:
  assumes "terminated m ct" "terminated m p"
  shows "strpbrk m p ct = Some (first_index (\<lambda>x. x \<in> set (str_at m ct)) (str_at m p) p)"
  using assms
proof (induction m p ct rule: strpbrk.induct)
  case (1 m p ct)
  have l: "p < length m" and t: "m ! p = 0 \<or> terminated m (p + 1)" using 1(3) terminated_step [of m p] by blast+
  note st = str_at_step [OF l] and i = in_string_eq [OF 1(2), of "m ! p"]
  show ?case
  proof (cases "m ! p = 0 \<or> m ! p \<in> set (str_at m ct)")
    case True
    then show ?thesis using l st i by (subst strpbrk.simps) auto
  next
    case False
    then have "strpbrk m (p + 1) ct = Some (first_index (\<lambda>x. x \<in> set (str_at m ct)) (str_at m (p + 1)) (p + 1))"
      using 1(1) [of "m ! p" False] 1(2) l t i by simp
    then show ?thesis using False l st i by (subst strpbrk.simps) simp
  qed
qed

lemma strspn_loop_eq:
  assumes "terminated m a" "terminated m p"
  shows "strspn_loop m p a n = Some (n + length (takeWhile (\<lambda>x. x \<in> set (str_at m a)) (str_at m p)))"
  using assms
proof (induction m p a n rule: strspn_loop.induct)
  case (1 m p a n)
  have l: "p < length m" and t: "m ! p = 0 \<or> terminated m (p + 1)" using 1(3) terminated_step [of m p] by blast+
  note st = str_at_step [OF l] and i = in_string_eq [OF 1(2), of "m ! p"]
  show ?case
  proof (cases "m ! p = 0 \<or> m ! p \<notin> set (str_at m a)")
    case True
    then show ?thesis using l st i by (subst strspn_loop.simps) auto
  next
    case False
    then have "strspn_loop m (p + 1) a (n + 1) = Some (n + 1 + length (takeWhile (\<lambda>x. x \<in> set (str_at m a)) (str_at m (p + 1))))"
      using 1(1) [of "m ! p" True] 1(2) l t i by simp
    then show ?thesis using False l st i by (subst strspn_loop.simps) simp
  qed
qed

lemma strchr_loop_eq:
  assumes "terminated m p"
  shows "strchr_loop m p c = Some (first_index ((=) c) (str_at m p @ [0]) p)"
  using assms
proof (induction m p c rule: strchr_loop.induct)
  case (1 m p c)
  have l: "p < length m" and t: "m ! p = 0 \<or> terminated m (p + 1)" using 1(2) terminated_step [of m p] by blast+
  note st = str_at_step [OF l]
  show ?case
  proof (cases "m ! p = c \<or> m ! p = 0")
    case True
    then show ?thesis using l st by (subst strchr_loop.simps) auto
  next
    case False
    then have "strchr_loop m (p + 1) c = Some (first_index ((=) c) (str_at m (p + 1) @ [0]) (p + 1))"
      using 1(1) [of "m ! p"] l t by simp
    then show ?thesis using False l st by (subst strchr_loop.simps) auto
  qed
qed

lemma memchr_eq:
  "p + n \<le> length m \<Longrightarrow> memchr m p c n = Some (first_index ((=) (char_of_int c)) (take n (drop p m)) p)"
proof (induction n arbitrary: p)
  case (Suc n)
  then have "drop p m = m ! p # drop (p + 1) m" by (simp add: Cons_nth_drop_Suc)
  then show ?case using Suc by simp
qed simp

lemma takeWhile_split:
  assumes "first_index P xs p = Some q"
  obtains d zs where "xs = takeWhile (\<lambda>x. \<not> P x) xs @ d # zs" "P d" "q = p + length (takeWhile (\<lambda>x. \<not> P x) xs)"
proof -
  have ex: "\<exists>x \<in> set xs. P x" "q = p + length (takeWhile (\<lambda>x. \<not> P x) xs)"
    using assms by (auto simp: first_index_def split: if_splits)
  then have ne: "dropWhile (\<lambda>x. \<not> P x) xs \<noteq> []" by (auto simp: dropWhile_eq_Nil_conv)
  then obtain d zs where "dropWhile (\<lambda>x. \<not> P x) xs = d # zs" by (cases "dropWhile (\<lambda>x. \<not> P x) xs") auto
  moreover from this have "P d" using hd_dropWhile [OF ne] by simp
  ultimately show thesis using that ex(2) by (metis takeWhile_dropWhile_id)
qed

lemma strsep_spec:
  assumes t: "terminated m s" "terminated m ct" and ap: "apart m ct s (length (str_at m s) + 1)"
  shows "\<exists>m' r. strsep m (Some s) ct = Some (m', r, Some s) \<and> length m' = length m \<and> terminated m' s \<and>
    str_at m' s = takeWhile (\<lambda>x. x \<notin> set (str_at m ct)) (str_at m s) \<and> str_at m' ct = str_at m ct \<and> terminated m' ct \<and>
    (case r of
       None \<Rightarrow> str_at m s = str_at m' s
     | Some q \<Rightarrow> terminated m' q \<and> q = s + length (str_at m' s) + 1 \<and>
         (\<exists>d \<in> set (str_at m ct). str_at m s = str_at m' s @ d # str_at m' q))"
proof (cases "first_index (\<lambda>x. x \<in> set (str_at m ct)) (str_at m s) s")
  case None
  then have "takeWhile (\<lambda>x. x \<notin> set (str_at m ct)) (str_at m s) = str_at m s"
    by (auto simp: first_index_def split: if_splits)
  moreover have "strsep m (Some s) ct = Some (m, None, Some s)" using strpbrk_eq [OF t(2,1)] None by (simp add: strsep_def)
  ultimately show ?thesis using t by (intro exI [of _ m] exI [of _ None]) (simp del: takeWhile_eq_all_conv)
next
  case (Some e)
  then obtain d zs where z: "str_at m s = takeWhile (\<lambda>x. x \<notin> set (str_at m ct)) (str_at m s) @ d # zs"
    "d \<in> set (str_at m ct)" and e: "e = s + length (takeWhile (\<lambda>x. x \<notin> set (str_at m ct)) (str_at m s))"
    by (rule takeWhile_split)
  define ys where "ys = takeWhile (\<lambda>x. x \<notin> set (str_at m ct)) (str_at m s)"
  have xs: "str_at m s = ys @ d # zs" "e = s + length ys" using z e by (simp_all add: ys_def)
  let ?m = "m[e := 0]"
  have en: "s + length (str_at m s) < length m" "m ! (s + length (str_at m s)) = 0" by (fact terminated_end [OF t(1)])+
  then have el: "e < length m" using xs by simp
  have nz: "0 \<notin> set ys" "0 \<notin> set zs" using str_at_nz [of m s] xs by auto
  have nth: "m ! (s + i) = (ys @ d # zs) ! i" if "i < length (ys @ d # zs)" for i
    using str_at_nth [of i m s] that xs(1) by simp
  have "str_at ?m s = ys" "terminated ?m s"
    by (rule str_at_eqI [OF _ _ _ nz(1)]; use el xs nth in \<open>auto simp: nth_append\<close>)+
  moreover have "str_at ?m (e + 1) = zs" "terminated ?m (e + 1)"
    by (rule str_at_eqI [OF _ _ _ nz(2)]; use en xs nth [of "length ys + 1 + i" for i] in \<open>auto simp: nth_append add.assoc\<close>)+
  moreover have "str_at ?m ct = str_at m ct" "terminated ?m ct"
    by (rule str_at_cong [OF t(2)]; use ap xs in \<open>auto simp: apart_def nth_list_update\<close>)+
  moreover have "strsep m (Some s) ct = Some (?m, Some (e + 1), Some s)"
    using strpbrk_eq [OF t(2,1)] Some el by (simp add: strsep_def)
  moreover have "\<exists>d \<in> set (str_at m ct). str_at m s = ys @ d # zs" using xs(1) z(2) by blast
  ultimately show ?thesis
    using xs(2) unfolding ys_def [symmetric] by (intro exI [of _ ?m] exI [of _ "Some (e + 1)"] conjI) simp_all
qed

end
