(* ===== verification/String_Theorems.thy ===== *)
theory String_Theorems
  imports String_Search
begin

text \<open>
  What the string functions promise, with concrete instances.
\<close>

section \<open>Comparison ignoring case\<close>

lemma strnicmp_loop_spec:
  assumes "terminated m a" "terminated m b"
  shows "\<exists>c1 c2. strnicmp_loop m a b n = Some (c1, c2) \<and>
    (c1 = c2 \<longleftrightarrow> map tolower (take (Suc n) (str_at m a)) = map tolower (take (Suc n) (str_at m b)))"
  using assms
proof (induction n arbitrary: a b)
  case 0
  then have "a < length m" "b < length m" using terminated_step by blast+
  then show ?case by (subst strnicmp_loop.simps) (auto simp: str_at_step)
next
  case (Suc n)
  let ?x = "m ! a" and ?y = "m ! b"
  have l: "a < length m" "b < length m" and t: "?x = 0 \<or> terminated m (a + 1)" "?y = 0 \<or> terminated m (b + 1)"
    using Suc.prems terminated_step by blast+
  note st = str_at_step [OF l(1)] str_at_step [OF l(2)]
  show ?case
  proof (cases "?x = 0 \<or> ?y = 0 \<or> tolower ?x \<noteq> tolower ?y")
    case True
    then show ?thesis using l st by (subst strnicmp_loop.simps) auto
  next
    case False
    then have "strnicmp_loop m a b (Suc n) = strnicmp_loop m (a + 1) (b + 1) n"
      using l by (subst strnicmp_loop.simps) auto
    moreover obtain c1 c2 where "strnicmp_loop m (a + 1) (b + 1) n = Some (c1, c2)"
      "c1 = c2 \<longleftrightarrow> map tolower (take (Suc n) (str_at m (a + 1))) = map tolower (take (Suc n) (str_at m (b + 1)))"
      using Suc.IH [of "a + 1" "b + 1"] t False by blast
    ultimately show ?thesis using st False by simp
  qed
qed

lemma strnicmp_spec:
  assumes "terminated m a" "terminated m b"
  shows "\<exists>r. strnicmp m a b n = Some r \<and> (r = 0 \<longleftrightarrow> map tolower (take n (str_at m a)) = map tolower (take n (str_at m b)))"
proof (cases n)
  case 0
  then show ?thesis by (simp add: strnicmp_def)
next
  case (Suc k)
  obtain c1 c2 where c: "strnicmp_loop m a b k = Some (c1, c2)"
    "c1 = c2 \<longleftrightarrow> map tolower (take n (str_at m a)) = map tolower (take n (str_at m b))"
    using strnicmp_loop_spec [OF assms, of k] Suc by blast
  have "uint c1 - uint c2 = 0 \<longleftrightarrow> c1 = c2" using unsigned_word_eqI [of c1 c2] by auto
  then show ?thesis using c Suc by (simp add: strnicmp_def)
qed

section \<open>Properties\<close>

text \<open>A memory with the strings \<open>ab\<close>, \<open>AB\<close>, \<open>xaby\<close> and eight free bytes.\<close>

definition ex_mem :: mem where
  "ex_mem = [97, 98, 0, 65, 66, 0, 120, 97, 98, 121, 0] @ replicate 8 0"

lemma ex_mem_strings:
  "terminated ex_mem 0" "str_at ex_mem 0 = [97, 98]" "terminated ex_mem 3" "str_at ex_mem 3 = [65, 66]"
  "terminated ex_mem 6" "str_at ex_mem 6 = [120, 97, 98, 121]" "length ex_mem = 19"
  by (simp_all add: ex_mem_def terminated_def str_at_def)

text \<open>
  C38: \<^verbatim>\<open>memmove\<close> copies correctly however the areas overlap: afterwards the destination holds what
  the source held before, and nothing else has changed.
\<close>

theorem memmove_copies:
  assumes "src + n \<le> length m" "dest + n \<le> length m"
  shows "\<exists>m'. memmove m dest src n = Some m' \<and> length m' = length m \<and>
    (\<forall>i < length m. m' ! i = (if dest \<le> i \<and> i < dest + n then m ! (src + (i - dest)) else m ! i))"
  using memmove_eq [OF assms] by simp

theorem memmove_copies_witness:
  "\<exists>m'. memmove [1, 2, 3, 4, 5] 1 0 4 = Some m' \<and> m' ! 1 = 1 \<and> m' ! 4 = 4"
  using memmove_copies [of 0 4 "[1, 2, 3, 4, 5]" 1] by auto

text \<open>
  C31: \<^verbatim>\<open>strlcpy\<close> and \<^verbatim>\<open>strlcat\<close> never write outside the destination buffer, and leave in it a
  terminated string: the source, or the concatenation, cut to the size of the buffer.  The
  return value is the length of the string they tried to make.
\<close>

theorem strlcpy_strlcat_bounded:
  assumes "terminated m src" "dest + n \<le> length m" "apart m src dest n"
  shows "(\<exists>m'. strlcpy m dest src n = Some (m', length (str_at m src)) \<and> only_in dest n m m' \<and>
      (0 < n \<longrightarrow> terminated m' dest \<and> str_at m' dest = take (n - 1) (str_at m src))) \<and>
    (\<exists>m'. strlcat m dest src n = Some (m', length (str_at m src) + length (str_in m dest n)) \<and> only_in dest n m m' \<and>
      (length (str_in m dest n) < n \<longrightarrow>
         terminated m' dest \<and> str_at m' dest = take (n - 1) (str_in m dest n @ str_at m src)))"
  using strlcpy_spec [OF assms] strlcat_spec [OF assms] by blast

theorem strlcpy_strlcat_bounded_witness:
  "(\<exists>m'. strlcpy ex_mem 11 6 3 = Some (m', 4) \<and> only_in 11 3 ex_mem m' \<and> str_at m' 11 = [120, 97]) \<and>
   (\<exists>m'. strlcat ex_mem 0 6 4 = Some (m', 6) \<and> only_in 0 4 ex_mem m' \<and> str_at m' 0 = [97, 98, 120])"
proof -
  have "apart ex_mem 6 11 3" "apart ex_mem 6 0 4" "str_in ex_mem 0 4 = [97, 98]"
    by (simp_all add: apart_def ex_mem_strings) (simp add: str_in_def ex_mem_def)
  then show ?thesis
    using strlcpy_strlcat_bounded [of ex_mem 6 11 3] strlcpy_strlcat_bounded [of ex_mem 6 0 4] by (auto simp: ex_mem_strings)
qed

text \<open>
  \<^verbatim>\<open>strcmp\<close> returns 0 exactly for equal strings, and orders strings of ASCII characters
  lexicographically; \<^verbatim>\<open>strnicmp\<close> returns 0 exactly when the first \<open>n\<close> characters agree up to case.
\<close>

theorem strcmp_correct:
  assumes "terminated m a" "terminated m b"
  shows "(\<exists>r. strcmp m a b = Some r \<and> (r = 0 \<longleftrightarrow> str_at m a = str_at m b) \<and>
      (ascii (str_at m a) \<longrightarrow> ascii (str_at m b) \<longrightarrow> (r < 0 \<longleftrightarrow> str_less (str_at m a) (str_at m b)))) \<and>
    (\<exists>r. strnicmp m a b n = Some r \<and> (r = 0 \<longleftrightarrow> map tolower (take n (str_at m a)) = map tolower (take n (str_at m b))))"
  using strcmp_spec [OF assms] strnicmp_spec [OF assms] by blast

theorem strcmp_correct_witness:
  "\<exists>r. strcmp ex_mem 3 0 = Some r \<and> r < 0"
  using strcmp_correct [of ex_mem 3 0] by (auto simp: ex_mem_strings)

text \<open>
  Outside ASCII the result of \<^verbatim>\<open>strcmp\<close> is not an order: the difference of two signed
  characters is cut to eight bits, and four strings of one character each follow one another
  in a circle.
\<close>

theorem strcmp_circle:
  "map (\<lambda>(a, b). map_option (\<lambda>r. r < 0) (strcmp [127, 0, 128, 0, 255, 0, 1, 0] a b)) [(0, 2), (2, 4), (4, 6), (6, 0)] =
    [Some True, Some True, Some True, Some True]"
  by (simp add: strcmp.simps array_get_def s8_def)

text \<open>
  \<^verbatim>\<open>strstr\<close> finds the first occurrence of one string in another, or \<^verbatim>\<open>NULL\<close> when there is none.
\<close>

theorem strstr_finds_first:
  assumes "terminated m s1" "terminated m s2" "length (str_at m s1) < 2 ^ 31" "length (str_at m s2) < 2 ^ 31"
  shows "\<exists>r. strstr m s1 s2 = Some r \<and> first_occurrence (str_at m s2) (str_at m s1) s1 r"
  by (rule strstr_spec [OF assms])

theorem strstr_finds_first_witness:
  "\<exists>r. strstr ex_mem 6 0 = Some r \<and> first_occurrence [97, 98] [120, 97, 98, 121] 6 r"
  using strstr_finds_first [of ex_mem 6 0] by (simp add: ex_mem_strings)

text \<open>
  \<^verbatim>\<open>strsep\<close> cuts a token off: the token contains no separator, and token, separator and the rest
  put together again are the original string.
\<close>

theorem strsep_splits:
  assumes "terminated m s" "terminated m ct" "apart m ct s (length (str_at m s) + 1)"
  shows "\<exists>m' r. strsep m (Some s) ct = Some (m', r, Some s) \<and> set (str_at m' s) \<inter> set (str_at m ct) = {} \<and>
    (case r of
       None \<Rightarrow> str_at m s = str_at m' s
     | Some q \<Rightarrow> terminated m' q \<and> (\<exists>d \<in> set (str_at m ct). str_at m s = str_at m' s @ d # str_at m' q))"
proof -
  obtain m' r where r: "strsep m (Some s) ct = Some (m', r, Some s)"
    "str_at m' s = takeWhile (\<lambda>x. x \<notin> set (str_at m ct)) (str_at m s)"
    "case r of None \<Rightarrow> str_at m s = str_at m' s
     | Some q \<Rightarrow> terminated m' q \<and> q = s + length (str_at m' s) + 1 \<and>
         (\<exists>d \<in> set (str_at m ct). str_at m s = str_at m' s @ d # str_at m' q)"
    using strsep_spec [OF assms] by blast
  have "set (str_at m' s) \<inter> set (str_at m ct) = {}" using r(2) by (auto dest: set_takeWhileD)
  moreover have "case r of None \<Rightarrow> str_at m s = str_at m' s
    | Some q \<Rightarrow> terminated m' q \<and> (\<exists>d \<in> set (str_at m ct). str_at m s = str_at m' s @ d # str_at m' q)"
    using r(3) by (cases r) simp_all
  ultimately show ?thesis using r(1) by blast
qed

theorem strsep_splits_witness:
  "\<exists>m' r. strsep ex_mem (Some 6) 0 = Some (m', r, Some 6) \<and> set (str_at m' 6) \<inter> {97, 98} = {}"
proof -
  have "apart ex_mem 0 6 (length (str_at ex_mem 6) + 1)" by (simp add: apart_def ex_mem_strings)
  from strsep_splits [OF ex_mem_strings(5) ex_mem_strings(1) this]
  show ?thesis unfolding ex_mem_strings(2) list.set by blast
qed

end
