(* ===== verification/Bitmap.thy ===== *)
theory Bitmap
  imports Xen_Prelude
begin

text \<open>
  The bitmaps of \<^verbatim>\<open>xen/common/bitmap.c\<close> and \<^verbatim>\<open>xen/include/xen/bitmap.h\<close>, and the bit searches and
  population counts of \<^verbatim>\<open>xen/include/xen/bitops.h\<close>.

  Memory is a list of 64-bit words and a bitmap is an index into it, so that the destination of an
  operation may be one of its operands.  An access outside the memory is \<open>None\<close>, as is a shift
  whose count C leaves undefined.
\<close>

unbundle bit_operations_syntax

type_synonym wmem = "ulong list"

section \<open>Bit searches and population counts\<close>

definition ffs_step :: "nat \<Rightarrow> 32 word \<times> int \<Rightarrow> 32 word \<times> int" where
  "ffs_step k = (\<lambda>(x, r). if x AND mask k = 0 then (signed_drop_bit k x, r + int k) else (x, r))"

definition generic_ffs :: "32 word \<Rightarrow> int" where
  "generic_ffs x = (if x = 0 then 0
     else snd (ffs_step 1 (ffs_step 2 (ffs_step 4 (ffs_step 8 (ffs_step 16 (x, 1)))))))"

definition fls_step :: "nat \<Rightarrow> 32 word \<times> int \<Rightarrow> 32 word \<times> int" where
  "fls_step k = (\<lambda>(x, r). if x AND push_bit (32 - k) (mask k) = 0 then (push_bit k x, r - int k) else (x, r))"

definition generic_fls :: "32 word \<Rightarrow> int" where
  "generic_fls x = (if x = 0 then 0
     else snd (fls_step 1 (fls_step 2 (fls_step 4 (fls_step 8 (fls_step 16 (x, 32)))))))"

text \<open>
  \<^verbatim>\<open>fls\<close> of \<^verbatim>\<open>asm-x86/bitops.h\<close> on an \<^verbatim>\<open>unsigned long\<close>: the
  instruction \<^verbatim>\<open>bsr\<close> gives the index of the highest bit, and -1 stands in for it when there is none.
\<close>

fun bit_length :: "nat \<Rightarrow> nat" where
  "bit_length n = (if n = 0 then 0 else Suc (bit_length (n div 2)))"

declare bit_length.simps [simp del]

definition fls :: "ulong \<Rightarrow> int" where
  "fls x = (let r = (if x = 0 then - 1 else int (bit_length (unat x)) - 1) in r + 1)"

definition generic_fls64 :: "64 word \<Rightarrow> int" where
  "generic_fls64 x = (let h = (ucast (drop_bit 32 x) :: 32 word) in
     if h \<noteq> 0 then fls x + 32 else fls x)"

definition get_count_order :: "32 word \<Rightarrow> int" where
  "get_count_order count =
     (let order = fls (ucast count) - 1 in if count AND (count - 1) \<noteq> 0 then order + 1 else order)"

definition hweight_step :: "ulong \<Rightarrow> nat \<Rightarrow> ulong \<Rightarrow> ulong" where
  "hweight_step msk k w = (w AND msk) + (drop_bit k w AND msk)"

definition generic_hweight64 :: "ulong \<Rightarrow> ulong" where
  "generic_hweight64 w =
     hweight_step 0x00000000FFFFFFFF 32
       (hweight_step 0x0000FFFF0000FFFF 16
         (hweight_step 0x00FF00FF00FF00FF 8
           (hweight_step 0x0F0F0F0F0F0F0F0F 4
             (hweight_step 0x3333333333333333 2
               (hweight_step 0x5555555555555555 1 w)))))"

section \<open>Predicates\<close>

definition BITS_TO_LONGS :: "nat \<Rightarrow> nat" where
  "BITS_TO_LONGS bits = (bits + 63) div 64"

definition BITMAP_LAST_WORD_MASK :: "nat \<Rightarrow> ulong" where
  "BITMAP_LAST_WORD_MASK nbits = (if nbits mod 64 \<noteq> 0 then push_bit (nbits mod 64) 1 - 1 else - 1)"

text \<open>The loops that stop at the first word for which a test succeeds.\<close>

fun any_word :: "(nat \<Rightarrow> bool option) \<Rightarrow> nat \<Rightarrow> nat \<Rightarrow> bool option" where
  "any_word test k 0 = Some False"
| "any_word test k (Suc n) = do { b \<leftarrow> test k; if b then Some True else any_word test (k + 1) n }"

definition bitmap_empty_words :: "wmem \<Rightarrow> nat \<Rightarrow> nat \<Rightarrow> bool option" where
  "bitmap_empty_words m bitmap bits = do {
     let lim = bits div 64;
     found \<leftarrow> any_word (\<lambda>k. do { x \<leftarrow> array_get m (bitmap + k); Some (x \<noteq> 0) }) 0 lim;
     if found then Some False
     else if bits mod 64 \<noteq> 0 then do {
       x \<leftarrow> array_get m (bitmap + lim);
       Some (x AND BITMAP_LAST_WORD_MASK bits = 0)
     } else Some True
   }"

definition bitmap_full_words :: "wmem \<Rightarrow> nat \<Rightarrow> nat \<Rightarrow> bool option" where
  "bitmap_full_words m bitmap bits = do {
     let lim = bits div 64;
     found \<leftarrow> any_word (\<lambda>k. do { x \<leftarrow> array_get m (bitmap + k); Some (NOT x \<noteq> 0) }) 0 lim;
     if found then Some False
     else if bits mod 64 \<noteq> 0 then do {
       x \<leftarrow> array_get m (bitmap + lim);
       Some (NOT x AND BITMAP_LAST_WORD_MASK bits = 0)
     } else Some True
   }"

definition bitmap_equal_words :: "wmem \<Rightarrow> nat \<Rightarrow> nat \<Rightarrow> nat \<Rightarrow> bool option" where
  "bitmap_equal_words m bitmap1 bitmap2 bits = do {
     let lim = bits div 64;
     found \<leftarrow> any_word (\<lambda>k. do { x \<leftarrow> array_get m (bitmap1 + k); y \<leftarrow> array_get m (bitmap2 + k); Some (x \<noteq> y) }) 0 lim;
     if found then Some False
     else if bits mod 64 \<noteq> 0 then do {
       x \<leftarrow> array_get m (bitmap1 + lim);
       y \<leftarrow> array_get m (bitmap2 + lim);
       Some ((x XOR y) AND BITMAP_LAST_WORD_MASK bits = 0)
     } else Some True
   }"

definition bitmap_intersects_words :: "wmem \<Rightarrow> nat \<Rightarrow> nat \<Rightarrow> nat \<Rightarrow> bool option" where
  "bitmap_intersects_words m bitmap1 bitmap2 bits = do {
     let lim = bits div 64;
     found \<leftarrow> any_word (\<lambda>k. do { x \<leftarrow> array_get m (bitmap1 + k); y \<leftarrow> array_get m (bitmap2 + k); Some (x AND y \<noteq> 0) }) 0 lim;
     if found then Some True
     else if bits mod 64 \<noteq> 0 then do {
       x \<leftarrow> array_get m (bitmap1 + lim);
       y \<leftarrow> array_get m (bitmap2 + lim);
       Some ((x AND y) AND BITMAP_LAST_WORD_MASK bits \<noteq> 0)
     } else Some False
   }"

definition bitmap_subset_words :: "wmem \<Rightarrow> nat \<Rightarrow> nat \<Rightarrow> nat \<Rightarrow> bool option" where
  "bitmap_subset_words m bitmap1 bitmap2 bits = do {
     let lim = bits div 64;
     found \<leftarrow> any_word (\<lambda>k. do { x \<leftarrow> array_get m (bitmap1 + k); y \<leftarrow> array_get m (bitmap2 + k); Some (x AND NOT y \<noteq> 0) }) 0 lim;
     if found then Some False
     else if bits mod 64 \<noteq> 0 then do {
       x \<leftarrow> array_get m (bitmap1 + lim);
       y \<leftarrow> array_get m (bitmap2 + lim);
       Some ((x AND NOT y) AND BITMAP_LAST_WORD_MASK bits = 0)
     } else Some True
   }"

fun weight_loop :: "wmem \<Rightarrow> nat \<Rightarrow> nat \<Rightarrow> nat \<Rightarrow> nat \<Rightarrow> nat option" where
  "weight_loop m bitmap k 0 w = Some w"
| "weight_loop m bitmap k (Suc n) w = do {
     x \<leftarrow> array_get m (bitmap + k);
     weight_loop m bitmap (k + 1) n (w + unat (generic_hweight64 x))
   }"

definition bitmap_weight :: "wmem \<Rightarrow> nat \<Rightarrow> nat \<Rightarrow> nat option" where
  "bitmap_weight m bitmap bits = do {
     let lim = bits div 64;
     w \<leftarrow> weight_loop m bitmap 0 lim 0;
     if bits mod 64 \<noteq> 0 then do {
       x \<leftarrow> array_get m (bitmap + lim);
       Some (w + unat (generic_hweight64 (x AND BITMAP_LAST_WORD_MASK bits)))
     } else Some w
   }"

section \<open>Operations\<close>

text \<open>The loops \<^verbatim>\<open>for (k = ...) dst[k] = ...\<close>, upwards; the right-hand side reads the current memory.\<close>

fun map_words :: "(wmem \<Rightarrow> nat \<Rightarrow> ulong option) \<Rightarrow> wmem \<Rightarrow> nat \<Rightarrow> nat \<Rightarrow> nat \<Rightarrow> wmem option" where
  "map_words f m dst k 0 = Some m"
| "map_words f m dst k (Suc n) = do {
     w \<leftarrow> f m k;
     m' \<leftarrow> array_set m (dst + k) w;
     map_words f m' dst (k + 1) n
   }"

definition bitmap_complement_words :: "wmem \<Rightarrow> nat \<Rightarrow> nat \<Rightarrow> nat \<Rightarrow> wmem option" where
  "bitmap_complement_words m dst src bits = do {
     let lim = bits div 64;
     m1 \<leftarrow> map_words (\<lambda>m k. do { x \<leftarrow> array_get m (src + k); Some (NOT x) }) m dst 0 lim;
     if bits mod 64 \<noteq> 0 then do {
       x \<leftarrow> array_get m1 (src + lim);
       array_set m1 (dst + lim) (NOT x AND BITMAP_LAST_WORD_MASK bits)
     } else Some m1
   }"

definition bitmap_and_words :: "wmem \<Rightarrow> nat \<Rightarrow> nat \<Rightarrow> nat \<Rightarrow> nat \<Rightarrow> wmem option" where
  "bitmap_and_words m dst bitmap1 bitmap2 bits =
     map_words (\<lambda>m k. do { x \<leftarrow> array_get m (bitmap1 + k); y \<leftarrow> array_get m (bitmap2 + k); Some (x AND y) })
       m dst 0 (BITS_TO_LONGS bits)"

definition bitmap_or_words :: "wmem \<Rightarrow> nat \<Rightarrow> nat \<Rightarrow> nat \<Rightarrow> nat \<Rightarrow> wmem option" where
  "bitmap_or_words m dst bitmap1 bitmap2 bits =
     map_words (\<lambda>m k. do { x \<leftarrow> array_get m (bitmap1 + k); y \<leftarrow> array_get m (bitmap2 + k); Some (x OR y) })
       m dst 0 (BITS_TO_LONGS bits)"

definition bitmap_xor_words :: "wmem \<Rightarrow> nat \<Rightarrow> nat \<Rightarrow> nat \<Rightarrow> nat \<Rightarrow> wmem option" where
  "bitmap_xor_words m dst bitmap1 bitmap2 bits =
     map_words (\<lambda>m k. do { x \<leftarrow> array_get m (bitmap1 + k); y \<leftarrow> array_get m (bitmap2 + k); Some (x XOR y) })
       m dst 0 (BITS_TO_LONGS bits)"

definition bitmap_andnot_words :: "wmem \<Rightarrow> nat \<Rightarrow> nat \<Rightarrow> nat \<Rightarrow> nat \<Rightarrow> wmem option" where
  "bitmap_andnot_words m dst bitmap1 bitmap2 bits =
     map_words (\<lambda>m k. do { x \<leftarrow> array_get m (bitmap1 + k); y \<leftarrow> array_get m (bitmap2 + k); Some (x AND NOT y) })
       m dst 0 (BITS_TO_LONGS bits)"

section \<open>Shifts\<close>

text \<open>
  A shift by 64 of a word that is 0, which the code performs when \<^verbatim>\<open>rem\<close> is 0, gives 0 on every
  machine.
\<close>

definition shift_right_word :: "nat \<Rightarrow> nat \<Rightarrow> nat \<Rightarrow> wmem \<Rightarrow> nat \<Rightarrow> ulong option" where
  "shift_right_word src shift bits m k = (let
     lim = BITS_TO_LONGS bits; left = bits mod 64; off = shift div 64; rem = shift mod 64; msk = push_bit left 1 - 1 in do {
     upper \<leftarrow> (if rem = 0 \<or> off + k + 1 \<ge> lim then Some 0
       else do {
         u \<leftarrow> array_get m (src + off + k + 1);
         Some (if off + k + 1 = lim - 1 \<and> left \<noteq> 0 then u AND msk else u)
       });
     l \<leftarrow> array_get m (src + off + k);
     let lower = (if left \<noteq> 0 \<and> off + k = lim - 1 then l AND msk else l);
     let w = push_bit (64 - rem) upper OR drop_bit rem lower;
     Some (if left \<noteq> 0 \<and> k = lim - 1 then w AND msk else w)
   })"

text \<open>The address \<^verbatim>\<open>&dst[lim - off]\<close> may lie before \<^verbatim>\<open>dst\<close>.\<close>

definition bitmap_shift_right_words :: "wmem \<Rightarrow> nat \<Rightarrow> nat \<Rightarrow> nat \<Rightarrow> nat \<Rightarrow> wmem option" where
  "bitmap_shift_right_words m dst src shift bits = (let lim = BITS_TO_LONGS bits; off = shift div 64 in do {
     m1 \<leftarrow> map_words (shift_right_word src shift bits) m dst 0 (lim - off);
     if off = 0 then Some m1
     else if dst + lim < off then None
     else map_words (\<lambda>_ _. Some 0) m1 (dst + lim - off) 0 off
   })"

definition shift_left_word :: "nat \<Rightarrow> nat \<Rightarrow> nat \<Rightarrow> wmem \<Rightarrow> nat \<Rightarrow> ulong option" where
  "shift_left_word src shift bits m k = (let
     lim = BITS_TO_LONGS bits; left = bits mod 64; off = shift div 64; rem = shift mod 64; msk = push_bit left 1 - 1 in do {
     lower \<leftarrow> (if rem \<noteq> 0 \<and> k > 0 then array_get m (src + k - 1) else Some 0);
     u \<leftarrow> array_get m (src + k);
     let upper = (if left \<noteq> 0 \<and> k = lim - 1 then u AND msk else u);
     let w = drop_bit (64 - rem) lower OR push_bit rem upper;
     Some (if left \<noteq> 0 \<and> k + off = lim - 1 then w AND msk else w)
   })"

text \<open>The loop that runs downwards, from \<open>k = n - 1\<close>.\<close>

fun map_words_down :: "(wmem \<Rightarrow> nat \<Rightarrow> ulong option) \<Rightarrow> wmem \<Rightarrow> nat \<Rightarrow> nat \<Rightarrow> wmem option" where
  "map_words_down f m dst 0 = Some m"
| "map_words_down f m dst (Suc k) = do {
     w \<leftarrow> f m k;
     m' \<leftarrow> array_set m (dst + k) w;
     map_words_down f m' dst k
   }"

definition bitmap_shift_left_words :: "wmem \<Rightarrow> nat \<Rightarrow> nat \<Rightarrow> nat \<Rightarrow> nat \<Rightarrow> wmem option" where
  "bitmap_shift_left_words m dst src shift bits = (let lim = BITS_TO_LONGS bits; off = shift div 64 in do {
     m1 \<leftarrow> map_words_down (shift_left_word src shift bits) m (dst + off) (lim - off);
     if off \<noteq> 0 then map_words (\<lambda>_ _. Some 0) m1 dst 0 off else Some m1
   })"

section \<open>The functions of the header\<close>

definition bitmap_zero :: "wmem \<Rightarrow> nat \<Rightarrow> nat \<Rightarrow> wmem option" where
  "bitmap_zero m dst nbits =
     (if nbits \<le> 64 then array_set m dst 0 else map_words (\<lambda>_ _. Some 0) m dst 0 (BITS_TO_LONGS nbits))"

definition bitmap_fill :: "wmem \<Rightarrow> nat \<Rightarrow> nat \<Rightarrow> wmem option" where
  "bitmap_fill m dst nbits = (let nlongs = BITS_TO_LONGS nbits in do {
     m1 \<leftarrow> (if nlongs > 1 then map_words (\<lambda>_ _. Some (- 1)) m dst 0 (nlongs - 1) else Some m);
     if nlongs = 0 \<and> dst = 0 then None
     else array_set m1 (dst + nlongs - 1) (BITMAP_LAST_WORD_MASK nbits)
   })"

definition bitmap_copy :: "wmem \<Rightarrow> nat \<Rightarrow> nat \<Rightarrow> nat \<Rightarrow> wmem option" where
  "bitmap_copy m dst src nbits =
     (if nbits \<le> 64 then do { x \<leftarrow> array_get m src; array_set m dst x }
      else map_words (\<lambda>m k. array_get m (src + k)) m dst 0 (BITS_TO_LONGS nbits))"

text \<open>The shape that the two-operand functions share: one word, or the loop.\<close>

definition one_word :: "(ulong \<Rightarrow> ulong \<Rightarrow> ulong) \<Rightarrow> wmem \<Rightarrow> nat \<Rightarrow> nat \<Rightarrow> nat \<Rightarrow> wmem option" where
  "one_word f m dst src1 src2 = do { x \<leftarrow> array_get m src1; y \<leftarrow> array_get m src2; array_set m dst (f x y) }"

definition bitmap_and :: "wmem \<Rightarrow> nat \<Rightarrow> nat \<Rightarrow> nat \<Rightarrow> nat \<Rightarrow> wmem option" where
  "bitmap_and m dst src1 src2 nbits =
     (if nbits \<le> 64 then one_word (\<lambda>x y. x AND y) m dst src1 src2 else bitmap_and_words m dst src1 src2 nbits)"

definition bitmap_or :: "wmem \<Rightarrow> nat \<Rightarrow> nat \<Rightarrow> nat \<Rightarrow> nat \<Rightarrow> wmem option" where
  "bitmap_or m dst src1 src2 nbits =
     (if nbits \<le> 64 then one_word (\<lambda>x y. x OR y) m dst src1 src2 else bitmap_or_words m dst src1 src2 nbits)"

definition bitmap_xor :: "wmem \<Rightarrow> nat \<Rightarrow> nat \<Rightarrow> nat \<Rightarrow> nat \<Rightarrow> wmem option" where
  "bitmap_xor m dst src1 src2 nbits =
     (if nbits \<le> 64 then one_word (\<lambda>x y. x XOR y) m dst src1 src2 else bitmap_xor_words m dst src1 src2 nbits)"

definition bitmap_andnot :: "wmem \<Rightarrow> nat \<Rightarrow> nat \<Rightarrow> nat \<Rightarrow> nat \<Rightarrow> wmem option" where
  "bitmap_andnot m dst src1 src2 nbits =
     (if nbits \<le> 64 then one_word (\<lambda>x y. x AND NOT y) m dst src1 src2 else bitmap_andnot_words m dst src1 src2 nbits)"

definition bitmap_complement :: "wmem \<Rightarrow> nat \<Rightarrow> nat \<Rightarrow> nat \<Rightarrow> wmem option" where
  "bitmap_complement m dst src nbits =
     (if nbits \<le> 64 then do { x \<leftarrow> array_get m src; array_set m dst (NOT x AND BITMAP_LAST_WORD_MASK nbits) }
      else bitmap_complement_words m dst src nbits)"

definition bitmap_equal :: "wmem \<Rightarrow> nat \<Rightarrow> nat \<Rightarrow> nat \<Rightarrow> bool option" where
  "bitmap_equal m src1 src2 nbits =
     (if nbits \<le> 64 then do {
        x \<leftarrow> array_get m src1; y \<leftarrow> array_get m src2;
        Some ((x XOR y) AND BITMAP_LAST_WORD_MASK nbits = 0) }
      else bitmap_equal_words m src1 src2 nbits)"

definition bitmap_intersects :: "wmem \<Rightarrow> nat \<Rightarrow> nat \<Rightarrow> nat \<Rightarrow> bool option" where
  "bitmap_intersects m src1 src2 nbits =
     (if nbits \<le> 64 then do {
        x \<leftarrow> array_get m src1; y \<leftarrow> array_get m src2;
        Some ((x AND y) AND BITMAP_LAST_WORD_MASK nbits \<noteq> 0) }
      else bitmap_intersects_words m src1 src2 nbits)"

definition bitmap_subset :: "wmem \<Rightarrow> nat \<Rightarrow> nat \<Rightarrow> nat \<Rightarrow> bool option" where
  "bitmap_subset m src1 src2 nbits =
     (if nbits \<le> 64 then do {
        x \<leftarrow> array_get m src1; y \<leftarrow> array_get m src2;
        Some ((x AND NOT y) AND BITMAP_LAST_WORD_MASK nbits = 0) }
      else bitmap_subset_words m src1 src2 nbits)"

definition bitmap_empty :: "wmem \<Rightarrow> nat \<Rightarrow> nat \<Rightarrow> bool option" where
  "bitmap_empty m src nbits =
     (if nbits \<le> 64 then do { x \<leftarrow> array_get m src; Some (x AND BITMAP_LAST_WORD_MASK nbits = 0) }
      else bitmap_empty_words m src nbits)"

definition bitmap_full :: "wmem \<Rightarrow> nat \<Rightarrow> nat \<Rightarrow> bool option" where
  "bitmap_full m src nbits =
     (if nbits \<le> 64 then do { x \<leftarrow> array_get m src; Some (NOT x AND BITMAP_LAST_WORD_MASK nbits = 0) }
      else bitmap_full_words m src nbits)"

text \<open>A shift of one word by 64 or more is undefined.\<close>

definition bitmap_shift_right :: "wmem \<Rightarrow> nat \<Rightarrow> nat \<Rightarrow> nat \<Rightarrow> nat \<Rightarrow> wmem option" where
  "bitmap_shift_right m dst src n nbits =
     (if nbits \<le> 64 then do { bug_on (n \<ge> 64); x \<leftarrow> array_get m src; array_set m dst (drop_bit n x) }
      else bitmap_shift_right_words m dst src n nbits)"

definition bitmap_shift_left :: "wmem \<Rightarrow> nat \<Rightarrow> nat \<Rightarrow> nat \<Rightarrow> nat \<Rightarrow> wmem option" where
  "bitmap_shift_left m dst src n nbits =
     (if nbits \<le> 64 then do {
        bug_on (n \<ge> 64); x \<leftarrow> array_get m src; array_set m dst (push_bit n x AND BITMAP_LAST_WORD_MASK nbits) }
      else bitmap_shift_left_words m dst src n nbits)"

section \<open>Regions\<close>

definition region_mask :: "nat \<Rightarrow> ulong" where
  "region_mask pages = (let msk = push_bit (pages - 1) 1 in msk + (msk - 1))"

function find_region_loop :: "wmem \<Rightarrow> nat \<Rightarrow> nat \<Rightarrow> nat \<Rightarrow> nat \<Rightarrow> (wmem \<times> int) option" where
  "find_region_loop m bitmap bits order i =
     (if i < bits then do {
        let index = i div 64;
        let offset = i - index * 64;
        w \<leftarrow> array_get m (bitmap + index);
        if w AND push_bit offset (region_mask (2 ^ order)) = 0 then do {
          m' \<leftarrow> array_set m (bitmap + index) (w OR push_bit offset (region_mask (2 ^ order)));
          Some (m', int i)
        } else find_region_loop m bitmap bits order (i + 2 ^ order)
      } else Some (m, - ENOMEM))"
  by pat_completeness auto
termination by (relation "measure (\<lambda>(m, bitmap, bits, order, i). bits - i)") (auto intro: diff_less_mono2)

declare find_region_loop.simps [simp del]

definition bitmap_find_free_region :: "wmem \<Rightarrow> nat \<Rightarrow> nat \<Rightarrow> nat \<Rightarrow> (wmem \<times> int) option" where
  "bitmap_find_free_region m bitmap bits order =
     (if 2 ^ order > (64 :: nat) then Some (m, - EINVAL) else find_region_loop m bitmap bits order 0)"

text \<open>
  \<^verbatim>\<open>bitmap_release_region\<close> has no check of its own: for a region larger than a word
  \<^verbatim>\<open>1ul << (pages - 1)\<close> is a shift by more than the width of the word, which C leaves undefined
  and the model counts as a crash.
\<close>

definition bitmap_release_region :: "wmem \<Rightarrow> nat \<Rightarrow> nat \<Rightarrow> nat \<Rightarrow> wmem option" where
  "bitmap_release_region m bitmap pos order = do {
     bug_on (2 ^ order > (64 :: nat));
     let index = pos div 64;
     let offset = pos - index * 64;
     w \<leftarrow> array_get m (bitmap + index);
     array_set m (bitmap + index) (w AND NOT (push_bit offset (region_mask (2 ^ order))))
   }"

definition bitmap_allocate_region :: "wmem \<Rightarrow> nat \<Rightarrow> nat \<Rightarrow> nat \<Rightarrow> (wmem \<times> int) option" where
  "bitmap_allocate_region m bitmap pos order = do {
     bug_on (2 ^ order > (64 :: nat));
     let index = pos div 64;
     let offset = pos - index * 64;
     w \<leftarrow> array_get m (bitmap + index);
     if w AND push_bit offset (region_mask (2 ^ order)) \<noteq> 0 then Some (m, - EBUSY)
     else do {
       m' \<leftarrow> array_set m (bitmap + index) (w OR push_bit offset (region_mask (2 ^ order)));
       Some (m', 0)
     }
   }"

end
