(* ===== verification/Bitmap_Facts.thy ===== *)
theory Bitmap_Facts
  imports Bitmap
begin

text \<open>
  A bitmap denotes a set of numbers; the predicates and operations on bitmaps are those on sets.
  The bits beyond the size of a bitmap are never looked at.
\<close>

section \<open>The set of a bitmap\<close>

definition bset :: "wmem \<Rightarrow> nat \<Rightarrow> nat \<Rightarrow> nat set" where
  "bset m p n = {i. i < n \<and> bit (m ! (p + i div 64)) (i mod 64)}"

definition holds :: "wmem \<Rightarrow> nat \<Rightarrow> nat \<Rightarrow> bool" where
  "holds m p n \<longleftrightarrow> p + BITS_TO_LONGS n \<le> length m"

lemma mem_bset: "i \<in> bset m p n \<longleftrightarrow> i < n \<and> bit (m ! (p + i div 64)) (i mod 64)"
  by (simp add: bset_def)

lemma split64:
  obtains q r where "n = 64 * q + r" "r < (64 :: nat)" "n div 64 = q" "n mod 64 = r"
  by (rule that [of "n div 64" "n mod 64"]) simp_all

lemma BITS_TO_LONGS_eq: "BITS_TO_LONGS n = n div 64 + (if n mod 64 = 0 then 0 else 1)"
proof (rule split64 [of n])
  fix q r assume n: "n = 64 * q + r" "r < 64" "n div 64 = q" "n mod 64 = r"
  have "(64 * q + r + 63) div 64 = q + (if r = 0 then 0 else 1)" using n(2) by (intro div_nat_eqI) (auto split: if_splits)
  then show ?thesis unfolding BITS_TO_LONGS_def n(3,4) by (simp add: n(1))
qed

lemma in_word:
  assumes "b < (64 :: nat)"
  shows "(64 * j + b) div 64 = j" "(64 * j + b) mod 64 = b"
    "64 * j + b < n \<longleftrightarrow> j < n div 64 \<or> j = n div 64 \<and> b < n mod 64"
proof -
  show "(64 * j + b) div 64 = j" "(64 * j + b) mod 64 = b" using assms by simp_all
  show "64 * j + b < n \<longleftrightarrow> j < n div 64 \<or> j = n div 64 \<and> b < n mod 64"
  proof (rule split64 [of n])
    fix q r assume "n = 64 * q + r" "r < 64" "n div 64 = q" "n mod 64 = r"
    then show ?thesis using assms by auto
  qed
qed

text \<open>A number below \<open>n\<close> lies in a full word or in the used part of the last one.\<close>

lemma below_cases:
  assumes "i < n"
  shows "i div 64 < n div 64 \<or> i div 64 = n div 64 \<and> i mod 64 < n mod (64 :: nat)"
  using in_word(3) [of "i mod 64" "i div 64" n] assms by simp

lemma lim_le: "n div 64 \<le> BITS_TO_LONGS n" "n mod 64 \<noteq> 0 \<Longrightarrow> n div 64 < BITS_TO_LONGS n"
  "i < n \<Longrightarrow> i div 64 < BITS_TO_LONGS n"
  using below_cases [of i n] by (auto simp: BITS_TO_LONGS_eq)

lemma holds_get: "holds m p n \<Longrightarrow> k < BITS_TO_LONGS n \<Longrightarrow> array_get m (p + k) = Some (m ! (p + k))"
  by (simp add: holds_def)

lemma bit_low_mask: "bit (2 ^ k - 1 :: ulong) j \<longleftrightarrow> j < k \<and> j < 64"
  using bit_mask_iff [of k j, where 'a = "64 word"] by (auto simp: mask_eq_exp_minus_1)

lemma bit_last_word_mask:
  "bit (BITMAP_LAST_WORD_MASK n) j \<longleftrightarrow> j < 64 \<and> (n mod 64 \<noteq> 0 \<longrightarrow> j < n mod 64)"
  by (auto simp: BITMAP_LAST_WORD_MASK_def bit_low_mask)

lemma bit_lt: "bit (w :: ulong) j \<Longrightarrow> j < 64"
  using bit_imp_le_length [of w j] by simp

lemma word_zero_iff: "w = (0 :: ulong) \<longleftrightarrow> (\<forall>j < 64. \<not> bit w j)"
  by (auto simp: bit_eq_iff dest: bit_lt)

section \<open>Predicates\<close>

lemma any_word_eq:
  assumes "\<And>j. j \<in> {k..<k + n} \<Longrightarrow> test j = Some (P j)"
  shows "any_word test k n = Some (\<exists>j \<in> {k..<k + n}. P j)"
  using assms
proof (induction n arbitrary: k)
  case (Suc n)
  have "any_word test (k + 1) n = Some (\<exists>j \<in> {k + 1..<k + 1 + n}. P j)" by (rule Suc.IH) (use Suc.prems in simp)
  moreover have "{k..<k + Suc n} = insert k {k + 1..<k + 1 + n}" by auto
  ultimately show ?case using Suc.prems [of k] by simp
qed simp

text \<open>All words up to the last, and the last one under its mask, are zero.\<close>

lemma words_zero:
  "(\<forall>j < n div 64. w j = 0) \<and> (n mod 64 \<noteq> 0 \<longrightarrow> w (n div 64) AND BITMAP_LAST_WORD_MASK n = (0 :: ulong)) \<longleftrightarrow>
   (\<forall>i < n. \<not> bit (w (i div 64)) (i mod 64))" (is "?l \<longleftrightarrow> ?r")
proof
  assume l: ?l
  show ?r
  proof (intro allI impI)
    fix i assume i: "i < n"
    show "\<not> bit (w (i div 64)) (i mod 64)"
    proof (cases "i div 64 < n div 64")
      case False
      then have e: "i div 64 = n div 64" "i mod 64 < n mod 64" using below_cases [OF i] by auto
      then have "\<not> bit (w (n div 64) AND BITMAP_LAST_WORD_MASK n) (i mod 64)" using l by simp
      then show ?thesis using e by (simp add: bit_and_iff bit_last_word_mask)
    qed (use l in simp)
  qed
next
  assume r: ?r
  have "\<not> bit (w j) b" if "j < n div 64" "b < 64" for j b
    using r [rule_format, of "64 * j + b"] in_word(1,2) [OF that(2), of j] in_word(3) [OF that(2), of j n] that(1) by simp
  moreover have "\<not> bit (w (n div 64)) b" if "b < n mod 64" for b
  proof -
    have "b < 64" using that mod_less_divisor [of 64 n] by linarith
    then show ?thesis using r [rule_format, of "64 * (n div 64) + b"] in_word(1,2) [of b "n div 64"] in_word(3) [of b "n div 64" n] that by simp
  qed
  ultimately show ?l by (auto simp: word_zero_iff bit_and_iff bit_last_word_mask)
qed

text \<open>The contract of the five predicates, which differ in the word they test.\<close>

locale word_test =
  fixes test :: "ulong \<Rightarrow> ulong \<Rightarrow> ulong" and rel :: "bool \<Rightarrow> bool \<Rightarrow> bool"
  assumes test_bit: "j < 64 \<Longrightarrow> bit (test x y) j \<longleftrightarrow> rel (bit x j) (bit y j)"
begin

lemma small:
  assumes "0 < n" "n \<le> 64"
  shows "test x y AND BITMAP_LAST_WORD_MASK n = 0 \<longleftrightarrow> (\<forall>i < n. \<not> rel (bit x i) (bit y i))"
proof -
  have "j < 64 \<and> (n mod 64 \<noteq> 0 \<longrightarrow> j < n mod 64) \<longleftrightarrow> j < n" for j using assms by (cases "n = 64") auto
  then show ?thesis using assms by (auto simp: word_zero_iff bit_and_iff bit_last_word_mask test_bit)
qed

lemma small_bset:
  assumes "0 < n" "n \<le> 64"
  shows "test (m ! p) (m ! q) AND BITMAP_LAST_WORD_MASK n = 0 \<longleftrightarrow> (\<forall>i < n. \<not> rel (i \<in> bset m p n) (i \<in> bset m q n))"
  using assms by (subst small) (auto simp: mem_bset)

lemma decide:
  assumes T: "\<And>j. j < n div 64 \<Longrightarrow> T j = Some (test (m ! (p + j)) (m ! (q + j)) \<noteq> 0)"
    and L: "n mod 64 \<noteq> 0 \<Longrightarrow> L = Some (test (m ! (p + n div 64)) (m ! (q + n div 64)) AND BITMAP_LAST_WORD_MASK n = 0)"
  shows "do { found \<leftarrow> any_word T 0 (n div 64); if found then Some False else if n mod 64 \<noteq> 0 then L else Some True } =
    Some (\<forall>i < n. \<not> rel (i \<in> bset m p n) (i \<in> bset m q n))"
proof -
  let ?w = "\<lambda>j. test (m ! (p + j)) (m ! (q + j))"
  have "any_word T 0 (n div 64) = Some (\<exists>j \<in> {0..<0 + n div 64}. ?w j \<noteq> 0)" by (rule any_word_eq) (use T in simp)
  then have "do { found \<leftarrow> any_word T 0 (n div 64); if found then Some False else if n mod 64 \<noteq> 0 then L else Some True } =
    Some ((\<forall>j < n div 64. ?w j = 0) \<and> (n mod 64 \<noteq> 0 \<longrightarrow> ?w (n div 64) AND BITMAP_LAST_WORD_MASK n = 0))"
    using L by (auto simp: atLeast0LessThan)
  then show ?thesis unfolding words_zero [of n ?w] by (simp add: test_bit mem_bset)
qed

end

interpretation empty_test: word_test "\<lambda>x _. x" "\<lambda>a _. a"
  by unfold_locales simp

interpretation full_test: word_test "\<lambda>x _. NOT x" "\<lambda>a _. \<not> a"
  by unfold_locales (simp add: bit_not_iff)

interpretation equal_test: word_test "\<lambda>x y. x XOR y" "\<lambda>a b. a \<noteq> b"
  by unfold_locales (simp add: bit_xor_iff)

interpretation meet_test: word_test "\<lambda>x y. x AND y" "\<lambda>a b. a \<and> b"
  by unfold_locales (simp add: bit_and_iff)

interpretation diff_test: word_test "\<lambda>x y. x AND NOT y" "\<lambda>a b. a \<and> \<not> b"
  by unfold_locales (simp add: bit_and_iff bit_not_iff)

lemma get_word:
  assumes "holds m p n" "k < n div 64 \<or> k = n div 64 \<and> n mod 64 \<noteq> 0"
  shows "array_get m (p + k) = Some (m ! (p + k))"
  using assms lim_le(1,2) [of n] by (intro holds_get [OF assms(1)]) auto

lemma holds_small: "holds m p n \<Longrightarrow> 0 < n \<Longrightarrow> p < length m"
  using lim_le(3) [of 0 n] by (simp add: holds_def)

lemma bset_iff:
  "bset m p n = {} \<longleftrightarrow> (\<forall>i < n. i \<notin> bset m p n)" "bset m p n = {..<n} \<longleftrightarrow> (\<forall>i < n. i \<in> bset m p n)"
  "bset m p n = bset m q n \<longleftrightarrow> (\<forall>i < n. (i \<in> bset m p n) = (i \<in> bset m q n))"
  "bset m p n \<subseteq> bset m q n \<longleftrightarrow> (\<forall>i < n. i \<in> bset m p n \<longrightarrow> i \<in> bset m q n)"
  "bset m p n \<inter> bset m q n = {} \<longleftrightarrow> (\<forall>i < n. i \<in> bset m p n \<longrightarrow> i \<notin> bset m q n)"
  unfolding bset_def by blast+

lemma bitmap_empty_eq:
  assumes "holds m p n" "0 < n"
  shows "bitmap_empty m p n = Some (bset m p n = {})"
proof (cases "n \<le> 64")
  case True
  then show ?thesis using assms empty_test.small_bset [of n m p] by (simp add: bitmap_empty_def holds_small bset_iff)
next
  case False
  have "bitmap_empty_words m p n = Some (\<forall>i < n. i \<notin> bset m p n)"
    unfolding bitmap_empty_words_def Let_def by (rule empty_test.decide [of n _ m p]) (simp_all add: get_word [OF assms(1)])
  then show ?thesis using False by (simp add: bitmap_empty_def bset_iff)
qed

lemma bitmap_full_eq:
  assumes "holds m p n" "0 < n"
  shows "bitmap_full m p n = Some (bset m p n = {..<n})"
proof (cases "n \<le> 64")
  case True
  then show ?thesis using assms full_test.small_bset [of n m p] by (simp add: bitmap_full_def holds_small bset_iff)
next
  case False
  have "bitmap_full_words m p n = Some (\<forall>i < n. \<not> i \<notin> bset m p n)"
    unfolding bitmap_full_words_def Let_def by (rule full_test.decide [of n _ m p]) (simp_all add: get_word [OF assms(1)])
  then show ?thesis using False by (simp add: bitmap_full_def bset_iff)
qed

lemma xor_zero: "x XOR y = 0 \<longleftrightarrow> x = (y :: ulong)"
  by (auto simp: bit_eq_iff bit_xor_iff)

lemma bitmap_equal_eq:
  assumes "holds m p n" "holds m q n" "0 < n"
  shows "bitmap_equal m p q n = Some (bset m p n = bset m q n)"
proof (cases "n \<le> 64")
  case True
  then show ?thesis using assms equal_test.small_bset [of n m p q] by (simp add: bitmap_equal_def holds_small bset_iff)
next
  case False
  have "bitmap_equal_words m p q n = Some (\<forall>i < n. \<not> (i \<in> bset m p n) \<noteq> (i \<in> bset m q n))"
    unfolding bitmap_equal_words_def Let_def
    by (rule equal_test.decide [of n _ m p q]) (simp_all add: get_word [OF assms(1)] get_word [OF assms(2)] xor_zero)
  then show ?thesis using False by (simp add: bitmap_equal_def bset_iff)
qed

lemma bitmap_subset_eq:
  assumes "holds m p n" "holds m q n" "0 < n"
  shows "bitmap_subset m p q n = Some (bset m p n \<subseteq> bset m q n)"
proof (cases "n \<le> 64")
  case True
  then show ?thesis using assms diff_test.small_bset [of n m p q] by (simp add: bitmap_subset_def holds_small bset_iff)
next
  case False
  have "bitmap_subset_words m p q n = Some (\<forall>i < n. \<not> (i \<in> bset m p n \<and> i \<notin> bset m q n))"
    unfolding bitmap_subset_words_def Let_def
    by (rule diff_test.decide [of n _ m p q]) (simp_all add: get_word [OF assms(1)] get_word [OF assms(2)])
  then show ?thesis using False by (simp add: bitmap_subset_def bset_iff)
qed

lemma bind_not:
  "do { f \<leftarrow> a; if f then Some True else if c then map_option Not l else Some False } =
   map_option Not (do { f \<leftarrow> a; if f then Some False else if c then l else Some True })"
  by (cases a) auto

lemma bitmap_intersects_eq:
  assumes "holds m p n" "holds m q n" "0 < n"
  shows "bitmap_intersects m p q n = Some (bset m p n \<inter> bset m q n \<noteq> {})"
proof (cases "n \<le> 64")
  case True
  then show ?thesis using assms meet_test.small_bset [of n m p q] by (simp add: bitmap_intersects_def holds_small bset_iff)
next
  case False
  let ?T = "\<lambda>k. do { x \<leftarrow> array_get m (p + k); y \<leftarrow> array_get m (q + k); Some (x AND y \<noteq> 0) }"
  let ?L = "do { x \<leftarrow> array_get m (p + n div 64); y \<leftarrow> array_get m (q + n div 64); Some ((x AND y) AND BITMAP_LAST_WORD_MASK n = 0) }"
  have "do { f \<leftarrow> any_word ?T 0 (n div 64); if f then Some False else if n mod 64 \<noteq> 0 then ?L else Some True } =
    Some (\<forall>i < n. \<not> (i \<in> bset m p n \<and> i \<in> bset m q n))"
    by (rule meet_test.decide [of n _ m p q]) (simp_all add: get_word [OF assms(1)] get_word [OF assms(2)])
  moreover have "bitmap_intersects_words m p q n =
      do { f \<leftarrow> any_word ?T 0 (n div 64); if f then Some True else if n mod 64 \<noteq> 0 then map_option Not ?L else Some False }"
  proof -
    have "map_option Not ?L = do { x \<leftarrow> array_get m (p + n div 64); y \<leftarrow> array_get m (q + n div 64);
        Some ((x AND y) AND BITMAP_LAST_WORD_MASK n \<noteq> 0) }"
      by (cases "array_get m (p + n div 64)"; cases "array_get m (q + n div 64)") simp_all
    then show ?thesis by (simp only: bitmap_intersects_words_def Let_def)
  qed
  ultimately have "bitmap_intersects_words m p q n = Some (\<not> (\<forall>i < n. \<not> (i \<in> bset m p n \<and> i \<in> bset m q n)))"
    unfolding bind_not by simp
  then show ?thesis using False by (simp add: bitmap_intersects_def bset_iff)
qed

end
