(* ===== verification/Bitmap_Ops.thy ===== *)
theory Bitmap_Ops
  imports Bitmap_Facts
begin

text \<open>
  The operations that write a bitmap.  The destination may be an operand, or overlap it from
  below: the loops read each word before they overwrite it.
\<close>

section \<open>Loops that write words\<close>

definition written :: "wmem \<Rightarrow> nat \<Rightarrow> nat \<Rightarrow> (nat \<Rightarrow> ulong) \<Rightarrow> wmem" where
  "written m d n g = map (\<lambda>i. if d \<le> i \<and> i < d + n then g (i - d) else m ! i) [0..<length m]"

lemma written_sel [simp]:
  "length (written m d n g) = length m"
  "i < length m \<Longrightarrow> written m d n g ! i = (if d \<le> i \<and> i < d + n then g (i - d) else m ! i)"
  by (simp_all add: written_def)

lemma written_0 [simp]: "written m d 0 g = m"
  by (rule nth_equalityI) auto

lemma map_words_eq:
  assumes "dst + k + n \<le> length m"
    and "\<And>j m'. k \<le> j \<Longrightarrow> j < k + n \<Longrightarrow> length m' = length m \<Longrightarrow>
      (\<And>i. i < length m \<Longrightarrow> i < dst + k \<or> dst + j \<le> i \<Longrightarrow> m' ! i = m ! i) \<Longrightarrow> f m' j = Some (g j)"
  shows "map_words f m dst k n = Some (written m (dst + k) n (\<lambda>i. g (k + i)))"
  using assms
proof (induction n arbitrary: k m)
  case (Suc n)
  let ?m = "m[dst + k := g k]"
  have "f m k = Some (g k)" by (rule Suc.prems(2)) simp_all
  moreover have "map_words f ?m dst (k + 1) n = Some (written ?m (dst + (k + 1)) n (\<lambda>i. g (k + 1 + i)))"
  proof (rule Suc.IH)
    fix j m' assume j: "k + 1 \<le> j" "j < k + 1 + n" "length m' = length ?m"
      "\<And>i. i < length ?m \<Longrightarrow> i < dst + (k + 1) \<or> dst + j \<le> i \<Longrightarrow> m' ! i = ?m ! i"
    show "f m' j = Some (g j)"
    proof (rule Suc.prems(2))
      fix i assume "i < length m" "i < dst + k \<or> dst + j \<le> i"
      then show "m' ! i = m ! i" using j(1) j(4) [of i] by auto
    qed (use j in simp_all)
  qed (use Suc.prems(1) in simp)
  moreover have "written ?m (dst + (k + 1)) n (\<lambda>i. g (k + 1 + i)) = written m (dst + k) (Suc n) (\<lambda>i. g (k + i))"
    by (rule nth_equalityI) (auto simp: nth_list_update Suc_diff_le intro!: arg_cong [of _ _ g])
  ultimately show ?case using Suc.prems(1) by simp
qed simp

lemma map_words_down_eq:
  assumes "dst + n \<le> length m"
    and "\<And>j m'. j < n \<Longrightarrow> length m' = length m \<Longrightarrow>
      (\<And>i. i < length m \<Longrightarrow> i \<le> dst + j \<or> dst + n \<le> i \<Longrightarrow> m' ! i = m ! i) \<Longrightarrow> f m' j = Some (g j)"
  shows "map_words_down f m dst n = Some (written m dst n g)"
  using assms
proof (induction n arbitrary: m)
  case (Suc n)
  let ?m = "m[dst + n := g n]"
  have "f m n = Some (g n)" by (rule Suc.prems(2)) simp_all
  moreover have "map_words_down f ?m dst n = Some (written ?m dst n g)"
  proof (rule Suc.IH)
    fix j m' assume j: "j < n" "length m' = length ?m"
      "\<And>i. i < length ?m \<Longrightarrow> i \<le> dst + j \<or> dst + n \<le> i \<Longrightarrow> m' ! i = ?m ! i"
    show "f m' j = Some (g j)"
    proof (rule Suc.prems(2))
      fix i assume "i < length m" "i \<le> dst + j \<or> dst + Suc n \<le> i"
      then show "m' ! i = m ! i" using j(1) j(3) [of i] by auto
    qed (use j in simp_all)
  qed (use Suc.prems(1) in simp)
  moreover have "written ?m dst n g = written m dst (Suc n) g"
    by (rule nth_equalityI) (auto simp: nth_list_update less_Suc_eq)
  ultimately show ?case using Suc.prems(1) by simp
qed simp

text \<open>\<open>m'\<close> is \<open>m\<close> with the set \<open>S\<close> stored in the bitmap at \<open>d\<close>, and nothing else changed.\<close>

definition stores :: "wmem \<Rightarrow> nat \<Rightarrow> nat \<Rightarrow> nat set \<Rightarrow> wmem \<Rightarrow> bool" where
  "stores m d n S m' \<longleftrightarrow> length m' = length m \<and> bset m' d n = S \<and>
     (\<forall>i < length m. i < d \<or> d + BITS_TO_LONGS n \<le> i \<longrightarrow> m' ! i = m ! i)"

lemma written_stores:
  assumes "holds m d n" "\<And>i. i < n \<Longrightarrow> bit (g (i div 64)) (i mod 64) \<longleftrightarrow> i \<in> S" "S \<subseteq> {..<n}"
  shows "stores m d n S (written m d (BITS_TO_LONGS n) g)"
proof -
  have "i \<in> bset (written m d (BITS_TO_LONGS n) g) d n \<longleftrightarrow> i \<in> S" for i
  proof (cases "i < n")
    case True
    then have "d + i div 64 < length m" "i div 64 < BITS_TO_LONGS n" using assms(1) lim_le(3) [OF True] by (simp_all add: holds_def)
    then show ?thesis using True assms(2) [OF True] by (simp add: mem_bset)
  qed (use assms(3) in \<open>auto simp: mem_bset\<close>)
  then show ?thesis by (auto simp: stores_def)
qed

text \<open>The destination does not overlap the operand from above.\<close>

definition below :: "nat \<Rightarrow> nat \<Rightarrow> nat \<Rightarrow> bool" where
  "below dst src n \<longleftrightarrow> dst \<le> src \<or> src + BITS_TO_LONGS n \<le> dst"

lemma below_refl [simp]: "below d d n"
  by (simp add: below_def)

lemma read_word:
  assumes "holds m src n" "below dst src n" "j < BITS_TO_LONGS n" "length m' = length m"
    and "\<And>i. i < length m \<Longrightarrow> i < dst + 0 \<or> dst + j \<le> i \<Longrightarrow> m' ! i = m ! i"
  shows "array_get m' (src + j) = Some (m ! (src + j))"
proof -
  have "src + j < length m" using assms(1,3) by (simp add: holds_def)
  moreover from this have "m' ! (src + j) = m ! (src + j)" using assms(2,3) by (intro assms(5)) (auto simp: below_def)
  ultimately show ?thesis using assms(4) by simp
qed

lemma one_word_longs: "0 < n \<Longrightarrow> n \<le> 64 \<Longrightarrow> BITS_TO_LONGS n = 1"
  by (cases "n = 64") (simp_all add: BITS_TO_LONGS_eq)

context word_test
begin

lemma combine:
  assumes "holds m dst n" "holds m a n" "holds m b n" "below dst a n" "below dst b n"
  shows "\<exists>m'. map_words (\<lambda>m k. do { x \<leftarrow> array_get m (a + k); y \<leftarrow> array_get m (b + k); Some (test x y) }) m dst 0 (BITS_TO_LONGS n) = Some m' \<and>
    stores m dst n {i. i < n \<and> rel (i \<in> bset m a n) (i \<in> bset m b n)} m'"
proof -
  let ?g = "\<lambda>k. test (m ! (a + k)) (m ! (b + k))"
  have "map_words (\<lambda>m k. do { x \<leftarrow> array_get m (a + k); y \<leftarrow> array_get m (b + k); Some (test x y) }) m dst 0 (BITS_TO_LONGS n) =
      Some (written m (dst + 0) (BITS_TO_LONGS n) (\<lambda>i. ?g (0 + i)))"
  proof (rule map_words_eq)
    fix j m' assume "0 \<le> j" "j < 0 + BITS_TO_LONGS n" "length m' = length m"
      "\<And>i. i < length m \<Longrightarrow> i < dst + 0 \<or> dst + j \<le> i \<Longrightarrow> m' ! i = m ! i"
    then show "do { x \<leftarrow> array_get m' (a + j); y \<leftarrow> array_get m' (b + j); Some (test x y) } = Some (?g j)"
      using read_word [OF assms(2,4), of j m'] read_word [OF assms(3,5), of j m'] by simp
  qed (use assms(1) in \<open>simp add: holds_def\<close>)
  moreover have "stores m dst n {i. i < n \<and> rel (i \<in> bset m a n) (i \<in> bset m b n)} (written m dst (BITS_TO_LONGS n) ?g)"
    using assms(1) by (rule written_stores) (auto simp: test_bit mem_bset)
  ultimately show ?thesis by simp
qed

lemma combine_one:
  assumes "holds m dst n" "holds m a n" "holds m b n" "0 < n" "n \<le> 64"
  shows "\<exists>m'. one_word test m dst a b = Some m' \<and> stores m dst n {i. i < n \<and> rel (i \<in> bset m a n) (i \<in> bset m b n)} m'"
proof -
  let ?m = "m[dst := test (m ! a) (m ! b)]"
  have l: "dst < length m" "a < length m" "b < length m" using assms holds_small by blast+
  have e: "written m dst (BITS_TO_LONGS n) (\<lambda>_. test (m ! a) (m ! b)) = ?m"
    using one_word_longs [OF assms(4,5)] l by (intro nth_equalityI) (auto simp: nth_list_update)
  have "stores m dst n {i. i < n \<and> rel (i \<in> bset m a n) (i \<in> bset m b n)} ?m"
    unfolding e [symmetric] using assms(1) by (rule written_stores) (use assms(5) in \<open>auto simp: test_bit mem_bset\<close>)
  moreover have "one_word test m dst a b = Some ?m" using l by (simp add: one_word_def)
  ultimately show ?thesis by blast
qed

end

interpretation join_test: word_test "\<lambda>x y. x OR y" "\<lambda>a b. a \<or> b"
  by unfold_locales (simp add: bit_or_iff)

lemmas bitmap_op_defs = bitmap_and_def bitmap_or_def bitmap_xor_def bitmap_andnot_def
  bitmap_and_words_def bitmap_or_words_def bitmap_xor_words_def bitmap_andnot_words_def

lemma bset_ops:
  "{i. i < n \<and> i \<in> bset m a n \<and> i \<in> bset m b n} = bset m a n \<inter> bset m b n"
  "{i. i < n \<and> (i \<in> bset m a n \<or> i \<in> bset m b n)} = bset m a n \<union> bset m b n"
  "{i. i < n \<and> (i \<in> bset m a n) \<noteq> (i \<in> bset m b n)} = (bset m a n - bset m b n) \<union> (bset m b n - bset m a n)"
  "{i. i < n \<and> i \<in> bset m a n \<and> i \<notin> bset m b n} = bset m a n - bset m b n"
  "{i. i < n \<and> i \<notin> bset m a n} = {..<n} - bset m a n"
  by (auto simp: mem_bset)

lemma bitmap_ops_spec:
  assumes "holds m dst n" "holds m a n" "holds m b n" "below dst a n" "below dst b n" "0 < n"
  shows "\<exists>m'. bitmap_and m dst a b n = Some m' \<and> stores m dst n (bset m a n \<inter> bset m b n) m'"
    and "\<exists>m'. bitmap_or m dst a b n = Some m' \<and> stores m dst n (bset m a n \<union> bset m b n) m'"
    and "\<exists>m'. bitmap_xor m dst a b n = Some m' \<and> stores m dst n ((bset m a n - bset m b n) \<union> (bset m b n - bset m a n)) m'"
    and "\<exists>m'. bitmap_andnot m dst a b n = Some m' \<and> stores m dst n (bset m a n - bset m b n) m'"
  using meet_test.combine [OF assms(1-5)] meet_test.combine_one [OF assms(1-3,6)]
    join_test.combine [OF assms(1-5)] join_test.combine_one [OF assms(1-3,6)]
    equal_test.combine [OF assms(1-5)] equal_test.combine_one [OF assms(1-3,6)]
    diff_test.combine [OF assms(1-5)] diff_test.combine_one [OF assms(1-3,6)]
  unfolding bset_ops by (simp_all add: bitmap_op_defs)

end
