(* ===== verification/Bitmap_Shift.thy ===== *)
theory Bitmap_Shift
  imports Bitmap_Ops
begin

text \<open>
  Complement, filling and copying; the shifts of a bitmap; population counts.
\<close>

section \<open>Complement, filling, copying\<close>

lemma written_snoc:
  "d + n < length m \<Longrightarrow> (written m d n g)[d + n := v] = written m d (Suc n) (\<lambda>i. if i = n then v else g i)"
  by (rule nth_equalityI) (auto simp: nth_list_update)

lemma const_words:
  assumes "d + n \<le> length m"
  shows "map_words (\<lambda>_ _. Some c) m d 0 n = Some (written m d n (\<lambda>_. c))"
  using map_words_eq [of d 0 n m "\<lambda>_ _. Some c" "\<lambda>_. c"] assms by simp

lemma bitmap_complement_spec:
  assumes "holds m dst n" "holds m src n" "below dst src n" "0 < n"
  shows "\<exists>m'. bitmap_complement m dst src n = Some m' \<and> stores m dst n ({..<n} - bset m src n) m'"
proof (cases "n \<le> 64")
  case True
  let ?v = "NOT (m ! src) AND BITMAP_LAST_WORD_MASK n"
  have l: "dst < length m" "src < length m" using assms holds_small by blast+
  have e: "written m dst (BITS_TO_LONGS n) (\<lambda>_. ?v) = m[dst := ?v]"
    using one_word_longs [OF assms(4) True] l by (intro nth_equalityI) (auto simp: nth_list_update)
  have "j < n mod 64" if "j < n" "n mod 64 \<noteq> 0" for j using that True by (cases "n = 64") auto
  then have "stores m dst n ({..<n} - bset m src n) (m[dst := ?v])"
    unfolding e [symmetric] using assms(1) by (intro written_stores) (use True in \<open>auto simp: mem_bset bit_and_iff bit_not_iff bit_last_word_mask\<close>)
  then show ?thesis using True l by (simp add: bitmap_complement_def)
next
  case False
  let ?L = "n div 64" and ?g = "\<lambda>k. NOT (m ! (src + k))"
  let ?m1 = "written m dst ?L ?g" and ?v = "NOT (m ! (src + ?L)) AND BITMAP_LAST_WORD_MASK n"
  have "map_words (\<lambda>m k. do { x \<leftarrow> array_get m (src + k); Some (NOT x) }) m dst 0 ?L = Some (written m (dst + 0) ?L (\<lambda>i. ?g (0 + i)))"
  proof (rule map_words_eq)
    fix j m' assume "0 \<le> j" "j < 0 + ?L" "length m' = length m" "\<And>i. i < length m \<Longrightarrow> i < dst + 0 \<or> dst + j \<le> i \<Longrightarrow> m' ! i = m ! i"
    then show "do { x \<leftarrow> array_get m' (src + j); Some (NOT x) } = Some (?g j)"
      using read_word [OF assms(2,3), of j m'] lim_le(1) [of n] by simp
  qed (use assms(1) lim_le(1) [of n] in \<open>simp add: holds_def\<close>)
  then have r: "map_words (\<lambda>m k. do { x \<leftarrow> array_get m (src + k); Some (NOT x) }) m dst 0 ?L = Some ?m1" by simp
  show ?thesis
  proof (cases "n mod 64 = 0")
    case True
    have "stores m dst n ({..<n} - bset m src n) (written m dst (BITS_TO_LONGS n) ?g)"
      using assms(1) by (rule written_stores) (auto simp: mem_bset bit_not_iff)
    then show ?thesis using False True r by (simp add: bitmap_complement_def bitmap_complement_words_def BITS_TO_LONGS_eq Let_def)
  next
    case nz: False
    then have L: "BITS_TO_LONGS n = Suc ?L" by (simp add: BITS_TO_LONGS_eq)
    then have l: "dst + ?L < length m" "src + ?L < length m" using assms(1,2) by (simp_all add: holds_def)
    have "?m1 ! (src + ?L) = m ! (src + ?L)" using l assms(3) L by (auto simp: below_def)
    then have res: "bitmap_complement m dst src n = Some (?m1[dst + ?L := ?v])"
      using False nz r l by (simp add: bitmap_complement_def bitmap_complement_words_def Let_def)
    have "stores m dst n ({..<n} - bset m src n) (written m dst (BITS_TO_LONGS n) (\<lambda>i. if i = ?L then ?v else ?g i))"
    proof (rule written_stores [OF assms(1)])
      fix i assume "i < n"
      then show "bit (if i div 64 = ?L then ?v else ?g (i div 64)) (i mod 64) \<longleftrightarrow> i \<in> {..<n} - bset m src n"
        using below_cases [of i n] by (auto simp: mem_bset bit_and_iff bit_not_iff bit_last_word_mask)
    qed auto
    then show ?thesis using res written_snoc [OF l(1)] L by simp
  qed
qed

lemma bitmap_zero_spec:
  assumes "holds m dst n" "0 < n"
  shows "\<exists>m'. bitmap_zero m dst n = Some m' \<and> stores m dst n {} m'"
proof -
  let ?m = "written m dst (BITS_TO_LONGS n) (\<lambda>_. 0)"
  have "stores m dst n {} ?m" using assms(1) by (rule written_stores) auto
  moreover have "bitmap_zero m dst n = Some ?m"
  proof (cases "n \<le> 64")
    case True
    have "?m = m[dst := 0]"
      using one_word_longs [OF assms(2) True] by (intro nth_equalityI) (auto simp: nth_list_update)
    then show ?thesis using True holds_small [OF assms] by (simp add: bitmap_zero_def)
  next
    case False
    then show ?thesis using const_words [of dst "BITS_TO_LONGS n" m 0] assms(1) by (simp add: bitmap_zero_def holds_def)
  qed
  ultimately show ?thesis by blast
qed

lemma bitmap_fill_spec:
  assumes "holds m dst n" "0 < n"
  shows "\<exists>m'. bitmap_fill m dst n = Some m' \<and> stores m dst n {..<n} m'"
proof -
  obtain k where k: "BITS_TO_LONGS n = Suc k" using lim_le(3) [OF assms(2)] by (cases "BITS_TO_LONGS n") auto
  have l: "dst + k < length m" using assms(1) k by (simp add: holds_def)
  let ?m = "written m dst (Suc k) (\<lambda>i. if i = k then BITMAP_LAST_WORD_MASK n else - 1)"
  have "(if Suc k > 1 then map_words (\<lambda>_ _. Some (- 1)) m dst 0 k else Some m) = Some (written m dst k (\<lambda>_. - 1))"
    using const_words [of dst k m "- 1"] l by (cases k) auto
  then have "bitmap_fill m dst n = Some ?m"
    using l written_snoc [OF l, of "\<lambda>_. - 1" "BITMAP_LAST_WORD_MASK n"] by (cases "k = 0") (simp_all add: bitmap_fill_def k)
  moreover have "stores m dst n {..<n} (written m dst (BITS_TO_LONGS n) (\<lambda>i. if i = k then BITMAP_LAST_WORD_MASK n else - 1))"
  proof (rule written_stores [OF assms(1)])
    fix i assume i: "i < n"
    have "i div 64 = k \<Longrightarrow> n mod 64 \<noteq> 0 \<Longrightarrow> i mod 64 < n mod 64" using below_cases [OF i] k by (simp add: BITS_TO_LONGS_eq)
    then show "bit (if i div 64 = k then BITMAP_LAST_WORD_MASK n else - 1) (i mod 64) \<longleftrightarrow> i \<in> {..<n}"
      using i by (simp add: bit_last_word_mask)
  qed simp
  ultimately show ?thesis using k by auto
qed

lemma bitmap_copy_spec:
  assumes "holds m dst n" "holds m src n" "below dst src n" "0 < n"
  shows "\<exists>m'. bitmap_copy m dst src n = Some m' \<and> stores m dst n (bset m src n) m'"
proof -
  let ?m = "written m dst (BITS_TO_LONGS n) (\<lambda>k. m ! (src + k))"
  have "stores m dst n (bset m src n) ?m" using assms(1) by (rule written_stores) (auto simp: mem_bset)
  moreover have "bitmap_copy m dst src n = Some ?m"
  proof (cases "n \<le> 64")
    case True
    have "?m = m[dst := m ! src]"
      using one_word_longs [OF assms(4) True] by (intro nth_equalityI) (auto simp: nth_list_update)
    then show ?thesis using True assms holds_small by (simp add: bitmap_copy_def)
  next
    case False
    have "map_words (\<lambda>m k. array_get m (src + k)) m dst 0 (BITS_TO_LONGS n) =
      Some (written m (dst + 0) (BITS_TO_LONGS n) (\<lambda>i. m ! (src + (0 + i))))"
      by (rule map_words_eq) (use assms(1) read_word [OF assms(2,3)] in \<open>auto simp: holds_def\<close>)
    then show ?thesis using False by (simp add: bitmap_copy_def)
  qed
  ultimately show ?thesis by blast
qed

section \<open>Shifts\<close>

text \<open>The last word of a bitmap, under the mask of its used bits.\<close>

lemma bit_used:
  assumes "k < BITS_TO_LONGS n" "j < 64" "c \<longleftrightarrow> n mod 64 \<noteq> 0 \<and> k = BITS_TO_LONGS n - 1"
  shows "bit (if c then w AND (push_bit (n mod 64) 1 - 1) else (w :: ulong)) j \<longleftrightarrow> 64 * k + j < n \<and> bit w j"
  using assms in_word(3) [OF assms(2), of k n]
  by (cases "n mod 64 = 0") (auto simp: BITS_TO_LONGS_eq bit_and_iff bit_low_mask)

lemma shift_right_word_bits:
  assumes m: "holds m src n" and k: "s div 64 + k < BITS_TO_LONGS n"
  shows "\<exists>w. shift_right_word src s n m k = Some w \<and>
    (\<forall>j < 64. 64 * k + j < n \<longrightarrow> bit w j = (64 * k + j + s \<in> bset m src n))"
proof -
  let ?L = "BITS_TO_LONGS n" and ?off = "s div 64" and ?rem = "s mod 64"
  have s: "s = 64 * ?off + ?rem" "?rem < 64" by simp_all
  define u where "u = (if ?rem = 0 \<or> ?off + k + 1 \<ge> ?L then 0
    else if ?off + k + 1 = ?L - 1 \<and> n mod 64 \<noteq> 0 then m ! (src + ?off + k + 1) AND (push_bit (n mod 64) 1 - 1)
    else m ! (src + ?off + k + 1))"
  define l where "l = (if n mod 64 \<noteq> 0 \<and> ?off + k = ?L - 1 then m ! (src + ?off + k) AND (push_bit (n mod 64) 1 - 1)
    else m ! (src + ?off + k))"
  define w where "w = push_bit (64 - ?rem) u OR drop_bit ?rem l"
  have get: "array_get m (src + ?off + k) = Some (m ! (src + ?off + k))"
    "?off + k + 1 < ?L \<Longrightarrow> array_get m (src + ?off + k + 1) = Some (m ! (src + ?off + k + 1))"
    using m k by (auto simp: holds_def)
  have res: "shift_right_word src s n m k = Some (if n mod 64 \<noteq> 0 \<and> k = ?L - 1 then w AND (push_bit (n mod 64) 1 - 1) else w)"
  proof -
    have "(if ?rem = 0 \<or> ?off + k + 1 \<ge> ?L then Some 0 else do {
        u \<leftarrow> array_get m (src + ?off + k + 1);
        Some (if ?off + k + 1 = ?L - 1 \<and> n mod 64 \<noteq> 0 then u AND (push_bit (n mod 64) 1 - 1) else u) }) = Some u"
      using get(2) by (simp add: u_def)
    then show ?thesis
      by (simp only: shift_right_word_def Let_def get(1) bind.bind_lunit l_def [symmetric] w_def [symmetric])
  qed
  have ub: "bit u b \<longleftrightarrow> ?rem \<noteq> 0 \<and> 64 * (?off + k + 1) + b < n \<and> bit (m ! (src + (?off + k + 1))) b" if "b < 64" for b
  proof (cases "?rem = 0 \<or> ?off + k + 1 \<ge> ?L")
    case True
    have "\<not> 64 * (?off + k + 1) + b < n" if "?off + k + 1 \<ge> ?L"
      using that in_word(1) [OF \<open>b < 64\<close>, of "?off + k + 1"] lim_le(3) [of "64 * (?off + k + 1) + b" n] by linarith
    then show ?thesis using True by (auto simp: u_def)
  next
    case False
    have "bit u b \<longleftrightarrow> 64 * (?off + k + 1) + b < n \<and> bit (m ! (src + ?off + k + 1)) b"
      unfolding u_def if_not_P [OF False] by (rule bit_used) (use False that in auto)
    then show ?thesis using False by (simp add: add.assoc)
  qed
  have lb: "bit l b \<longleftrightarrow> 64 * (?off + k) + b < n \<and> bit (m ! (src + (?off + k))) b" if "b < 64" for b
    unfolding l_def add.assoc [symmetric, of src] by (rule bit_used [OF k that refl])
  have wb: "bit w j = (64 * k + j + s \<in> bset m src n)" if j: "j < 64" for j
  proof (cases "j + ?rem < 64")
    case True
    have e: "64 * k + j + s = 64 * (?off + k) + (j + ?rem)" using s by (simp add: algebra_simps)
    have "bit w j \<longleftrightarrow> bit l (j + ?rem)"
      using True j by (auto simp: w_def bit_or_iff bit_push_bit_iff bit_drop_bit_eq add.commute)
    also have "\<dots> \<longleftrightarrow> 64 * k + j + s \<in> bset m src n"
      unfolding mem_bset e in_word(1,2) [OF True] using lb [OF True] by simp
    finally show ?thesis .
  next
    case False
    let ?b = "j + ?rem - 64"
    have b: "?b < 64" "?rem \<noteq> 0" "64 - ?rem \<le> j" "j - (64 - ?rem) = ?b" using False j s(2) by auto
    have e: "64 * k + j + s = 64 * (?off + k + 1) + ?b" using s False by (simp add: algebra_simps)
    have "bit w j \<longleftrightarrow> bit u ?b"
      using False j b bit_lt [of l "j + ?rem"] by (auto simp: w_def bit_or_iff bit_push_bit_iff bit_drop_bit_eq add.commute)
    also have "\<dots> \<longleftrightarrow> 64 * k + j + s \<in> bset m src n"
      unfolding mem_bset e in_word(1,2) [OF b(1)] using ub [OF b(1)] b(2) by simp
    finally show ?thesis .
  qed
  have "k < ?L" using k by simp
  then have "bit (if n mod 64 \<noteq> 0 \<and> k = ?L - 1 then w AND (push_bit (n mod 64) 1 - 1) else w) j = (64 * k + j + s \<in> bset m src n)"
    if "j < 64" "64 * k + j < n" for j
    using bit_used [of k n j "n mod 64 \<noteq> 0 \<and> k = ?L - 1" w] wb that by simp
  then show ?thesis using res by blast
qed

lemma lim_bounds: "n \<le> 64 * BITS_TO_LONGS n" "k < BITS_TO_LONGS n \<Longrightarrow> 64 * k < n"
proof -
  show "n \<le> 64 * BITS_TO_LONGS n"
    by (rule split64 [of n]) (simp add: BITS_TO_LONGS_eq)
  show "64 * k < n" if "k < BITS_TO_LONGS n"
    using in_word(3) [of 0 k n] that by (auto simp: BITS_TO_LONGS_eq split: if_splits)
qed

lemma shift_right_word_cong:
  assumes "\<And>i. s div 64 + k \<le> i \<Longrightarrow> i < BITS_TO_LONGS n \<Longrightarrow> array_get m' (src + i) = array_get m (src + i)"
    and "s div 64 + k < BITS_TO_LONGS n"
  shows "shift_right_word src s n m' k = shift_right_word src s n m k"
  using assms(1) [of "s div 64 + k"] assms(1) [of "s div 64 + k + 1"] assms(2)
  by (simp add: shift_right_word_def Let_def add.assoc)

lemma bitmap_shift_right_words_spec:
  assumes "holds m dst n" "holds m src n" "below dst src n" and off: "s div 64 \<le> BITS_TO_LONGS n"
  shows "\<exists>m'. bitmap_shift_right_words m dst src s n = Some m' \<and> stores m dst n {i. i + s \<in> bset m src n} m'"
proof -
  let ?L = "BITS_TO_LONGS n" and ?off = "s div 64"
  define g where "g k = the (shift_right_word src s n m k)" for k
  have w: "shift_right_word src s n m k = Some (g k)"
    "\<And>j. j < 64 \<Longrightarrow> 64 * k + j < n \<Longrightarrow> bit (g k) j = (64 * k + j + s \<in> bset m src n)" if "k < ?L - ?off" for k
  proof -
    from that have "?off + k < ?L" by simp
    from shift_right_word_bits [OF assms(2) this] show "shift_right_word src s n m k = Some (g k)"
      "\<And>j. j < 64 \<Longrightarrow> 64 * k + j < n \<Longrightarrow> bit (g k) j = (64 * k + j + s \<in> bset m src n)"
      by (auto simp: g_def)
  qed
  let ?m1 = "written m dst (?L - ?off) g"
  have "map_words (shift_right_word src s n) m dst 0 (?L - ?off) = Some (written m (dst + 0) (?L - ?off) (\<lambda>i. g (0 + i)))"
  proof (rule map_words_eq)
    fix j m' assume j: "0 \<le> j" "j < 0 + (?L - ?off)" "length m' = length m"
      "\<And>i. i < length m \<Longrightarrow> i < dst + 0 \<or> dst + j \<le> i \<Longrightarrow> m' ! i = m ! i"
    have "shift_right_word src s n m' j = shift_right_word src s n m j"
    proof (rule shift_right_word_cong)
      fix i assume i: "?off + j \<le> i" "i < ?L"
      then have "src + i < length m" "m' ! (src + i) = m ! (src + i)"
        using assms(2,3) j(4) [of "src + i"] by (auto simp: holds_def below_def)
      then show "array_get m' (src + i) = array_get m (src + i)" using j(3) by simp
    qed (use j(2) in simp)
    then show "shift_right_word src s n m' j = Some (g j)" using w(1) j(2) by simp
  qed (use assms(1) in \<open>simp add: holds_def\<close>)
  then have r: "map_words (shift_right_word src s n) m dst 0 (?L - ?off) = Some ?m1" by simp
  let ?m = "written m dst ?L (\<lambda>k. if k < ?L - ?off then g k else 0)"
  have "bitmap_shift_right_words m dst src s n = Some ?m"
  proof (cases "?off = 0")
    case True
    then have "?m = ?m1" by (intro nth_equalityI) auto
    then show ?thesis using True r by (simp add: bitmap_shift_right_words_def)
  next
    case False
    have "map_words (\<lambda>_ _. Some 0) ?m1 (dst + ?L - ?off) 0 ?off = Some (written ?m1 (dst + ?L - ?off) ?off (\<lambda>_. 0))"
      by (rule const_words) (use assms(1) off in \<open>simp add: holds_def\<close>)
    moreover have "written ?m1 (dst + ?L - ?off) ?off (\<lambda>_. 0) = ?m" by (rule nth_equalityI) (use off in auto)
    moreover have "\<not> dst + ?L < ?off" using off by simp
    ultimately show ?thesis using False r by (simp add: bitmap_shift_right_words_def Let_def)
  qed
  moreover have "stores m dst n {i. i + s \<in> bset m src n} ?m"
  proof (rule written_stores [OF assms(1)])
    fix i assume i: "i < n"
    show "bit (if i div 64 < ?L - ?off then g (i div 64) else 0) (i mod 64) \<longleftrightarrow> i \<in> {i. i + s \<in> bset m src n}"
    proof (cases "i div 64 < ?L - ?off")
      case True
      then show ?thesis using w(2) [OF True, of "i mod 64"] i by simp
    next
      case False
      have "64 * (i div 64) \<le> i" "64 * ?off \<le> s" by simp_all
      moreover have "64 * ?L \<le> 64 * (i div 64) + 64 * ?off" using False by simp
      ultimately have "n \<le> i + s" using lim_bounds(1) [of n] by linarith
      then show ?thesis using False by (simp add: mem_bset)
    qed
  qed (auto simp: mem_bset)
  ultimately show ?thesis by blast
qed

end
