(* ===== verification/Bitmap_Regions.thy ===== *)
theory Bitmap_Regions
  imports Bitmap_Shift
begin

text \<open>
  The left shift of a bitmap, and the allocation of aligned regions in a bitmap.
\<close>

section \<open>Left shift\<close>

lemma shift_index:
  assumes "s = 64 * a + (r :: nat)"
  shows "r \<le> j \<Longrightarrow> s \<le> 64 * (k + a) + j" "r \<le> j \<Longrightarrow> 64 * (k + a) + j - s = 64 * k + (j - r)"
    "j < r \<Longrightarrow> r < 64 \<Longrightarrow> k = Suc k' \<Longrightarrow> s \<le> 64 * (k + a) + j"
    "j < r \<Longrightarrow> r < 64 \<Longrightarrow> k = Suc k' \<Longrightarrow> 64 * (k + a) + j - s = 64 * k' + (64 - r + j)"
    "j < r \<Longrightarrow> \<not> s \<le> 64 * a + j"
  using assms by auto

lemma shift_left_word_bits:
  assumes m: "holds m src n" and k: "k + s div 64 < BITS_TO_LONGS n"
  shows "\<exists>w. shift_left_word src s n m k = Some w \<and>
    (\<forall>j < 64. 64 * (k + s div 64) + j < n \<longrightarrow>
       bit w j = (s \<le> 64 * (k + s div 64) + j \<and> 64 * (k + s div 64) + j - s \<in> bset m src n))"
proof -
  let ?L = "BITS_TO_LONGS n" and ?off = "s div 64" and ?rem = "s mod 64"
  have s: "s = 64 * ?off + ?rem" "?rem < 64" by simp_all
  have kL: "k < ?L" using k by simp
  define l where "l = (if ?rem \<noteq> 0 \<and> k > 0 then m ! (src + k - 1) else 0)"
  define u where "u = (if n mod 64 \<noteq> 0 \<and> k = ?L - 1 then m ! (src + k) AND (push_bit (n mod 64) 1 - 1) else m ! (src + k))"
  define w where "w = drop_bit (64 - ?rem) l OR push_bit ?rem u"
  have get: "array_get m (src + k) = Some (m ! (src + k))" "k > 0 \<Longrightarrow> array_get m (src + k - 1) = Some (m ! (src + k - 1))"
    using m kL by (auto simp: holds_def)
  have res: "shift_left_word src s n m k = Some (if n mod 64 \<noteq> 0 \<and> k + ?off = ?L - 1 then w AND (push_bit (n mod 64) 1 - 1) else w)"
  proof -
    have "(if ?rem \<noteq> 0 \<and> k > 0 then array_get m (src + k - 1) else Some 0) = Some l" using get(2) by (simp add: l_def)
    then show ?thesis
      by (simp only: shift_left_word_def Let_def get(1) bind.bind_lunit u_def [symmetric] w_def [symmetric])
  qed
  have ub: "bit u b \<longleftrightarrow> 64 * k + b < n \<and> bit (m ! (src + k)) b" if "b < 64" for b
    unfolding u_def by (rule bit_used [OF kL that refl])
  have wb: "bit w j = (s \<le> 64 * (k + ?off) + j \<and> 64 * (k + ?off) + j - s \<in> bset m src n)" if j: "j < 64" for j
  proof (cases "?rem \<le> j")
    case True
    have b: "j - ?rem < 64" using j by simp
    have e: "s \<le> 64 * (k + ?off) + j" "64 * (k + ?off) + j - s = 64 * k + (j - ?rem)"
      using shift_index(1,2) [OF s(1) True, of k] by auto
    have "bit w j \<longleftrightarrow> bit u (j - ?rem)"
      using True j bit_lt [of l "64 - ?rem + j"] by (auto simp: w_def bit_or_iff bit_push_bit_iff bit_drop_bit_eq)
    also have "\<dots> \<longleftrightarrow> s \<le> 64 * (k + ?off) + j \<and> 64 * (k + ?off) + j - s \<in> bset m src n"
      unfolding mem_bset e(2) in_word(1,2) [OF b] using ub [OF b] e(1) by simp
    finally show ?thesis .
  next
    case False
    have wl: "bit w j \<longleftrightarrow> bit l (64 - ?rem + j)"
      using False j by (auto simp: w_def bit_or_iff bit_push_bit_iff bit_drop_bit_eq)
    show ?thesis
    proof (cases k)
      case 0
      then have "\<not> s \<le> 64 * (k + ?off) + j" using shift_index(5) [OF s(1), of j] False by simp
      then show ?thesis using wl 0 by (simp add: l_def)
    next
      case (Suc k')
      let ?b = "64 - ?rem + j"
      have b: "?b < 64" using False s(2) by simp
      have e: "s \<le> 64 * (k + ?off) + j" "64 * (k + ?off) + j - s = 64 * k' + ?b"
        using shift_index(3,4) [OF s(1), of j k k'] False Suc s(2) by auto
      have "64 * k' + ?b < n" using lim_bounds(2) [OF kL] Suc b by linarith
      then show ?thesis using wl e Suc False unfolding mem_bset e(2) in_word(1,2) [OF b] by (simp add: l_def)
    qed
  qed
  have "bit (if n mod 64 \<noteq> 0 \<and> k + ?off = ?L - 1 then w AND (push_bit (n mod 64) 1 - 1) else w) j =
      (s \<le> 64 * (k + ?off) + j \<and> 64 * (k + ?off) + j - s \<in> bset m src n)"
    if "j < 64" "64 * (k + ?off) + j < n" for j
    using bit_used [OF k that(1) refl, of w] wb [OF that(1)] that(2) by blast
  then show ?thesis using res by blast
qed

text \<open>The destination does not overlap the operand from below.\<close>

definition over :: "nat \<Rightarrow> nat \<Rightarrow> nat \<Rightarrow> bool" where
  "over dst src n \<longleftrightarrow> src \<le> dst \<or> dst + BITS_TO_LONGS n \<le> src"

lemma over_refl [simp]: "over d d n"
  by (simp add: over_def)

lemma bitmap_shift_left_words_spec:
  assumes "holds m dst n" "holds m src n" "over dst src n" and off: "s div 64 \<le> BITS_TO_LONGS n"
  shows "\<exists>m'. bitmap_shift_left_words m dst src s n = Some m' \<and>
    stores m dst n {i. i < n \<and> s \<le> i \<and> i - s \<in> bset m src n} m'"
proof -
  let ?L = "BITS_TO_LONGS n" and ?off = "s div 64"
  define g where "g k = the (shift_left_word src s n m k)" for k
  have w: "shift_left_word src s n m k = Some (g k)"
    "\<And>j. j < 64 \<Longrightarrow> 64 * (k + ?off) + j < n \<Longrightarrow>
      bit (g k) j = (s \<le> 64 * (k + ?off) + j \<and> 64 * (k + ?off) + j - s \<in> bset m src n)" if "k < ?L - ?off" for k
  proof -
    from that have "k + ?off < ?L" by simp
    from shift_left_word_bits [OF assms(2) this] show "shift_left_word src s n m k = Some (g k)"
      "\<And>j. j < 64 \<Longrightarrow> 64 * (k + ?off) + j < n \<Longrightarrow>
        bit (g k) j = (s \<le> 64 * (k + ?off) + j \<and> 64 * (k + ?off) + j - s \<in> bset m src n)"
      by (auto simp: g_def)
  qed
  let ?m1 = "written m (dst + ?off) (?L - ?off) g"
  have r: "map_words_down (shift_left_word src s n) m (dst + ?off) (?L - ?off) = Some ?m1"
  proof (rule map_words_down_eq)
    fix j m' assume j: "j < ?L - ?off" "length m' = length m"
      "\<And>i. i < length m \<Longrightarrow> i \<le> dst + ?off + j \<or> dst + ?off + (?L - ?off) \<le> i \<Longrightarrow> m' ! i = m ! i"
    have "array_get m' (src + i) = array_get m (src + i)" if "i \<le> j" for i
    proof -
      have "src + i < length m" using that j(1) assms(2) by (simp add: holds_def)
      moreover from this have "m' ! (src + i) = m ! (src + i)" using that j(1) assms(3) off by (intro j(3)) (auto simp: over_def)
      ultimately show ?thesis using j(2) by simp
    qed
    from this [of j] this [of "j - 1"] have "shift_left_word src s n m' j = shift_left_word src s n m j"
      by (cases "j = 0") (simp_all add: shift_left_word_def Let_def)
    then show "shift_left_word src s n m' j = Some (g j)" using w(1) j(1) by simp
  qed (use assms(1) off in \<open>simp add: holds_def\<close>)
  let ?m = "written m dst ?L (\<lambda>k. if k < ?off then 0 else g (k - ?off))"
  have "bitmap_shift_left_words m dst src s n = Some ?m"
  proof (cases "?off = 0")
    case True
    then show ?thesis using r by (simp add: bitmap_shift_left_words_def)
  next
    case False
    have "map_words (\<lambda>_ _. Some 0) ?m1 dst 0 ?off = Some (written ?m1 dst ?off (\<lambda>_. 0))"
      by (rule const_words) (use assms(1) off in \<open>simp add: holds_def\<close>)
    moreover have "written ?m1 dst ?off (\<lambda>_. 0) = ?m" by (rule nth_equalityI) (use off in auto)
    ultimately show ?thesis using False r by (simp add: bitmap_shift_left_words_def Let_def)
  qed
  moreover have "stores m dst n {i. i < n \<and> s \<le> i \<and> i - s \<in> bset m src n} ?m"
  proof (rule written_stores [OF assms(1)])
    fix i assume i: "i < n"
    show "bit (if i div 64 < ?off then 0 else g (i div 64 - ?off)) (i mod 64) \<longleftrightarrow> i \<in> {i. i < n \<and> s \<le> i \<and> i - s \<in> bset m src n}"
    proof (cases "i div 64 < ?off")
      case True
      then have "i < s" by (metis div_le_mono leD leI)
      then show ?thesis using True by simp
    next
      case False
      then have k: "i div 64 - ?off < ?L - ?off" "i div 64 - ?off + ?off = i div 64" using lim_le(3) [OF i] by auto
      show ?thesis using w(2) [OF k(1), of "i mod 64"] False i unfolding k(2) by simp
    qed
  qed auto
  ultimately show ?thesis by blast
qed

section \<open>Regions\<close>

text \<open>An aligned region of \<open>2 ^ order\<close> bits lies within one word.\<close>

lemma bit_region_mask:
  assumes "0 < p" "p \<le> 64"
  shows "bit (region_mask p) j \<longleftrightarrow> j < p"
proof -
  obtain q where q: "p = Suc q" using assms(1) by (cases p) auto
  have "region_mask p = 2 ^ p - 1" by (simp add: region_mask_def q Let_def)
  then show ?thesis using bit_low_mask [of p j] assms(2) by auto
qed

lemma aligned_in_word:
  fixes pos :: nat
  assumes "pos mod 2 ^ order = 0" "2 ^ order \<le> (64 :: nat)"
  shows "pos mod 64 + 2 ^ order \<le> 64"
proof -
  have "(2 :: nat) ^ order \<le> 2 ^ 6" using assms(2) by simp
  then have "order \<le> 6" by (rule power_le_imp_le_exp [rotated]) simp
  then have d: "2 ^ order dvd (64 :: nat)" using le_imp_power_dvd [of order 6 "2 :: nat"] by simp
  then have "2 ^ order dvd pos mod 64" using assms(1) by (meson dvd_mod dvd_mod_iff mod_0_imp_dvd)
  then obtain a where a: "pos mod 64 = 2 ^ order * a" by blast
  obtain b :: nat where b: "64 = 2 ^ order * b" using d by blast
  have "2 ^ order * a < 2 ^ order * b" using a b mod_less_divisor [of 64 pos] by simp
  then have "a + 1 \<le> b" by simp
  then have "2 ^ order * (a + 1) \<le> 2 ^ order * b" by (rule mult_le_mono2)
  then show ?thesis using a b by simp
qed

definition region :: "nat \<Rightarrow> nat \<Rightarrow> nat set" where
  "region pos order = {pos..<pos + 2 ^ order}"

text \<open>All bits in the words of a bitmap of \<open>n\<close> bits.\<close>

abbreviation wset :: "wmem \<Rightarrow> nat \<Rightarrow> nat \<Rightarrow> nat set" where
  "wset m p n \<equiv> bset m p (64 * BITS_TO_LONGS n)"

lemma region_bit:
  assumes "pos mod 2 ^ order = 0" "2 ^ order \<le> (64 :: nat)" "j < 64"
  shows "bit (push_bit (pos - pos div 64 * 64) (region_mask (2 ^ order))) j \<longleftrightarrow> 64 * (pos div 64) + j \<in> region pos order"
proof -
  have e: "pos - pos div 64 * 64 = pos mod 64" by (simp add: minus_div_mult_eq_mod)
  have p: "pos = 64 * (pos div 64) + pos mod 64" by simp
  have "64 * a + j \<in> region (64 * a + b) order \<longleftrightarrow> b \<le> j \<and> j < b + 2 ^ order" for a b by (auto simp: region_def)
  from this [of "pos div 64" "pos mod 64"] show ?thesis
    using assms aligned_in_word [OF assms(1,2)] bit_region_mask [of "2 ^ order" "j - pos mod 64"] unfolding e
    by (auto simp: bit_push_bit_iff)
qed

lemma region_same_word:
  assumes "pos mod 2 ^ order = 0" "2 ^ order \<le> (64 :: nat)" "i \<in> region pos order"
  shows "i div 64 = pos div 64"
proof (rule split64 [of pos])
  fix q r assume pos: "pos = 64 * q + r" "r < 64" "pos div 64 = q" "pos mod 64 = r"
  have "i < 64 * q + 64" "64 * q \<le> i" using assms(3) aligned_in_word [OF assms(1,2)] pos by (auto simp: region_def)
  then have "i div 64 = q" by (intro div_nat_eqI) auto
  then show ?thesis using pos(3) by simp
qed

lemma region_free:
  assumes "pos mod 2 ^ order = 0" "2 ^ order \<le> (64 :: nat)" "pos < n"
  shows "m ! (p + pos div 64) AND push_bit (pos - pos div 64 * 64) (region_mask (2 ^ order)) = 0 \<longleftrightarrow>
    region pos order \<inter> wset m p n = {}" (is "?l \<longleftrightarrow> ?r")
proof -
  have "?l \<longleftrightarrow> (\<forall>j < 64. bit (m ! (p + pos div 64)) j \<longrightarrow> 64 * (pos div 64) + j \<notin> region pos order)"
    using region_bit [OF assms(1,2)] by (auto simp: word_zero_iff bit_and_iff)
  also have "\<dots> \<longleftrightarrow> ?r"
  proof
    assume l: "\<forall>j < 64. bit (m ! (p + pos div 64)) j \<longrightarrow> 64 * (pos div 64) + j \<notin> region pos order"
    have False if i: "i \<in> region pos order" "i \<in> wset m p n" for i
    proof -
      have e: "i div 64 = pos div 64" by (rule region_same_word [OF assms(1,2) i(1)])
      have "64 * (pos div 64) + i mod 64 = i" unfolding e [symmetric] by simp
      then show False using l [rule_format, of "i mod 64"] i unfolding mem_bset e by simp
    qed
    then show ?r by blast
  next
    assume r: ?r
    show "\<forall>j < 64. bit (m ! (p + pos div 64)) j \<longrightarrow> 64 * (pos div 64) + j \<notin> region pos order"
    proof (intro allI impI notI)
      fix j assume j: "j < 64" "bit (m ! (p + pos div 64)) j" "64 * (pos div 64) + j \<in> region pos order"
      have "pos div 64 < BITS_TO_LONGS n" by (rule lim_le(3) [OF assms(3)])
      then have "64 * (pos div 64) + j < 64 * BITS_TO_LONGS n" using j(1) by linarith
      then have "64 * (pos div 64) + j \<in> wset m p n" using j in_word(1,2) [OF j(1), of "pos div 64"] by (simp add: mem_bset)
      then show False using r j(3) by blast
    qed
  qed
  finally show ?thesis .
qed

lemma region_update:
  assumes pos: "pos mod 2 ^ order = 0" "2 ^ order \<le> (64 :: nat)" "pos < n" and m: "holds m p n"
    and w: "\<And>j. j < 64 \<Longrightarrow> bit w j \<longleftrightarrow>
      f (bit (m ! (p + pos div 64)) j) (bit (push_bit (pos - pos div 64 * 64) (region_mask (2 ^ order))) j)"
    and f: "\<And>a. f a False = a"
  shows "i \<in> wset (m[p + pos div 64 := w]) p n \<longleftrightarrow> i < 64 * BITS_TO_LONGS n \<and> f (i \<in> wset m p n) (i \<in> region pos order)"
proof (cases "i div 64 = pos div 64")
  case True
  have "p + pos div 64 < length m" using m lim_le(3) [OF pos(3)] by (simp add: holds_def)
  moreover have "64 * (pos div 64) + i mod 64 = i" unfolding True [symmetric] by simp
  ultimately show ?thesis using w [of "i mod 64"] region_bit [OF pos(1,2), of "i mod 64"] unfolding mem_bset True by auto
next
  case False
  then have "i \<notin> region pos order" using region_same_word [OF pos(1,2)] by blast
  then show ?thesis using False f by (auto simp: mem_bset)
qed

text \<open>The place for a region: aligned, in the bitmap, and free.\<close>

definition free_at :: "wmem \<Rightarrow> nat \<Rightarrow> nat \<Rightarrow> nat \<Rightarrow> nat \<Rightarrow> bool" where
  "free_at m p n order pos \<longleftrightarrow> pos mod 2 ^ order = 0 \<and> pos < n \<and> region pos order \<inter> wset m p n = {}"

text \<open>
  The search looks at whole words, and at regions that only start in the bitmap.  When the number
  of bits is a multiple of the size of a region, these are the regions of the bitmap that
  have no bit set.
\<close>

definition free_region :: "wmem \<Rightarrow> nat \<Rightarrow> nat \<Rightarrow> nat \<Rightarrow> nat \<Rightarrow> bool" where
  "free_region m p n order pos \<longleftrightarrow>
     pos mod 2 ^ order = 0 \<and> region pos order \<subseteq> {..<n} \<and> region pos order \<inter> bset m p n = {}"

definition set_region :: "wmem \<Rightarrow> nat \<Rightarrow> nat \<Rightarrow> nat \<Rightarrow> wmem" where
  "set_region m p order pos = m[p + pos div 64 :=
     m ! (p + pos div 64) OR push_bit (pos - pos div 64 * 64) (region_mask (2 ^ order))]"

lemma aligned_next:
  assumes "i mod P = 0" "q mod P = 0" "i < q" "0 < (P :: nat)"
  shows "i + P \<le> q"
proof -
  have "P dvd q - i" using assms(1,2) by (simp add: mod_0_imp_dvd dvd_diff_nat)
  then have "P \<le> q - i" using assms(3) by (simp add: dvd_imp_le)
  then show ?thesis using assms(3) by simp
qed

lemma wset_bset: "wset m p n \<inter> {..<n} = bset m p n"
proof -
  have "n \<le> 64 * BITS_TO_LONGS n" by (simp add: BITS_TO_LONGS_def)
  then show ?thesis by (auto simp: mem_bset)
qed

lemma free_at_region:
  assumes "2 ^ order dvd n"
  shows "free_at m p n order pos \<longleftrightarrow> free_region m p n order pos"
proof -
  have "pos < n \<longleftrightarrow> region pos order \<subseteq> {..<n}" if "pos mod 2 ^ order = 0"
  proof
    assume "pos < n"
    then have "pos + 2 ^ order \<le> n" using aligned_next [of pos "2 ^ order" n] assms that by auto
    then show "region pos order \<subseteq> {..<n}" by (auto simp: region_def)
  next
    assume "region pos order \<subseteq> {..<n}"
    then show "pos < n" by (auto simp: region_def subset_iff)
  qed
  moreover have "region pos order \<inter> wset m p n = region pos order \<inter> bset m p n" if "region pos order \<subseteq> {..<n}"
    using that wset_bset [of m p n] by blast
  ultimately show ?thesis unfolding free_at_def free_region_def by metis
qed

lemma find_region_loop_spec:
  assumes "holds m p n" "2 ^ order \<le> (64 :: nat)" "i mod 2 ^ order = 0"
  shows "find_region_loop m p n order i = Some (m, - ENOMEM) \<and> (\<forall>q \<ge> i. \<not> free_at m p n order q) \<or>
    (\<exists>pos. find_region_loop m p n order i = Some (set_region m p order pos, int pos) \<and> i \<le> pos \<and>
       free_at m p n order pos \<and> (\<forall>q \<ge> i. free_at m p n order q \<longrightarrow> pos \<le> q))"
  using assms(3)
proof (induction "n - i" arbitrary: i rule: less_induct)
  case less
  show ?case
  proof (cases "i < n")
    case False
    then have "find_region_loop m p n order i = Some (m, - ENOMEM)" by (subst find_region_loop.simps) simp
    then show ?thesis using False by (auto simp: free_at_def)
  next
    case True
    let ?w = "m ! (p + i div 64)" and ?x = "push_bit (i - i div 64 * 64) (region_mask (2 ^ order))"
    have l: "p + i div 64 < length m" using assms(1) lim_le(3) [OF True] by (simp add: holds_def)
    note fr = region_free [OF less.prems assms(2) True, of m p]
    show ?thesis
    proof (cases "?w AND ?x = 0")
      case free: True
      then have "find_region_loop m p n order i = Some (set_region m p order i, int i)"
        using True l by (subst find_region_loop.simps) (simp add: Let_def set_region_def)
      then show ?thesis using free fr True less.prems by (auto simp: free_at_def)
    next
      case busy: False
      let ?i = "i + 2 ^ order"
      have st: "find_region_loop m p n order i = find_region_loop m p n order ?i"
        using busy True l by (subst find_region_loop.simps) (simp add: Let_def)
      have nx: "free_at m p n order q \<Longrightarrow> i \<le> q \<Longrightarrow> ?i \<le> q" for q
        using aligned_next [of i "2 ^ order" q] less.prems busy fr by (cases "q = i") (auto simp: free_at_def)
      have "n - ?i < n - i" using True by (simp add: diff_less_mono2)
      from less.hyps [OF this] less.prems have ih:
        "find_region_loop m p n order ?i = Some (m, - ENOMEM) \<and> (\<forall>q \<ge> ?i. \<not> free_at m p n order q) \<or>
         (\<exists>pos. find_region_loop m p n order ?i = Some (set_region m p order pos, int pos) \<and> ?i \<le> pos \<and>
           free_at m p n order pos \<and> (\<forall>q \<ge> ?i. free_at m p n order q \<longrightarrow> pos \<le> q))" by simp
      then show ?thesis
      proof
        assume "find_region_loop m p n order ?i = Some (m, - ENOMEM) \<and> (\<forall>q \<ge> ?i. \<not> free_at m p n order q)"
        then show ?thesis using st nx by metis
      next
        assume "\<exists>pos. find_region_loop m p n order ?i = Some (set_region m p order pos, int pos) \<and> ?i \<le> pos \<and>
           free_at m p n order pos \<and> (\<forall>q \<ge> ?i. free_at m p n order q \<longrightarrow> pos \<le> q)"
        then obtain pos where "find_region_loop m p n order ?i = Some (set_region m p order pos, int pos)" "?i \<le> pos"
          "free_at m p n order pos" "\<forall>q \<ge> ?i. free_at m p n order q \<longrightarrow> pos \<le> q" by blast
        then show ?thesis using st nx add_leD1 by metis
      qed
    qed
  qed
qed

lemma bset_bound: "i \<in> bset m p n \<Longrightarrow> i < n"
  by (simp add: mem_bset)

lemma set_region_wset:
  assumes "free_at m p n order pos" "2 ^ order \<le> (64 :: nat)" "holds m p n"
  shows "wset (set_region m p order pos) p n = wset m p n \<union> region pos order"
proof -
  have pos: "pos mod 2 ^ order = 0" "pos < n" using assms(1) by (simp_all add: free_at_def)
  have "i \<in> wset (set_region m p order pos) p n \<longleftrightarrow> i < 64 * BITS_TO_LONGS n \<and> (i \<in> wset m p n \<or> i \<in> region pos order)" for i
    unfolding set_region_def by (rule region_update [OF pos(1) assms(2) pos(2) assms(3)]) (auto simp: bit_or_iff)
  moreover have "i < 64 * BITS_TO_LONGS n" if "i \<in> region pos order" for i
  proof -
    have "i div 64 < BITS_TO_LONGS n" using region_same_word [OF pos(1) assms(2) that] lim_le(3) [OF pos(2)] by simp
    then show ?thesis by (simp add: div_less_iff_less_mult mult.commute)
  qed
  ultimately show ?thesis using bset_bound by blast
qed

lemma release_spec:
  assumes "pos mod 2 ^ order = 0" "2 ^ order \<le> (64 :: nat)" "pos < n" "holds m p n"
  shows "\<exists>m'. bitmap_release_region m p pos order = Some m' \<and> wset m' p n = wset m p n - region pos order"
proof -
  let ?x = "push_bit (pos - pos div 64 * 64) (region_mask (2 ^ order))"
  let ?m = "m[p + pos div 64 := m ! (p + pos div 64) AND NOT ?x]"
  have "p + pos div 64 < length m" using assms(4) lim_le(3) [OF assms(3)] by (simp add: holds_def)
  then have "bitmap_release_region m p pos order = Some ?m" using assms(2) by (simp add: bitmap_release_region_def Let_def)
  moreover have "i \<in> wset ?m p n \<longleftrightarrow> i < 64 * BITS_TO_LONGS n \<and> (i \<in> wset m p n \<and> i \<notin> region pos order)" for i
    by (rule region_update [OF assms]) (auto simp: bit_and_iff bit_not_iff)
  ultimately show ?thesis using bset_bound by blast
qed

lemma release_set_region:
  assumes "free_at m p n order pos" "2 ^ order \<le> (64 :: nat)" "holds m p n"
  shows "bitmap_release_region (set_region m p order pos) p pos order = Some m"
proof -
  let ?x = "push_bit (pos - pos div 64 * 64) (region_mask (2 ^ order))" and ?w = "m ! (p + pos div 64)"
  have pos: "pos mod 2 ^ order = 0" "pos < n" using assms(1) by (simp_all add: free_at_def)
  have l: "p + pos div 64 < length m" using assms(3) lim_le(3) [OF pos(2)] by (simp add: holds_def)
  have "?w AND ?x = 0" using region_free [OF pos(1) assms(2) pos(2), of m p] assms(1) by (simp add: free_at_def)
  then have "\<not> (bit ?w j \<and> bit ?x j)" for j by (metis bit_and_iff bit_0_eq bot_apply bot_bool_def)
  then have "(?w OR ?x) AND NOT ?x = ?w"
    by (intro bit_word_eqI) (auto simp: bit_and_iff bit_or_iff bit_not_iff)
  then show ?thesis using l assms(2) by (simp add: bitmap_release_region_def set_region_def Let_def)
qed

lemma allocate_spec:
  assumes "pos mod 2 ^ order = 0" "2 ^ order \<le> (64 :: nat)" "pos < n" "holds m p n"
  shows "bitmap_allocate_region m p pos order =
    Some (if free_at m p n order pos then (set_region m p order pos, 0) else (m, - EBUSY))"
proof -
  have "p + pos div 64 < length m" using assms(4) lim_le(3) [OF assms(3)] by (simp add: holds_def)
  then show ?thesis
    using assms region_free [OF assms(1-3), of m p] by (simp add: bitmap_allocate_region_def set_region_def free_at_def Let_def)
qed

end
