(* ===== verification/Bit_Search.thy ===== *)
theory Bit_Search
  imports Bitmap_Facts
begin

text \<open>
  The bit searches and the population count of \<^verbatim>\<open>bitops.h\<close> against their definitions by single bits.
\<close>

section \<open>First and last bit\<close>

definition is_lsb :: "32 word \<Rightarrow> nat \<Rightarrow> bool" where
  "is_lsb x i \<longleftrightarrow> bit x i \<and> (\<forall>j < i. \<not> bit x j)"

definition is_msb :: "32 word \<Rightarrow> nat \<Rightarrow> bool" where
  "is_msb x i \<longleftrightarrow> bit x i \<and> (\<forall>j > i. \<not> bit x j)"

lemma bit32_lt: "bit (x :: 32 word) i \<Longrightarrow> i < 32"
  using bit_imp_le_length [of x i] by simp

lemma lsb_exists:
  assumes "x \<noteq> 0"
  obtains i where "is_lsb x i"
proof -
  obtain k where k: "bit x k" using assms by (auto simp: bit_eq_iff)
  show thesis by (rule that [of "LEAST i. bit x i"])
    (unfold is_lsb_def, use LeastI [of "bit x", OF k] not_less_Least in blast)
qed

lemma msb_exists:
  assumes "x \<noteq> 0"
  obtains i where "is_msb x i"
proof -
  obtain k where k: "bit x k" using assms by (auto simp: bit_eq_iff)
  show thesis by (rule that [of "GREATEST i. bit x i"])
    (unfold is_msb_def, use GreatestI_nat [of "bit x", OF k] Greatest_le_nat [of "bit x"] bit32_lt [of x]
      in \<open>metis less_imp_le linorder_not_less\<close>)
qed

lemma msb_unique: "is_msb x i \<Longrightarrow> is_msb x j \<Longrightarrow> i = j"
  unfolding is_msb_def by (metis linorder_neqE_nat)

lemma zero32_iff: "x = (0 :: 32 word) \<longleftrightarrow> (\<forall>i < 32. \<not> bit x i)"
  by (auto simp: bit_eq_iff dest: bit32_lt)

text \<open>One halving of the search: the bit sought lies in the lower \<open>k\<close> bits afterwards.\<close>

lemma ffs_step_lsb:
  assumes "is_lsb x i" "i < 2 * k" "k \<le> 16"
  obtains x' i' where "ffs_step k (x, r) = (x', r + int i - int i')" "is_lsb x' i'" "i' < k"
proof (cases "x AND mask k = 0")
  case True
  have "\<not> bit x j" if "j < k" for j
  proof
    assume "bit x j"
    then have "bit (x AND mask k) j" using that assms(3) by (simp add: bit_and_iff bit_mask_iff)
    then show False using True by simp
  qed
  then have ki: "k \<le> i" using assms(1) by (meson is_lsb_def leI)
  have "bit (signed_drop_bit k x) j \<longleftrightarrow> bit x (k + j)" if "k + j < 32" for j
    using that by (auto simp: bit_signed_drop_bit_iff add.commute)
  moreover have "i < 32" using assms(1) bit32_lt by (auto simp: is_lsb_def)
  ultimately have "is_lsb (signed_drop_bit k x) (i - k)" using assms(1) ki by (auto simp: is_lsb_def)
  moreover have "ffs_step k (x, r) = (signed_drop_bit k x, r + int i - int (i - k))" using True ki by (simp add: ffs_step_def)
  ultimately show thesis using that assms(2) ki by fastforce
next
  case False
  then obtain j where "bit (x AND mask k) j" by (auto simp: zero32_iff)
  then have j: "bit x j" "j < k" by (auto simp: bit_and_iff bit_mask_iff)
  then have "\<not> j < i" using assms(1) by (auto simp: is_lsb_def)
  then have "i < k" using j(2) by simp
  moreover have "ffs_step k (x, r) = (x, r + int i - int i)" using False by (simp add: ffs_step_def)
  ultimately show thesis using that assms(1) by blast
qed

lemma generic_ffs_lsb:
  assumes "is_lsb x i"
  shows "generic_ffs x = int i + 1"
proof -
  have x: "x \<noteq> 0" "i < 2 * 16" using assms bit32_lt by (auto simp: is_lsb_def)
  obtain x1 i1 where 1: "ffs_step 16 (x, 1) = (x1, 1 + int i - int i1)" "is_lsb x1 i1" "i1 < 2 * 8"
    using ffs_step_lsb [OF assms x(2), of 1] by auto
  obtain x2 i2 where 2: "ffs_step 8 (x1, 1 + int i - int i1) = (x2, 1 + int i - int i1 + int i1 - int i2)" "is_lsb x2 i2" "i2 < 2 * 4"
    using ffs_step_lsb [OF 1(2,3), of "1 + int i - int i1"] by auto
  obtain x3 i3 where 3: "ffs_step 4 (x2, 1 + int i - int i2) = (x3, 1 + int i - int i2 + int i2 - int i3)" "is_lsb x3 i3" "i3 < 2 * 2"
    using ffs_step_lsb [OF 2(2,3), of "1 + int i - int i2"] by auto
  obtain x4 i4 where 4: "ffs_step 2 (x3, 1 + int i - int i3) = (x4, 1 + int i - int i3 + int i3 - int i4)" "is_lsb x4 i4" "i4 < 2 * 1"
    using ffs_step_lsb [OF 3(2,3), of "1 + int i - int i3"] by auto
  obtain x5 i5 where 5: "ffs_step 1 (x4, 1 + int i - int i4) = (x5, 1 + int i - int i4 + int i4 - int i5)" "is_lsb x5 i5" "i5 < 1"
    by (rule ffs_step_lsb [OF 4(2,3) _ that]) simp
  show ?thesis using x(1) 1(1) 2(1) 3(1) 4(1) 5(1,3) by (simp add: generic_ffs_def)
qed

lemma fls_step_msb:
  assumes "is_msb x i" "32 - 2 * k \<le> i" "k \<le> 16" "0 < k"
  obtains x' i' where "fls_step k (x, r) = (x', r + int i - int i')" "is_msb x' i'" "32 - k \<le> i'"
proof (cases "x AND push_bit (32 - k) (mask k) = 0")
  case True
  have b: "bit (push_bit (32 - k) (mask k) :: 32 word) j \<longleftrightarrow> 32 - k \<le> j \<and> j < 32" for j
    using assms(3,4) by (auto simp: bit_push_bit_iff bit_mask_iff)
  have i: "i < 32 - k"
  proof (rule ccontr)
    assume "\<not> i < 32 - k"
    then have "bit (x AND push_bit (32 - k) (mask k)) i" using assms(1) bit32_lt [of x i] b by (auto simp: is_msb_def bit_and_iff)
    then show False using True by simp
  qed
  have "bit (push_bit k x) j \<longleftrightarrow> k \<le> j \<and> j < 32 \<and> bit x (j - k)" for j by (auto simp: bit_push_bit_iff)
  then have "is_msb (push_bit k x) (i + k)" using assms(1) i by (auto simp: is_msb_def)
  moreover have "fls_step k (x, r) = (push_bit k x, r + int i - int (i + k))" using True by (simp add: fls_step_def)
  moreover have "32 - k \<le> i + k" using assms(2) by simp
  ultimately show thesis using that by blast
next
  case False
  then obtain j where "bit (x AND push_bit (32 - k) (mask k)) j" by (auto simp: zero32_iff)
  then have j: "bit x j" "32 - k \<le> j" by (auto simp: bit_and_iff bit_push_bit_iff)
  then have "\<not> i < j" using assms(1) by (auto simp: is_msb_def)
  then have "32 - k \<le> i" using j(2) by simp
  moreover have "fls_step k (x, r) = (x, r + int i - int i)" using False by (simp add: fls_step_def)
  ultimately show thesis using that assms(1) by blast
qed

lemma generic_fls_msb:
  assumes "is_msb x i"
  shows "generic_fls x = int i + 1"
proof -
  have x: "x \<noteq> 0" "32 - 2 * 16 \<le> i" using assms by (auto simp: is_msb_def)
  obtain x1 i1 where 1: "fls_step 16 (x, 32) = (x1, 32 + int i - int i1)" "is_msb x1 i1" "32 - 2 * 8 \<le> i1"
    using fls_step_msb [OF assms x(2), of 32] by auto
  obtain x2 i2 where 2: "fls_step 8 (x1, 32 + int i - int i1) = (x2, 32 + int i - int i1 + int i1 - int i2)" "is_msb x2 i2" "32 - 2 * 4 \<le> i2"
    using fls_step_msb [OF 1(2,3), of "32 + int i - int i1"] by auto
  obtain x3 i3 where 3: "fls_step 4 (x2, 32 + int i - int i2) = (x3, 32 + int i - int i2 + int i2 - int i3)" "is_msb x3 i3" "32 - 2 * 2 \<le> i3"
    using fls_step_msb [OF 2(2,3), of "32 + int i - int i2"] by auto
  obtain x4 i4 where 4: "fls_step 2 (x3, 32 + int i - int i3) = (x4, 32 + int i - int i3 + int i3 - int i4)" "is_msb x4 i4" "32 - 2 * 1 \<le> i4"
    using fls_step_msb [OF 3(2,3), of "32 + int i - int i3"] by auto
  obtain x5 i5 where 5: "fls_step 1 (x4, 32 + int i - int i4) = (x5, 32 + int i - int i4 + int i4 - int i5)" "is_msb x5 i5" "32 - 1 \<le> i5"
    by (rule fls_step_msb [OF 4(2,3), of "32 + int i - int i4", OF _ _ that]) simp_all
  have "i5 = 31" using 5(2,3) bit32_lt [of x5 i5] by (simp add: is_msb_def)
  then show ?thesis using x(1) 1(1) 2(1) 3(1) 4(1) 5(1) by (simp add: generic_fls_def)
qed

section \<open>Population count\<close>

text \<open>Field \<open>i\<close> of a number cut into fields of \<open>K\<close> bits.\<close>

definition fld :: "nat \<Rightarrow> nat \<Rightarrow> nat \<Rightarrow> nat" where
  "fld K A i = A div 2 ^ (K * i) mod 2 ^ K"

lemma fields_no_carry:
  assumes "\<And>j. j < i \<Longrightarrow> fld K A j + fld K B j < 2 ^ K"
  shows "A mod 2 ^ (K * i) + B mod 2 ^ (K * i) < 2 ^ (K * i)"
  using assms
proof (induction i)
  case (Suc i)
  let ?D = "2 ^ (K * i) :: nat"
  have p: "(2 :: nat) ^ (K * Suc i) = ?D * 2 ^ K" by (simp add: power_add)
  have e: "X mod 2 ^ (K * Suc i) = ?D * fld K X i + X mod ?D" for X
    unfolding p mod_mult2_eq fld_def by (rule refl)
  have "fld K A i + fld K B i \<le> 2 ^ K - 1" using Suc.prems [of i] by simp
  then have "?D * (fld K A i + fld K B i) \<le> ?D * (2 ^ K - 1)" by (rule mult_le_mono2)
  moreover have "?D * (2 ^ K - 1) + ?D = 2 ^ (K * Suc i)"
    unfolding p by (simp add: right_diff_distrib')
  moreover have "A mod ?D + B mod ?D < ?D" using Suc by simp
  ultimately show ?case unfolding e by (simp add: distrib_left)
qed simp

lemma fld_add:
  assumes "\<And>j. j \<le> i \<Longrightarrow> fld K A j + fld K B j < 2 ^ K"
  shows "fld K (A + B) i = fld K A i + fld K B i"
proof -
  let ?D = "2 ^ (K * i) :: nat"
  have "A mod ?D + B mod ?D < ?D" by (rule fields_no_carry) (use assms in simp)
  then have "(A + B) div ?D = A div ?D + B div ?D" using div_add1_eq [of A B ?D] by simp
  then have "fld K (A + B) i = (fld K A i + fld K B i) mod 2 ^ K" by (simp add: fld_def mod_add_eq)
  then show ?thesis using assms [of i] by simp
qed

lemma bit_fld: "bit (fld K (unat (w :: ulong)) i) n \<longleftrightarrow> n < K \<and> bit w (K * i + n)"
  by (auto simp: fld_def take_bit_eq_mod [symmetric] drop_bit_eq_div [symmetric] bit_take_bit_iff bit_drop_bit_eq bit_unsigned_iff dest: bit_lt)

lemma sum_pairs: "(\<Sum>i < 2 * m. f i) = (\<Sum>i < m. f (2 * i) + f (2 * i + 1))" for f :: "nat \<Rightarrow> nat"
  by (induction m) simp_all

text \<open>One step adds neighbouring fields.\<close>

lemma hweight_step_sum:
  assumes msk: "\<And>j. j < 64 \<Longrightarrow> bit msk j \<longleftrightarrow> j mod (2 * k) < k" and k: "0 < k" "2 * k * m = 64"
  shows "(\<Sum>i < m. fld (2 * k) (unat (hweight_step msk k w)) i) = (\<Sum>i < 2 * m. fld k (unat w) i)"
proof -
  let ?a = "w AND msk" and ?b = "drop_bit k w AND msk"
  have md: "(2 * k * i + n) mod (2 * k) = n" if "n < 2 * k" for i n using that by simp
  have a: "fld (2 * k) (unat ?a) i = fld k (unat w) (2 * i)" for i
  proof (rule bit_eqI)
    fix n show "bit (fld (2 * k) (unat ?a) i) n = bit (fld k (unat w) (2 * i)) n"
      using msk [of "2 * k * i + n"] md [of n i] bit_lt [of w "2 * k * i + n"] by (auto simp: bit_fld bit_and_iff mult.assoc mult.left_commute)
  qed
  have b: "fld (2 * k) (unat ?b) i = fld k (unat w) (2 * i + 1)" for i
  proof (rule bit_eqI)
    fix n show "bit (fld (2 * k) (unat ?b) i) n = bit (fld k (unat w) (2 * i + 1)) n"
      using msk [of "2 * k * i + n"] md [of n i] bit_lt [of w "k + (2 * k * i + n)"]
      by (auto simp: bit_fld bit_and_iff bit_drop_bit_eq algebra_simps)
  qed
  have lt: "fld (2 * k) (unat ?a) j + fld (2 * k) (unat ?b) j < 2 ^ (2 * k)" for j
  proof -
    have "fld k (unat w) (2 * j) < 2 ^ k" "fld k (unat w) (2 * j + 1) < 2 ^ k" by (simp_all add: fld_def)
    then have "fld k (unat w) (2 * j) + fld k (unat w) (2 * j + 1) < 2 * 2 ^ k" by linarith
    also have "2 * 2 ^ k \<le> (2 :: nat) ^ (2 * k)" using k(1) by (simp add: power_Suc [symmetric] del: power_Suc)
    finally show ?thesis unfolding a b .
  qed
  have "unat ?a mod 2 ^ (2 * k * m) + unat ?b mod 2 ^ (2 * k * m) < 2 ^ (2 * k * m)" by (rule fields_no_carry) (rule lt)
  moreover have "unat x mod 2 ^ 64 = unat x" for x :: ulong 
  proof (rule mod_less)
    have "unat x < 2 ^ LENGTH(64)" by (rule unsigned_less)
    then show "unat x < 2 ^ 64" by simp
  qed
  ultimately have "unat ?a + unat ?b < 2 ^ 64" unfolding k(2) by metis
  then have "unat (hweight_step msk k w) = unat ?a + unat ?b" by (simp add: hweight_step_def unat_word_ariths)
  then have "fld (2 * k) (unat (hweight_step msk k w)) i = fld k (unat w) (2 * i) + fld k (unat w) (2 * i + 1)" for i
    using fld_add [of i "2 * k" "unat ?a" "unat ?b"] lt by (simp add: a b)
  then show ?thesis by (simp add: sum_pairs)
qed

lemma fld_one: "fld 1 (unat (w :: ulong)) i = of_bool (bit w i)"
  using bit_fld [of 1 w i 0] by (auto simp: fld_def bit_0 odd_iff_mod_2_eq_one)

lemma hweight_masks:
  "\<forall>j < 64. bit (0x5555555555555555 :: ulong) j \<longleftrightarrow> j mod 2 < 1"
  "\<forall>j < 64. bit (0x3333333333333333 :: ulong) j \<longleftrightarrow> j mod 4 < 2"
  "\<forall>j < 64. bit (0x0F0F0F0F0F0F0F0F :: ulong) j \<longleftrightarrow> j mod 8 < 4"
  "\<forall>j < 64. bit (0x00FF00FF00FF00FF :: ulong) j \<longleftrightarrow> j mod 16 < 8"
  "\<forall>j < 64. bit (0x0000FFFF0000FFFF :: ulong) j \<longleftrightarrow> j mod 32 < 16"
  "\<forall>j < 64. bit (0x00000000FFFFFFFF :: ulong) j \<longleftrightarrow> j mod 64 < 32"
  by code_simp+

lemma generic_hweight64_count: "unat (generic_hweight64 w) = card {i. bit w i}"
proof -
  define a where "a = hweight_step 0x5555555555555555 1 w"
  define b where "b = hweight_step 0x3333333333333333 2 a"
  define c where "c = hweight_step 0x0F0F0F0F0F0F0F0F 4 b"
  define d where "d = hweight_step 0x00FF00FF00FF00FF 8 c"
  define e where "e = hweight_step 0x0000FFFF0000FFFF 16 d"
  define f where "f = hweight_step 0x00000000FFFFFFFF 32 e"
  note m = hweight_masks [rule_format]
  have "(\<Sum>i < 64. fld 1 (unat w) i) = (\<Sum>i < 32. fld 2 (unat a) i)"
    using hweight_step_sum [of "0x5555555555555555" 1 32 w] m(1) by (simp add: a_def)
  also have "\<dots> = (\<Sum>i < 16. fld 4 (unat b) i)"
    using hweight_step_sum [of "0x3333333333333333" 2 16 a] m(2) by (simp add: b_def)
  also have "\<dots> = (\<Sum>i < 8. fld 8 (unat c) i)"
    using hweight_step_sum [of "0x0F0F0F0F0F0F0F0F" 4 8 b] m(3) by (simp add: c_def)
  also have "\<dots> = (\<Sum>i < 4. fld 16 (unat d) i)"
    using hweight_step_sum [of "0x00FF00FF00FF00FF" 8 4 c] m(4) by (simp add: d_def)
  also have "\<dots> = (\<Sum>i < 2. fld 32 (unat e) i)"
    using hweight_step_sum [of "0x0000FFFF0000FFFF" 16 2 d] m(5) by (simp add: e_def)
  also have "\<dots> = (\<Sum>i < 1. fld 64 (unat f) i)"
    using hweight_step_sum [of "0x00000000FFFFFFFF" 32 1 e] m(6) by (simp add: f_def)
  also have "\<dots> = unat f"
  proof -
    have "unat f < 2 ^ LENGTH(64)" by (rule unsigned_less)
    then show ?thesis by (simp add: fld_def)
  qed
  finally have "unat f = (\<Sum>i < 64. of_bool (bit w i))" unfolding fld_one by simp
  also have "\<dots> = card {i \<in> {..<64}. bit w i}" by (simp add: sum.inter_filter [symmetric] of_bool_def)
  also have "{i \<in> {..<64}. bit w i} = {i. bit w i}" using bit_lt by blast
  finally show ?thesis by (simp add: generic_hweight64_def a_def b_def c_def d_def e_def f_def)
qed

section \<open>The number of bits in a bitmap\<close>

lemma finite_bset: "finite (bset m p n)"
  by (simp add: bset_def)

lemma bset_extend:
  assumes "r \<le> 64"
  shows "bset m p (64 * k + r) = bset m p (64 * k) \<union> (\<lambda>j. 64 * k + j) ` {j. j < r \<and> bit (m ! (p + k)) j}" (is "?l = ?r")
proof (intro set_eqI iffI)
  fix i assume i: "i \<in> ?l"
  show "i \<in> ?r"
  proof (cases "i < 64 * k")
    case False
    then obtain j where j: "i = 64 * k + j" using le_Suc_ex [of "64 * k" i] by auto
    then have "j < r" "j < 64" using i assms by (simp_all add: mem_bset)
    then show ?thesis using i in_word(1,2) [of j k] unfolding j mem_bset by simp
  qed (use i in \<open>simp add: mem_bset\<close>)
next
  fix i assume "i \<in> ?r"
  then show "i \<in> ?l"
  proof
    assume "i \<in> (\<lambda>j. 64 * k + j) ` {j. j < r \<and> bit (m ! (p + k)) j}"
    then obtain j where j: "i = 64 * k + j" "j < r" "bit (m ! (p + k)) j" by blast
    then show ?thesis using in_word(1,2) [of j k] assms unfolding mem_bset j(1) by simp
  qed (auto simp: mem_bset)
qed

lemma card_bset_extend:
  assumes "r \<le> 64"
  shows "card (bset m p (64 * k + r)) = card (bset m p (64 * k)) + card {j. j < r \<and> bit (m ! (p + k)) j}"
proof -
  have "bset m p (64 * k) \<inter> (\<lambda>j. 64 * k + j) ` {j. j < r \<and> bit (m ! (p + k)) j} = {}" by (auto simp: mem_bset)
  then show ?thesis unfolding bset_extend [OF assms] by (subst card_Un_disjoint) (simp_all add: finite_bset card_image)
qed

lemma weight_loop_eq:
  assumes "p + k + n \<le> length m" "w = card (bset m p (64 * k))"
  shows "weight_loop m p k n w = Some (card (bset m p (64 * (k + n))))"
  using assms
proof (induction n arbitrary: k w)
  case (Suc n)
  have "{j. j < 64 \<and> bit (m ! (p + k)) j} = {j. bit (m ! (p + k)) j}" using bit_lt by blast
  then have "card (bset m p (64 * (k + 1))) = w + unat (generic_hweight64 (m ! (p + k)))"
    using card_bset_extend [of 64 m p k] Suc.prems(2) by (simp add: generic_hweight64_count add.commute)
  then show ?case using Suc.IH [of "k + 1" "w + unat (generic_hweight64 (m ! (p + k)))"] Suc.prems(1) by simp
qed simp

lemma bitmap_weight_eq:
  assumes "holds m p n"
  shows "bitmap_weight m p n = Some (card (bset m p n))"
proof -
  have n: "64 * (n div 64) + n mod 64 = n" "n mod 64 \<le> 64" by simp_all
  have "weight_loop m p 0 (n div 64) 0 = Some (card (bset m p (64 * (0 + n div 64))))"
    by (rule weight_loop_eq) (use assms lim_le(1) [of n] in \<open>simp_all add: holds_def bset_def\<close>)
  moreover have "unat (generic_hweight64 (m ! (p + n div 64) AND BITMAP_LAST_WORD_MASK n)) =
      card {j. j < n mod 64 \<and> bit (m ! (p + n div 64)) j}" if "n mod 64 \<noteq> 0"
  proof -
    have "{j. bit (m ! (p + n div 64) AND BITMAP_LAST_WORD_MASK n) j} = {j. j < n mod 64 \<and> bit (m ! (p + n div 64)) j}"
      using that bit_lt by (auto simp: bit_and_iff bit_last_word_mask)
    then show ?thesis by (simp add: generic_hweight64_count)
  qed
  ultimately show ?thesis using card_bset_extend [OF n(2), of m p "n div 64"] get_word [OF assms, of "n div 64"] unfolding n(1)
    by (cases "n mod 64 = 0") (simp_all add: bitmap_weight_def Let_def)
qed

section \<open>The length of a number\<close>

lemma bit_length_eq: "2 ^ k \<le> n \<Longrightarrow> n < 2 ^ (k + 1) \<Longrightarrow> bit_length n = k + 1"
proof (induction k arbitrary: n)
  case 0
  then have "n = 1" by simp
  then show ?case by (simp add: bit_length.simps)
next
  case (Suc k)
  then have "bit_length (n div 2) = k + 1" by (intro Suc.IH) auto
  moreover have "n \<noteq> 0" using Suc.prems(1) by (metis le_zero_eq power_not_zero zero_neq_numeral)
  ultimately show ?case by (subst bit_length.simps) simp
qed

lemma fls_eq: "2 ^ k \<le> unat x \<Longrightarrow> unat x < 2 ^ (k + 1) \<Longrightarrow> fls x = int k + 1"
  by (auto simp: fls_def bit_length_eq)

lemma fls_zero: "fls 0 = 0"
  by (simp add: fls_def)

lemma top_bit:
  assumes "2 ^ k \<le> n" "n < (2 :: nat) ^ (k + 1)"
  shows "bit n k"
proof -
  have "n div 2 ^ k = 1" using assms by (intro div_nat_eqI) auto
  then show ?thesis by (simp add: bit_iff_odd)
qed

lemma high_half: "(ucast (drop_bit 32 x :: ulong) :: 32 word) \<noteq> 0 \<longleftrightarrow> 2 ^ 32 \<le> unat x"
proof -
  have x: "unat x < 2 ^ LENGTH(64)" by (rule unsigned_less)
  then have d: "unat x div 2 ^ 32 < 2 ^ 32" by (simp add: less_mult_imp_div_less)
  have "unat (drop_bit 32 x) = unat x div 2 ^ 32" by (simp add: drop_bit_eq_div unat_div)
  then have "unat (ucast (drop_bit 32 x) :: 32 word) = unat x div 2 ^ 32"
    using d by (simp only: unsigned_ucast_eq) (simp add: take_bit_nat_eq_self)
  then have "(ucast (drop_bit 32 x :: ulong) :: 32 word) = 0 \<longleftrightarrow> unat x div 2 ^ 32 = 0"
    by (metis unsigned_0 unsigned_word_eqI)
  then show ?thesis by (simp add: div_eq_0_iff not_less)
qed

text \<open>\<^verbatim>\<open>get_count_order\<close> is the logarithm rounded up.\<close>

lemma and_pred_zero:
  assumes "2 ^ k \<le> unat c" "unat (c :: 32 word) < 2 ^ (k + 1)"
  shows "c AND (c - 1) = 0 \<longleftrightarrow> unat c = 2 ^ k"
proof -
  have "(0 :: nat) < 2 ^ k" by simp
  then have "0 < unat c" using assms(1) by linarith
  then have u: "unat (c - 1) = unat c - 1" by (metis less_numeral_extra(3) unat_minus_one unsigned_0)
  have n: "unat (c AND (c - 1)) = unat c AND (unat c - 1)" by (simp add: unsigned_and_eq u)
  show ?thesis
  proof (cases "unat c = 2 ^ k")
    case True
    have "unat c AND (unat c - 1) = take_bit k (2 ^ k)" unfolding True by (simp add: take_bit_eq_mask mask_eq_exp_minus_1)
    also have "\<dots> = 0" by simp
    finally have "unat (c AND (c - 1)) = 0" using n by simp
    then show ?thesis using True by (simp add: unsigned_eq_0_iff)
  next
    case False
    then have "bit (unat c - 1) k" "bit (unat c) k" using assms by (auto intro!: top_bit)
    then have "bit (unat c AND (unat c - 1)) k" by (simp add: bit_and_iff)
    then have "unat (c AND (c - 1)) \<noteq> 0" unfolding n by (intro notI) simp
    then show ?thesis using False by auto
  qed
qed

lemma get_count_order_eq:
  assumes "2 ^ k \<le> unat c" "unat c < 2 ^ (k + 1)"
  shows "get_count_order c = (if unat c = 2 ^ k then int k else int k + 1)"
proof -
  have "unat c < 2 ^ LENGTH(32)" by (rule unsigned_less)
  then have "unat (ucast c :: ulong) = unat c" by (simp add: unsigned_ucast_eq take_bit_nat_eq_self)
  then have "fls (ucast c) = int k + 1" using assms by (intro fls_eq) simp_all
  then show ?thesis using and_pred_zero [OF assms] by (simp add: get_count_order_def)
qed

end
