(* ===== verification/Bitmap_Theorems.thy ===== *)
theory Bitmap_Theorems
  imports Bitmap_Regions Bit_Search
begin

text \<open>
  The properties of the bitmap functions of \<^verbatim>\<open>common/bitmap.c\<close> and
  \<^verbatim>\<open>xen/bitmap.h\<close> and of the bit searches of \<^verbatim>\<open>xen/bitops.h\<close>.
  \<^const>\<open>bset\<close> is the set a bitmap stands for and \<^const>\<open>stores\<close> says that a call leaves
  the bitmap of a given set at its destination and every word outside it unchanged.
\<close>

section \<open>Predicates and operations\<close>

text \<open>
  C32: the five bitmap predicates decide the relation of the sets that their arguments stand for, whatever the
  bits beyond the size of the bitmap hold, and in the one-word case of the header as well as in the loops of
  \<^verbatim>\<open>bitmap.c\<close>.
\<close>
theorem bitmap_predicates_decide:
  assumes "holds m p n" "holds m q n" "0 < n"
  shows "bitmap_empty m p n = Some (bset m p n = {}) \<and> bitmap_full m p n = Some (bset m p n = {..<n}) \<and>
    bitmap_equal m p q n = Some (bset m p n = bset m q n) \<and> bitmap_subset m p q n = Some (bset m p n \<subseteq> bset m q n) \<and>
    bitmap_intersects m p q n = Some (bset m p n \<inter> bset m q n \<noteq> {})"
  using bitmap_empty_eq [OF assms(1,3)] bitmap_full_eq [OF assms(1,3)] bitmap_equal_eq [OF assms]
    bitmap_subset_eq [OF assms] bitmap_intersects_eq [OF assms] by simp

theorem bitmap_predicates_decide_witness:
  "bitmap_equal [5, 8, 5, 24] 0 2 68 = Some (bset [5, 8, 5, 24] 0 68 = bset [5, 8, 5, 24] 2 68) \<and>
   bitmap_equal [5, 8, 5, 24] 0 2 68 = Some True \<and> bitmap_equal [5, 8, 5, 24] 0 2 69 = Some False"
proof -
  have "holds [5, 8, 5, 24] 0 68" "holds [5, 8, 5, 24] 2 68" "(0 :: nat) < 68" by (simp_all add: holds_def BITS_TO_LONGS_def)
  note bitmap_predicates_decide [OF this]
  moreover have "bitmap_equal [5, 8, 5, 24] 0 2 68 = Some True" "bitmap_equal [5, 8, 5, 24] 0 2 69 = Some False" by code_simp+
  ultimately show ?thesis by simp
qed

text \<open>
  C29: the operations write the set operation of their arguments at the destination, also when the destination
  is one of the arguments, and change no word outside the destination.
\<close>
theorem bitmap_operations_store:
  assumes "holds m dst n" "holds m a n" "holds m b n" "below dst a n" "below dst b n" "0 < n"
  shows "(\<exists>m'. bitmap_and m dst a b n = Some m' \<and> stores m dst n (bset m a n \<inter> bset m b n) m') \<and>
    (\<exists>m'. bitmap_or m dst a b n = Some m' \<and> stores m dst n (bset m a n \<union> bset m b n) m') \<and>
    (\<exists>m'. bitmap_xor m dst a b n = Some m' \<and> stores m dst n ((bset m a n - bset m b n) \<union> (bset m b n - bset m a n)) m') \<and>
    (\<exists>m'. bitmap_andnot m dst a b n = Some m' \<and> stores m dst n (bset m a n - bset m b n) m') \<and>
    (\<exists>m'. bitmap_complement m dst a n = Some m' \<and> stores m dst n ({..<n} - bset m a n) m') \<and>
    (\<exists>m'. bitmap_copy m dst a n = Some m' \<and> stores m dst n (bset m a n) m') \<and>
    (\<exists>m'. bitmap_zero m dst n = Some m' \<and> stores m dst n {} m') \<and>
    (\<exists>m'. bitmap_fill m dst n = Some m' \<and> stores m dst n {..<n} m')"
  using bitmap_ops_spec [OF assms] bitmap_complement_spec [OF assms(1,2,4,6)] bitmap_copy_spec [OF assms(1,2,4,6)]
    bitmap_zero_spec [OF assms(1,6)] bitmap_fill_spec [OF assms(1,6)] by simp

theorem bitmap_operations_store_witness:
  "bitmap_xor [6, 1, 3, 3] 0 0 2 70 = Some [5, 2, 3, 3] \<and>
   (\<exists>m'. bitmap_xor [6, 1, 3, 3] 0 0 2 70 = Some m' \<and> length m' = 4 \<and> m' ! 3 = 3)"
proof -
  have "holds [6, 1, 3, 3] 0 70" "holds [6, 1, 3, 3] 0 70" "holds [6, 1, 3, 3] 2 70"
    "below 0 0 70" "below 0 2 70" "(0 :: nat) < 70" by (simp_all add: holds_def below_def BITS_TO_LONGS_def)
  note bitmap_operations_store [OF this]
  moreover have "bitmap_xor [6, 1, 3, 3] 0 0 2 70 = Some [5, 2, 3, 3]" by code_simp
  ultimately show ?thesis by simp
qed

section \<open>Shifts\<close>

text \<open>
  C33: shifting a bitmap of more than one word moves every element of the set by the distance and drops those that
  leave the bitmap; the destination may be the source. The distance must be less than a word longer than the
  bitmap: the code does not check this, and beyond it clears memory outside the destination.
\<close>
theorem bitmap_shifts_move:
  assumes "holds m dst n" "holds m src n" "64 < n" "s div 64 \<le> BITS_TO_LONGS n"
  shows "(below dst src n \<longrightarrow> (\<exists>m'. bitmap_shift_right m dst src s n = Some m' \<and>
      stores m dst n {i. i + s \<in> bset m src n} m')) \<and>
    (over dst src n \<longrightarrow> (\<exists>m'. bitmap_shift_left m dst src s n = Some m' \<and>
      stores m dst n {i. i < n \<and> s \<le> i \<and> i - s \<in> bset m src n} m'))"
  using bitmap_shift_right_words_spec [OF assms(1,2) _ assms(4)] bitmap_shift_left_words_spec [OF assms(1,2) _ assms(4)] assms(3)
  by (simp add: bitmap_shift_right_def bitmap_shift_left_def)

theorem bitmap_shifts_move_witness:
  "(\<exists>m'. bitmap_shift_left [1, 4] 0 0 66 70 = Some m' \<and> stores [1, 4] 0 70 {i. i < 70 \<and> 66 \<le> i \<and> i - 66 \<in> bset [1, 4] 0 70} m') \<and>
   bitmap_shift_left [1, 4] 0 0 66 70 = Some [0, 4]"
proof -
  have "holds [1, 4] 0 70" "holds [1, 4] 0 70" "(64 :: nat) < 70" "(66 :: nat) div 64 \<le> BITS_TO_LONGS 70"
    by (simp_all add: holds_def BITS_TO_LONGS_def)
  note bitmap_shifts_move [OF this]
  moreover have "over 0 0 70" by simp
  moreover have "bitmap_shift_left [1, 4] 0 0 66 70 = Some [0, 4]" by code_simp
  ultimately show ?thesis by blast
qed

section \<open>Regions\<close>



text \<open>
  Without the condition on the number of bits a region may end outside the bitmap, and the unused
  bits of the last word count: of two bitmaps with the same six bits, one has a
  region and the other has none.
\<close>

lemma find_region_unused_bits:
  "bitmap_find_free_region [0x0F] 0 6 2 = Some ([0xFF], 4)"
  "bitmap_find_free_region [0x8F] 0 6 2 = Some ([0x8F], - ENOMEM)"
  by code_simp+

section \<open>Counting and searching\<close>

text \<open>
  C35: the parallel summation of \<^verbatim>\<open>generic_hweight64\<close> counts the bits of a word,
  \<^verbatim>\<open>bitmap_weight\<close> gives the number of elements of a bitmap, and the bisections
  \<^verbatim>\<open>generic_ffs\<close> and \<^verbatim>\<open>generic_fls\<close> find the lowest and the highest
  bit (counted from 1) of every non-zero word.
\<close>
theorem bit_counts_and_searches:
  assumes "holds m p n" "x \<noteq> 0"
  shows "unat (generic_hweight64 w) = card {i. bit w i} \<and> bitmap_weight m p n = Some (card (bset m p n)) \<and>
    (\<exists>i. generic_ffs x = int i + 1 \<and> bit x i \<and> (\<forall>j < i. \<not> bit x j)) \<and>
    (\<exists>i. generic_fls x = int i + 1 \<and> bit x i \<and> (\<forall>j > i. \<not> bit x j))"
proof -
  obtain i j where "is_lsb x i" "is_msb x j" using lsb_exists msb_exists assms(2) by metis
  moreover from this have "generic_ffs x = int i + 1" "generic_fls x = int j + 1"
    by (simp_all add: generic_ffs_lsb generic_fls_msb)
  ultimately show ?thesis
    using bitmap_weight_eq [OF assms(1)] generic_hweight64_count [of w] unfolding is_lsb_def is_msb_def by blast
qed

theorem bit_counts_and_searches_witness:
  "bitmap_weight [0xFF, 0xFF] 0 70 = Some 14 \<and> card (bset [0xFF, 0xFF] 0 70) = 14 \<and>
   generic_ffs 0x50 = 5 \<and> generic_fls 0x50 = 7 \<and> (\<exists>i. generic_ffs 0x50 = int i + 1 \<and> bit (0x50 :: 32 word) i)"
proof -
  have "holds [0xFF, 0xFF] 0 70" "(0x50 :: 32 word) \<noteq> 0" by (simp_all add: holds_def BITS_TO_LONGS_def)
  note bit_counts_and_searches [OF this]
  moreover have "bitmap_weight [0xFF, 0xFF] 0 70 = Some 14" "generic_ffs 0x50 = 5" "generic_fls 0x50 = 7" by code_simp+
  ultimately show ?thesis by (metis option.inject)
qed

section \<open>Two deviations\<close>

text \<open>
  C39: \<^verbatim>\<open>fls\<close> gives the number of binary digits of its argument and \<^verbatim>\<open>get_count_order\<close>
  the logarithm rounded up, but \<^verbatim>\<open>generic_fls64\<close> exceeds the number of digits by 32 for every argument
  with a bit in its upper half. The one-word case of \<^verbatim>\<open>bitmap_shift_right\<close> moves bits from beyond the
  size of the bitmap into it, although those bits are documented as irrelevant.
\<close>
theorem fls64_and_short_shift_deviate:
  assumes "2 ^ k \<le> unat x" "unat x < 2 ^ (k + 1)" "2 ^ j \<le> unat c" "unat c < 2 ^ (j + 1)"
    "src < length m" "dst < length m" "0 < n" "n \<le> 64" "s < 64"
  shows "fls x = int k + 1 \<and> generic_fls64 x = (if k < 32 then int k + 1 else int k + 33) \<and>
    get_count_order c = (if unat c = 2 ^ j then int j else int j + 1) \<and>
    (\<exists>m'. bitmap_shift_right m dst src s n = Some m' \<and>
       bset m' dst n = {i. i < n \<and> bit (m ! src) (i + s)})"
proof -
  have "(2 :: nat) ^ (k + 1) \<le> 2 ^ 32" if "k < 32" using that by (intro power_increasing) simp_all
  moreover have "(2 :: nat) ^ 32 \<le> 2 ^ k" if "\<not> k < 32" using that by (intro power_increasing) simp_all
  ultimately have "2 ^ 32 \<le> unat x \<longleftrightarrow> \<not> k < 32" using assms(1,2) by (meson le_trans linorder_not_less)
  then have "generic_fls64 x = (if k < 32 then int k + 1 else int k + 33)"
    using fls_eq [OF assms(1,2)] high_half [of x] by (simp add: generic_fls64_def Let_def)
  moreover have "bitmap_shift_right m dst src s n = Some (m[dst := drop_bit s (m ! src)])"
    using assms(5,6,8,9) by (simp add: bitmap_shift_right_def)
  moreover have "bset (m[dst := drop_bit s (m ! src)]) dst n = {i. i < n \<and> bit (m ! src) (i + s)}"
    using assms(6,8) by (auto simp: bset_def bit_drop_bit_eq add.commute)
  ultimately show ?thesis using fls_eq [OF assms(1,2)] get_count_order_eq [OF assms(3,4)] by blast
qed

theorem fls64_and_short_shift_deviate_witness:
  "fls 0x8000000001 = 40 \<and> generic_fls64 0x8000000001 = 72 \<and> get_count_order 5 = 3 \<and>
   bitmap_shift_right [0x100] 0 0 4 8 = Some [0x10] \<and> bset [0x100] 0 8 = {} \<and>
   (\<exists>m'. bitmap_shift_right [0x100] 0 0 4 8 = Some m' \<and> 4 \<in> bset m' 0 8)"
proof -
  note fls64_and_short_shift_deviate [of 39 "0x8000000001" 2 5 0 "[0x100]" 0 8 4]
  moreover have "bitmap_shift_right [0x100] 0 0 4 8 = Some [0x10]" "bit (0x100 :: 64 word) 8" by code_simp+
  moreover have "bset [0x100] 0 8 = {}"
  proof -
    have "bitmap_empty [0x100] 0 8 = Some True" by code_simp
    then show ?thesis using bitmap_empty_eq [of "[0x100]" 0 8] by (simp add: holds_def BITS_TO_LONGS_def)
  qed
  ultimately show ?thesis by simp
qed

end
