(* ===== verification/Vsprintf.thy ===== *)
theory Vsprintf
  imports String_Lib
begin

text \<open>
  The functions of \<^verbatim>\<open>xen/common/vsprintf.c\<close> that read numbers, from \<^verbatim>\<open>simple_strtoul\<close> to
  \<^verbatim>\<open>skip_atoi\<close>.  Memory is a list of bytes and a pointer an index, as for the string functions.
  Numbers are read as \<^verbatim>\<open>unsigned long\<close>, which is also \<^verbatim>\<open>unsigned long long\<close> on x86-64.  The boot allocator reads
  the option \<^verbatim>\<open>badpage=\<close> with them.
\<close>

unbundle bit_operations_syntax

section \<open>Reading numbers\<close>

definition isxdigit :: "byte \<Rightarrow> bool" where
  "isxdigit c \<longleftrightarrow> ismask c AND (ctD OR ctX) \<noteq> 0"

definition isspace :: "byte \<Rightarrow> bool" where
  "isspace c \<longleftrightarrow> ismask c AND ctS \<noteq> 0"

definition digit_value :: "byte \<Rightarrow> ulong" where
  "digit_value c = ucast (if isdigit c then c - 48 else toupper c - 65 + 10)"

definition digit_value_ll :: "byte \<Rightarrow> ulong" where
  "digit_value_ll c = ucast (if isdigit c then c - 48 else (if islower c then toupper c else c) - 65 + 10)"

text \<open>The prefix that selects the base, and the loop over the digits.\<close>

definition number_base :: "mem \<Rightarrow> nat \<Rightarrow> u32 \<Rightarrow> (nat \<times> u32) option" where
  "number_base m cp base =
     (if base = 0 then do {
        c \<leftarrow> array_get m cp;
        if c = 48 then do {
          x \<leftarrow> array_get m (cp + 1);
          if toupper x = 88 then do {
            y \<leftarrow> array_get m (cp + 2);
            if isxdigit y then Some (cp + 2, 16) else Some (cp + 1, 8)
          } else Some (cp + 1, 8)
        } else Some (cp, 10)
      }
      else if base = 16 then do {
        c \<leftarrow> array_get m cp;
        if c = 48 then do {
          x \<leftarrow> array_get m (cp + 1);
          if toupper x = 88 then Some (cp + 2, 16) else Some (cp, 16)
        } else Some (cp, 16)
      }
      else Some (cp, base))"

function strtoul_loop :: "(byte \<Rightarrow> ulong) \<Rightarrow> mem \<Rightarrow> nat \<Rightarrow> u32 \<Rightarrow> ulong \<Rightarrow> (ulong \<times> nat) option" where
  "strtoul_loop val m cp base result = do {
     c \<leftarrow> array_get m cp;
     if isxdigit c \<and> val c < ucast base
     then strtoul_loop val m (cp + 1) base (result * ucast base + val c)
     else Some (result, cp)
   }"
  by pat_completeness auto
termination by (relation "measure (\<lambda>(val, m, cp, base, result). length m - cp)") (auto simp: array_get_Some)

declare strtoul_loop.simps [simp del]

definition simple_strtoul :: "mem \<Rightarrow> nat \<Rightarrow> u32 \<Rightarrow> (ulong \<times> nat) option" where
  "simple_strtoul m cp base = do {
     (cp, base) \<leftarrow> number_base m cp base;
     strtoul_loop digit_value m cp base 0
   }"

definition simple_strtol :: "mem \<Rightarrow> nat \<Rightarrow> u32 \<Rightarrow> (ulong \<times> nat) option" where
  "simple_strtol m cp base = do {
     c \<leftarrow> array_get m cp;
     if c = 45 then do { (r, e) \<leftarrow> simple_strtoul m (cp + 1) base; Some (- r, e) } else simple_strtoul m cp base
   }"

definition simple_strtoull :: "mem \<Rightarrow> nat \<Rightarrow> u32 \<Rightarrow> (ulong \<times> nat) option" where
  "simple_strtoull m cp base = do {
     (cp, base) \<leftarrow> number_base m cp base;
     strtoul_loop digit_value_ll m cp base 0
   }"

definition simple_strtoll :: "mem \<Rightarrow> nat \<Rightarrow> u32 \<Rightarrow> (ulong \<times> nat) option" where
  "simple_strtoll m cp base = do {
     c \<leftarrow> array_get m cp;
     if c = 45 then do { (r, e) \<leftarrow> simple_strtoull m (cp + 1) base; Some (- r, e) } else simple_strtoull m cp base
   }"

text \<open>\<^verbatim>\<open>skip_atoi\<close> computes in an \<^verbatim>\<open>int\<close>.\<close>

function skip_atoi_loop :: "mem \<Rightarrow> nat \<Rightarrow> u32 \<Rightarrow> (u32 \<times> nat) option" where
  "skip_atoi_loop m s i = do {
     c \<leftarrow> array_get m s;
     if isdigit c then skip_atoi_loop m (s + 1) (i * 10 + ucast c - 48) else Some (i, s)
   }"
  by pat_completeness auto
termination by (relation "measure (\<lambda>(m, s, i). length m - s)") (auto simp: array_get_Some)

declare skip_atoi_loop.simps [simp del]

definition skip_atoi :: "mem \<Rightarrow> nat \<Rightarrow> (int \<times> nat) option" where
  "skip_atoi m s = do { (i, s) \<leftarrow> skip_atoi_loop m s 0; Some (sint i, s) }"

end
