(* ===== verification/Boot_Alloc.thy ===== *)
theory Boot_Alloc
  imports Vsprintf
begin

text \<open>
  The boot-time allocator of \<^verbatim>\<open>xen/common/page_alloc.c\<close>: a sorted array of free regions that
  lives in the first page handed to it.

  \<open>region_page\<close> is the page that holds the array (\<^verbatim>\<open>bootmem_region_list\<close>, \<^verbatim>\<open>NULL\<close> at first) and
  \<open>regions\<close> its first \<^verbatim>\<open>nr_bootmem_regions\<close> entries.  A failing \<^verbatim>\<open>BOOT_BUG_ON\<close> is \<open>None\<close>.
\<close>

unbundle bit_operations_syntax

record boot_state =
  first_valid_mfn :: ulong
  region_page :: "ulong option"
  regions :: "(ulong \<times> ulong) list"

definition boot_init :: boot_state where
  "boot_init = \<lparr>first_valid_mfn = - 1, region_page = None, regions = []\<rparr>"

definition max_regions :: nat where "max_regions = 4096 div 16"

text \<open>The first region that ends after \<open>s\<close>.\<close>

definition region_index :: "(ulong \<times> ulong) list \<Rightarrow> ulong \<Rightarrow> nat" where
  "region_index rs s = length (takeWhile (\<lambda>r. \<not> s < snd r) rs)"

definition bootmem_region_add :: "boot_state \<Rightarrow> ulong \<Rightarrow> ulong \<Rightarrow> boot_state option" where
  "bootmem_region_add b s e = do {
     let (b, s) = (if region_page b = None \<and> s < e then (b\<lparr>region_page := Some s\<rparr>, s + 1) else (b, s));
     if s \<ge> e then Some b
     else do {
       let rs = regions b;
       let i = region_index rs s;
       bug_on (i < length rs \<and> e > fst (rs ! i));
       bug_on (length rs = max_regions);
       Some (b\<lparr>regions := take i rs @ (s, e) # drop i rs\<rparr>)
     }
   }"

partial_function (option) zap_loop :: "boot_state \<Rightarrow> ulong \<Rightarrow> ulong \<Rightarrow> nat \<Rightarrow> boot_state option" where
  "zap_loop b s e i =
     (if i < length (regions b) then
        (let (rs, re) = regions b ! i in
         if e \<le> rs then Some b
         else if s \<ge> re then zap_loop b s e (i + 1)
         else if s \<le> rs then zap_loop (b\<lparr>regions := (regions b)[i := (min e re, re)]\<rparr>) s e (i + 1)
         else if e \<ge> re then zap_loop (b\<lparr>regions := (regions b)[i := (rs, s)]\<rparr>) s e (i + 1)
         else do {
           b \<leftarrow> bootmem_region_add (b\<lparr>regions := (regions b)[i := (rs, s)]\<rparr>) e re;
           zap_loop b s e (i + 1)
         })
      else Some b)"

declare zap_loop.simps [code]

definition bootmem_region_zap :: "boot_state \<Rightarrow> ulong \<Rightarrow> ulong \<Rightarrow> boot_state option" where
  "bootmem_region_zap b s e = zap_loop b s e 0"

text \<open>The loop of \<^verbatim>\<open>init_boot_pages\<close> over the option \<^verbatim>\<open>badpage=\<close>, a list of page numbers and ranges.\<close>

partial_function (option) badpage_loop :: "mem \<Rightarrow> boot_state \<Rightarrow> nat \<Rightarrow> boot_state option" where
  "badpage_loop m b p = do {
     c \<leftarrow> array_get m p;
     if c = 0 then Some b
     else do {
       (bad_spfn, p) \<leftarrow> simple_strtoul m p 0;
       c \<leftarrow> array_get m p;
       (bad_epfn, p) \<leftarrow> (if c = 45 then do {
           (e, p) \<leftarrow> simple_strtoul m (p + 1) 0;
           Some (if e < bad_spfn then bad_spfn else e, p)
         } else Some (bad_spfn, p));
       c \<leftarrow> array_get m p;
       if c = 44 then do { b \<leftarrow> bootmem_region_zap b bad_spfn (bad_epfn + 1); badpage_loop m b (p + 1) }
       else if c \<noteq> 0 then Some b
       else do { b \<leftarrow> bootmem_region_zap b bad_spfn (bad_epfn + 1); badpage_loop m b p }
     }
   }"

declare badpage_loop.simps [code]

definition round_pgdown :: "ulong \<Rightarrow> ulong" where "round_pgdown p = p AND NOT 0xFFF"
definition round_pgup :: "ulong \<Rightarrow> ulong" where "round_pgup p = (p + 0xFFF) AND NOT 0xFFF"

definition init_boot_pages :: "mem \<Rightarrow> boot_state \<Rightarrow> ulong \<Rightarrow> ulong \<Rightarrow> boot_state option" where
  "init_boot_pages opt_badpage b ps pe =
     (let ps = round_pgup ps; pe = round_pgdown pe in
      if pe \<le> ps then Some b
      else do {
        let b = b\<lparr>first_valid_mfn := min (drop_bit 12 ps) (first_valid_mfn b)\<rparr>;
        b \<leftarrow> bootmem_region_add b (drop_bit 12 ps) (drop_bit 12 pe);
        badpage_loop opt_badpage b 0
      })"

text \<open>The search of \<^verbatim>\<open>alloc_boot_pages\<close> goes from the last region down; \<open>n\<close> is the number of regions left.\<close>

fun alloc_boot_loop :: "boot_state \<Rightarrow> ulong \<Rightarrow> ulong \<Rightarrow> nat \<Rightarrow> (boot_state \<times> ulong) option" where
  "alloc_boot_loop b nr_pfns pfn_align 0 = None"
| "alloc_boot_loop b nr_pfns pfn_align (Suc i) =
     (let (rs, re) = regions b ! i; pg = (re - nr_pfns) AND NOT (pfn_align - 1) in
      if pg < rs then alloc_boot_loop b nr_pfns pfn_align i
      else do {
        b \<leftarrow> bootmem_region_add (b\<lparr>regions := (regions b)[i := (rs, pg)]\<rparr>) (pg + nr_pfns) re;
        Some (b, pg)
      })"

definition alloc_boot_pages :: "boot_state \<Rightarrow> ulong \<Rightarrow> ulong \<Rightarrow> (boot_state \<times> ulong) option" where
  "alloc_boot_pages b nr_pfns pfn_align = alloc_boot_loop b nr_pfns pfn_align (length (regions b))"

end
