(* ===== verification/Boot_Theorems.thy ===== *)
theory Boot_Theorems
  imports Boot_Facts
begin

text \<open>The properties of the boot-time allocator of \<^verbatim>\<open>xen/common/page_alloc.c\<close>.\<close>

text \<open>
  C27: the boot allocator keeps a set of free pages. \<^verbatim>\<open>bootmem_region_zap\<close> takes exactly its range out of the
  set; \<^verbatim>\<open>alloc_boot_pages\<close> returns an aligned run of \<open>nr\<close> free pages and takes exactly that run out, and it panics
  only if no region has such a run. Both keep the region table sorted. The code assumes, and does not check, that no
  region ends below \<open>nr\<close>, where its subtraction would wrap around; the table must have a slot for a region that is split.
\<close>
theorem boot_allocator_keeps_set:
  assumes "regions_ok (regions b)" "region_page b \<noteq> None" "length (regions b) < max_regions"
    "k < 64" "\<forall>r \<in> set (regions b). nr \<le> snd r" "s < e"
  shows "(case alloc_boot_pages b nr (2 ^ k) of
        None \<Rightarrow> \<forall>r \<in> set (regions b). \<forall>pg. \<not> fits k nr r pg
      | Some (b', pg) \<Rightarrow> regions_ok (regions b') \<and> aligned k pg \<and> {pg..<pg + nr} \<subseteq> boot_pages b \<and>
          boot_pages b' = boot_pages b - {pg..<pg + nr} \<and> pg \<le> pg + nr) \<and>
    (\<exists>b'. bootmem_region_zap b s e = Some b' \<and> regions_ok (regions b') \<and> boot_pages b' = boot_pages b - {s..<e})"
proof
  show "case alloc_boot_pages b nr (2 ^ k) of
        None \<Rightarrow> \<forall>r \<in> set (regions b). \<forall>pg. \<not> fits k nr r pg
      | Some (b', pg) \<Rightarrow> regions_ok (regions b') \<and> aligned k pg \<and> {pg..<pg + nr} \<subseteq> boot_pages b \<and>
          boot_pages b' = boot_pages b - {pg..<pg + nr} \<and> pg \<le> pg + nr"
  proof (cases "alloc_boot_pages b nr (2 ^ k)")
    case None
    then show ?thesis using alloc_boot_pages_spec [OF assms(1,2,4,5,3)] by simp
  next
    case (Some a)
    then obtain rs pg r where a: "a = (b\<lparr>regions := rs\<rparr>, pg)" "r \<in> set (regions b)" "fits k nr r pg" "regions_ok rs"
      "region_set rs = boot_pages b - {pg..<pg + nr}" using alloc_boot_pages_spec [OF assms(1,2,4,5,3)] by auto
    have "{pg..<pg + nr} \<subseteq> {fst r..<snd r}" using a(3) fits_end [OF a(3)] by (auto simp: fits_def)
    then have "{pg..<pg + nr} \<subseteq> boot_pages b" using a(2) by (fastforce simp: region_set_def)
    then show ?thesis using Some a fits_end [OF a(3)] by (simp add: fits_def)
  qed
  show "\<exists>b'. bootmem_region_zap b s e = Some b' \<and> regions_ok (regions b') \<and> boot_pages b' = boot_pages b - {s..<e}"
    using region_zap_spec [OF assms(1,2,6)] assms(3) by auto
qed

theorem boot_allocator_keeps_set_witness:
  "alloc_boot_pages (boot_init\<lparr>region_page := Some 1, regions := [(2, 9), (16, 23)]\<rparr>) 4 4 =
     Some (boot_init\<lparr>region_page := Some 1, regions := [(2, 9), (16, 16), (20, 23)]\<rparr>, 16) \<and>
   (\<exists>b'. bootmem_region_zap (boot_init\<lparr>region_page := Some 1, regions := [(2, 9), (16, 23)]\<rparr>) 8 20 = Some b' \<and>
      boot_pages b' = {2..<9} \<union> {16..<23} - {8..<20})"
proof -
  let ?b = "boot_init\<lparr>region_page := Some 1, regions := [(2, 9), (16, 23)]\<rparr>"
  have "regions_ok (regions ?b)" "region_page ?b \<noteq> None" "length (regions ?b) < max_regions" "(2 :: nat) < 64"
    "\<forall>r \<in> set (regions ?b). 4 \<le> snd r" "(8 :: ulong) < 20"
    by (simp_all add: regions_ok_def max_regions_def)
  note boot_allocator_keeps_set [OF this]
  moreover have "alloc_boot_pages ?b 4 4 = Some (boot_init\<lparr>region_page := Some 1, regions := [(2, 9), (16, 16), (20, 23)]\<rparr>, 16)"
    by code_simp
  ultimately show ?thesis by auto
qed

text \<open>
  Registering a range of memory at boot makes no page free outside the range, whatever the option
  \<^verbatim>\<open>badpage=\<close> says, and keeps the region table sorted; reading the option stays inside its string.
\<close>
theorem init_boot_pages_safe:
  assumes "init_boot_pages m b ps pe = Some b'" "terminated_at m n" "regions_ok (regions b)"
  shows "regions_ok (regions b') \<and>
    boot_pages b' \<subseteq> boot_pages b \<union> {drop_bit 12 (round_pgup ps)..<drop_bit 12 (round_pgdown pe)} \<and>
    (\<exists>r cp. simple_strtoul m 0 0 = Some (r, cp) \<and> cp \<le> n)"
  using init_boot_pages_shrinks [OF assms] simple_strtoul_inside [OF assms(2), of 0 0] by auto

theorem init_boot_pages_safe_witness:
  "init_boot_pages [57, 0] boot_init 0x1234 0xB001 =
     Some (boot_init\<lparr>first_valid_mfn := 2, region_page := Some 2, regions := [(3, 9), (10, 11)]\<rparr>) \<and>
   regions_ok [(3, 9), (10, 11)]"
proof -
  have i: "init_boot_pages [57, 0] boot_init 0x1234 0xB001 =
      Some (boot_init\<lparr>first_valid_mfn := 2, region_page := Some 2, regions := [(3, 9), (10, 11)]\<rparr>)" by code_simp
  moreover have "terminated_at [57, 0] 1" "regions_ok (regions boot_init)"
    by (simp_all add: terminated_at_def boot_init_def)
  ultimately show ?thesis using init_boot_pages_safe [OF i] by simp
qed

end
