(* ===== verification/Page_Alloc.thy ===== *)
theory Page_Alloc
  imports Bitmap
begin

text \<open>
  The page allocator of \<^verbatim>\<open>xen/common/page_alloc.c\<close> after boot: the binary buddy allocator, page
  offlining, and the Xen-heap and domain-heap allocators on top of it (x86-64 configuration).

  A page is named by its machine frame number.  The page lists are lists of frame numbers; removing a page from a
  list it is not on (which would corrupt the links), an index outside an array and a \<^verbatim>\<open>NULL\<close> dereference are
  \<open>None\<close>.  The lock is held over each operation, so an operation is one step and a
  \<^verbatim>\<open>cmpxchg\<close> succeeds.  What the machine and other parts of the hypervisor provide is the record \<open>mem_env\<close>.
\<close>

unbundle bit_operations_syntax

section \<open>Pages\<close>

text \<open>
  The unions of \<^verbatim>\<open>struct page_info\<close> are the words they overlay: \<open>page_u\<close> is
  \<^verbatim>\<open>u.inuse.type_info\<close> and, in its lowest byte, \<^verbatim>\<open>u.free.need_tlbflush\<close>;
  \<open>page_v\<close> is \<^verbatim>\<open>v.inuse._domain\<close> and \<^verbatim>\<open>v.free.order\<close>.
\<close>

record page_info =
  count_info :: ulong
  page_u :: ulong
  page_v :: u32
  tlbflush_timestamp :: u32

definition PG_mask :: "ulong \<Rightarrow> nat \<Rightarrow> ulong" where
  "PG_mask x idx = push_bit (64 - idx) x"

definition PGC_allocated :: ulong where "PGC_allocated = PG_mask 1 1"
definition PGC_xen_heap :: ulong where "PGC_xen_heap = PG_mask 1 2"
definition PGC_broken :: ulong where "PGC_broken = PG_mask 1 7"
definition PGC_state :: ulong where "PGC_state = PG_mask 3 9"
definition PGC_state_inuse :: ulong where "PGC_state_inuse = PG_mask 0 9"
definition PGC_state_offlining :: ulong where "PGC_state_offlining = PG_mask 1 9"
definition PGC_state_offlined :: ulong where "PGC_state_offlined = PG_mask 2 9"
definition PGC_state_free :: ulong where "PGC_state_free = PG_mask 3 9"
definition PGC_count_mask :: ulong where "PGC_count_mask = push_bit 55 1 - 1"
definition PGT_count_mask :: ulong where "PGT_count_mask = push_bit 55 1 - 1"

definition page_state_is :: "page_info \<Rightarrow> ulong \<Rightarrow> bool" where
  "page_state_is p st \<longleftrightarrow> count_info p AND PGC_state = st"

definition is_xen_heap_page :: "page_info \<Rightarrow> bool" where
  "is_xen_heap_page p \<longleftrightarrow> count_info p AND PGC_xen_heap \<noteq> 0"

definition need_tlbflush :: "page_info \<Rightarrow> bool" where
  "need_tlbflush p \<longleftrightarrow> page_u p AND 0xFF \<noteq> 0"

definition set_need_tlbflush :: "bool \<Rightarrow> page_info \<Rightarrow> page_info" where
  "set_need_tlbflush b p = p\<lparr>page_u := (page_u p AND NOT 0xFF) OR (if b then 1 else 0)\<rparr>"

definition PFN_ORDER :: "page_info \<Rightarrow> nat" where
  "PFN_ORDER p = unat (page_v p)"

definition set_PFN_ORDER :: "nat \<Rightarrow> page_info \<Rightarrow> page_info" where
  "set_PFN_ORDER n p = p\<lparr>page_v := of_nat n\<rparr>"

text \<open>The owner is the compressed address of its \<^verbatim>\<open>struct domain\<close>, with 0 for none.\<close>

definition page_get_owner :: "page_info \<Rightarrow> u32 option" where
  "page_get_owner p = (if page_v p \<noteq> 0 then Some (page_v p) else None)"

definition page_set_owner :: "u32 option \<Rightarrow> page_info \<Rightarrow> page_info" where
  "page_set_owner d p = p\<lparr>page_v := (case d of Some a \<Rightarrow> a | None \<Rightarrow> 0)\<rparr>"

section \<open>State and environment\<close>

text \<open>The fields of \<^verbatim>\<open>struct domain\<close> that the allocator uses.\<close>

record mem_domain =
  domain_id :: u16
  is_dying :: bool
  tot_pages :: u32
  max_pages :: u32
  xenheap_pages :: u32
  page_list :: "nat list"
  xenpage_list :: "nat list"
  relmem_list :: "nat list"
  refcnt :: int
  physaddr_bitsize :: nat
  home_node :: nat

record heap_state =
  frame_table :: "nat \<Rightarrow> page_info"
  heap :: "nat \<Rightarrow> nat \<Rightarrow> nat \<Rightarrow> nat list"
  avail :: "nat \<Rightarrow> (nat \<Rightarrow> int) option"
  total_avail_pages :: int
  midsize_alloc_zone_pages :: int
  page_offlined_list :: "nat list"
  page_broken_list :: "nat list"
  first_node_initialised :: bool
  dma_bitsize :: nat
  mem_domains :: "u32 \<Rightarrow> mem_domain option"
  tlb_flushes :: "nat list list"
  scrubbed :: "(nat \<times> page_info) list"

text \<open>
  The environment: the memory map (\<^verbatim>\<open>phys_to_nid\<close>, \<^verbatim>\<open>mfn_valid\<close>,
  \<^verbatim>\<open>page_is_ram_type\<close>, \<^verbatim>\<open>is_xen_fixed_mfn\<close>, the end of the direct map), the node of the
  current CPU, the node and CPU maps, the TLB flush clock and stamps, and transcendent memory (tmem).
\<close>

record mem_env =
  phys_to_nid :: "nat \<Rightarrow> nat"
  mfn_valid :: "nat \<Rightarrow> bool"
  is_conventional_ram :: "nat \<Rightarrow> bool"
  is_xen_fixed_mfn :: "nat \<Rightarrow> bool"
  directmap_end :: nat
  node_online :: "nat \<Rightarrow> bool"
  current_node :: nat
  cpu_online_map :: "nat list"
  tlbflush_time :: "nat \<Rightarrow> u32"
  tlbflush_current_time :: u32
  opt_tmem :: bool
  tmem_freeable_pages :: nat
  tmem_relinquish_pages :: "nat \<Rightarrow> u32 \<Rightarrow> nat option"
  dom_cow :: u32

definition MAX_ORDER :: nat where "MAX_ORDER = 20"
definition MAX_NUMNODES :: nat where "MAX_NUMNODES = 64"
definition NUMA_NO_NODE :: nat where "NUMA_NO_NODE = 0xFF"
definition PAGE_SHIFT :: nat where "PAGE_SHIFT = 12"
definition PADDR_BITS :: nat where "PADDR_BITS = 52"
definition NR_ZONES :: nat where "NR_ZONES = PADDR_BITS - PAGE_SHIFT"
definition MEMZONE_XEN :: nat where "MEMZONE_XEN = 0"
definition MIDSIZE_ALLOC_FRAC :: int where "MIDSIZE_ALLOC_FRAC = 128"

definition bits_to_zone :: "nat \<Rightarrow> nat" where
  "bits_to_zone b = (if b < PAGE_SHIFT + 1 then 0 else b - PAGE_SHIFT - 1)"

text \<open>A zone is an \<^verbatim>\<open>unsigned int\<close>: that of page 0, whose \<^verbatim>\<open>fls\<close> is 0, is no index.\<close>

definition page_to_zone :: "heap_state \<Rightarrow> nat \<Rightarrow> nat" where
  "page_to_zone s pg = (if is_xen_heap_page (frame_table s pg) then MEMZONE_XEN
     else unat (of_int (fls (of_nat pg) - 1) :: u32))"

definition upd_page :: "nat \<Rightarrow> (page_info \<Rightarrow> page_info) \<Rightarrow> heap_state \<Rightarrow> heap_state" where
  "upd_page pg f s = s\<lparr>frame_table := (frame_table s)(pg := f (frame_table s pg))\<rparr>"

definition upd_heap :: "nat \<Rightarrow> nat \<Rightarrow> nat \<Rightarrow> nat list \<Rightarrow> heap_state \<Rightarrow> heap_state" where
  "upd_heap node zone order l s =
     s\<lparr>heap := (heap s)(node := (heap s node)(zone := (heap s node zone)(order := l)))\<rparr>"

text \<open>\<^verbatim>\<open>page_list_add_tail\<close> and \<^verbatim>\<open>page_list_del\<close> on a list of the heap.\<close>

definition heap_add_tail :: "nat \<Rightarrow> nat \<Rightarrow> nat \<Rightarrow> nat \<Rightarrow> heap_state \<Rightarrow> heap_state" where
  "heap_add_tail pg node zone order s = upd_heap node zone order (heap s node zone order @ [pg]) s"

definition page_list_del :: "nat \<Rightarrow> nat list \<Rightarrow> nat list option" where
  "page_list_del pg l = (if pg \<in> set l then Some (remove1 pg l) else None)"

definition heap_del :: "nat \<Rightarrow> nat \<Rightarrow> nat \<Rightarrow> nat \<Rightarrow> heap_state \<Rightarrow> heap_state option" where
  "heap_del pg node zone order s = do {
     l \<leftarrow> page_list_del pg (heap s node zone order);
     Some (upd_heap node zone order l s)
   }"

text \<open>\<^verbatim>\<open>avail[node][zone] += n\<close> with the null pointer and the bounds of both arrays checked.\<close>

definition avail_add :: "nat \<Rightarrow> nat \<Rightarrow> int \<Rightarrow> heap_state \<Rightarrow> heap_state option" where
  "avail_add node zone n s = do {
     bug_on (node \<ge> MAX_NUMNODES);
     av \<leftarrow> avail s node;
     bug_on (zone \<ge> NR_ZONES);
     Some (s\<lparr>avail := (avail s)(node := Some (av(zone := av zone + n)))\<rparr>)
   }"

section \<open>Allocation\<close>

definition next_node :: "mem_env \<Rightarrow> nat \<Rightarrow> nat" where
  "next_node env n = (case find (node_online env) [n + 1..<MAX_NUMNODES] of Some i \<Rightarrow> i | None \<Rightarrow> MAX_NUMNODES)"

definition first_node :: "mem_env \<Rightarrow> nat" where
  "first_node env = (case find (node_online env) [0..<MAX_NUMNODES] of Some i \<Rightarrow> i | None \<Rightarrow> MAX_NUMNODES)"

definition num_online_nodes :: "mem_env \<Rightarrow> nat" where
  "num_online_nodes env = length (filter (node_online env) [0..<MAX_NUMNODES])"

definition NEED_FLUSH :: "mem_env \<Rightarrow> u32 \<Rightarrow> u32 \<Rightarrow> bool" where
  "NEED_FLUSH env cpu_stamp lastuse_stamp \<longleftrightarrow> tlbflush_current_time env = 0 \<or>
     cpu_stamp \<le> lastuse_stamp \<and> lastuse_stamp \<le> tlbflush_current_time env"

definition tlbflush_filter :: "mem_env \<Rightarrow> nat list \<Rightarrow> u32 \<Rightarrow> nat list" where
  "tlbflush_filter env cpus page_timestamp = filter (\<lambda>cpu. NEED_FLUSH env (tlbflush_time env cpu) page_timestamp) cpus"

text \<open>
  The loop over the orders of a zone, over the zones of a node (downwards), and over the nodes.  \<^verbatim>\<open>avail[]\<close> and \<^verbatim>\<open>_heap[]\<close>
  have \<^verbatim>\<open>MAX_NUMNODES\<close> entries.  The nodes that the loop goes on to are online ones, below that bound; the node it starts from
  is the argument of \<^verbatim>\<open>alloc_heap_pages\<close>, which checks it nowhere, so the model checks it there, before the first access.
\<close>

definition smallest_order :: "heap_state \<Rightarrow> nat \<Rightarrow> nat \<Rightarrow> nat \<Rightarrow> nat option" where
  "smallest_order s node zone order = find (\<lambda>j. heap s node zone j \<noteq> []) [order..<MAX_ORDER + 1]"

definition zone_candidate :: "heap_state \<Rightarrow> nat \<Rightarrow> nat \<Rightarrow> nat \<Rightarrow> nat option" where
  "zone_candidate s node zone order =
     (case avail s node of None \<Rightarrow> None
      | Some av \<Rightarrow> if av zone < 2 ^ order then None else smallest_order s node zone order)"

fun scan_zones :: "heap_state \<Rightarrow> nat \<Rightarrow> nat \<Rightarrow> nat \<Rightarrow> nat \<Rightarrow> (nat \<times> nat) option" where
  "scan_zones s node order zone_lo zone =
     (case zone_candidate s node zone order of
        Some j \<Rightarrow> Some (zone, j)
      | None \<Rightarrow> if zone > zone_lo then scan_zones s node order zone_lo (zone - 1) else None)"

declare scan_zones.simps [simp del]

fun scan_nodes :: "mem_env \<Rightarrow> heap_state \<Rightarrow> nat \<Rightarrow> nat \<Rightarrow> nat \<Rightarrow> nat \<Rightarrow> nat \<Rightarrow> (nat \<times> nat \<times> nat) option" where
  "scan_nodes env s order zone_lo zone_hi node 0 = None"
| "scan_nodes env s order zone_lo zone_hi node (Suc n) =
     (case scan_zones s node order zone_lo zone_hi of
        Some (zone, j) \<Rightarrow> Some (node, zone, j)
      | None \<Rightarrow>
          let node' = next_node env node;
              node'' = (if node' = MAX_NUMNODES then first_node env else node')
          in scan_nodes env s order zone_lo zone_hi node'' n)"

text \<open>The lower half of the chunk goes back on its list until the chunk has the size asked for.\<close>

fun halve :: "heap_state \<Rightarrow> nat \<Rightarrow> nat \<Rightarrow> nat \<Rightarrow> nat \<Rightarrow> nat \<Rightarrow> heap_state \<times> nat" where
  "halve s node zone order pg 0 = (s, pg)"
| "halve s node zone order pg (Suc j) =
     (if Suc j = order then (s, pg)
      else halve (heap_add_tail pg node zone j (upd_page pg (set_PFN_ORDER j) s)) node zone order (pg + 2 ^ j) j)"

text \<open>The loop that takes the pages of the chunk into use and collects the CPUs to flush.\<close>

fun claim_pages :: "mem_env \<Rightarrow> heap_state \<Rightarrow> nat \<Rightarrow> nat \<Rightarrow> nat list \<Rightarrow> (heap_state \<times> nat list) option" where
  "claim_pages env s pg 0 cpus = Some (s, cpus)"
| "claim_pages env s pg (Suc n) cpus = do {
     let p = frame_table s pg;
     bug_on (count_info p \<noteq> PGC_state_free);
     let extra = (if need_tlbflush p
       then tlbflush_filter env (filter (\<lambda>c. c \<notin> set cpus) (cpu_online_map env)) (tlbflush_timestamp p) else []);
     claim_pages env (upd_page pg (\<lambda>p. page_set_owner None (p\<lparr>count_info := PGC_state_inuse, page_u := 0\<rparr>)) s)
       (pg + 1) n (cpus @ extra)
   }"

definition alloc_heap_pages ::
    "mem_env \<Rightarrow> heap_state \<Rightarrow> nat \<Rightarrow> nat \<Rightarrow> nat \<Rightarrow> nat \<Rightarrow> u32 \<Rightarrow> (heap_state \<times> nat option) option" where
  "alloc_heap_pages env s zone_lo zone_hi node order memflags = do {
     let node = (if node = NUMA_NO_NODE then current_node env else node);
     bug_on (\<not> zone_lo \<le> zone_hi);
     bug_on (\<not> zone_hi < NR_ZONES);
     if order > MAX_ORDER then Some (s, None)
     else if opt_tmem env \<and> (order = 0 \<or> order \<ge> 9) \<and> total_avail_pages s \<le> midsize_alloc_zone_pages s \<and>
             tmem_freeable_pages env \<noteq> 0
       then Some (s, tmem_relinquish_pages env order memflags)
     else do {
       bug_on (node \<ge> MAX_NUMNODES);
       case scan_nodes env s order zone_lo zone_hi node (num_online_nodes env) of
         None \<Rightarrow> Some (s, tmem_relinquish_pages env order memflags)
       | Some (node, zone, j) \<Rightarrow> do {
           let pg = hd (heap s node zone j);
           let (s, pg) = halve (upd_heap node zone j (tl (heap s node zone j)) s) node zone order pg j;
           av \<leftarrow> avail s node;
           bug_on (\<not> av zone \<ge> 2 ^ order);
           s \<leftarrow> avail_add node zone (- (2 ^ order)) s;
           let s = s\<lparr>total_avail_pages := total_avail_pages s - 2 ^ order\<rparr>;
           bug_on (\<not> total_avail_pages s \<ge> 0);
           (s, cpus) \<leftarrow> claim_pages env s pg (2 ^ order) [];
           let s = (if cpus \<noteq> [] then s\<lparr>tlb_flushes := tlb_flushes s @ [cpus]\<rparr> else s);
           Some (s, Some pg)
         }
     }
   }"

section \<open>Pages that are taken offline\<close>

text \<open>
  The inner loop of \<^verbatim>\<open>reserve_offlined_page\<close>: the order of the largest run of pages from
  \<open>cur_head\<close> that it puts back.  When the loop body is never entered the outer loop does not advance: \<open>None\<close>.
\<close>

definition no_offlined :: "heap_state \<Rightarrow> nat \<Rightarrow> nat \<Rightarrow> bool" where
  "no_offlined s a b \<longleftrightarrow> list_all (\<lambda>pg. \<not> page_state_is (frame_table s pg) PGC_state_offlined) [a..<b]"

function merge_order :: "heap_state \<Rightarrow> nat \<Rightarrow> nat \<Rightarrow> nat \<Rightarrow> nat \<Rightarrow> nat option" where
  "merge_order s head head_order cur_head cur_order =
     (if cur_order < head_order then
        let next_order = cur_order + 1 in
        if cur_head + 2 ^ next_order \<ge> head + 2 ^ head_order then Some cur_order
        else if no_offlined s (cur_head + 2 ^ cur_order) (cur_head + 2 ^ next_order)
          then merge_order s head head_order cur_head next_order
        else Some cur_order
      else None)"
  by pat_completeness auto
termination by (relation "measure (\<lambda>(s, head, head_order, cur_head, cur_order). head_order - cur_order)") auto

declare merge_order.simps [simp del]

function put_back :: "heap_state \<Rightarrow> nat \<Rightarrow> nat \<Rightarrow> nat \<Rightarrow> nat \<Rightarrow> nat \<Rightarrow> heap_state option" where
  "put_back s node zone head head_order cur_head =
     (if cur_head < head + 2 ^ head_order then
        if page_state_is (frame_table s cur_head) PGC_state_offlined
        then put_back s node zone head head_order (cur_head + 1)
        else case merge_order s head head_order cur_head 0 of
          None \<Rightarrow> None
        | Some cur_order \<Rightarrow>
            put_back (upd_page cur_head (set_PFN_ORDER cur_order) (heap_add_tail cur_head node zone cur_order s))
              node zone head head_order (cur_head + 2 ^ cur_order)
      else Some s)"
  by pat_completeness auto
termination by (relation "measure (\<lambda>(s, node, zone, head, head_order, cur_head). head + 2 ^ head_order - cur_head)")
  (auto intro!: diff_less_mono2)

declare put_back.simps [simp del]

fun reserve_pages :: "heap_state \<Rightarrow> nat \<Rightarrow> nat \<Rightarrow> nat \<Rightarrow> nat \<Rightarrow> int \<Rightarrow> (heap_state \<times> int) option" where
  "reserve_pages s node zone pg 0 count = Some (s, count)"
| "reserve_pages s node zone pg (Suc n) count =
     (if \<not> page_state_is (frame_table s pg) PGC_state_offlined then reserve_pages s node zone (pg + 1) n count
      else do {
        s \<leftarrow> avail_add node zone (- 1) s;
        let s = s\<lparr>total_avail_pages := total_avail_pages s - 1\<rparr>;
        bug_on (\<not> total_avail_pages s \<ge> 0);
        let s = (if count_info (frame_table s pg) AND PGC_broken \<noteq> 0
          then s\<lparr>page_broken_list := page_broken_list s @ [pg]\<rparr>
          else s\<lparr>page_offlined_list := page_offlined_list s @ [pg]\<rparr>);
        reserve_pages s node zone (pg + 1) n (count + 1)
      })"

definition reserve_offlined_page :: "mem_env \<Rightarrow> heap_state \<Rightarrow> nat \<Rightarrow> (heap_state \<times> int) option" where
  "reserve_offlined_page env s head = do {
     let node = phys_to_nid env head;
     let zone = page_to_zone s head;
     let head_order = PFN_ORDER (frame_table s head);
     s \<leftarrow> heap_del head node zone head_order s;
     s \<leftarrow> put_back s node zone head head_order head;
     reserve_pages s node zone head (2 ^ head_order) 0
   }"

section \<open>Freeing\<close>

text \<open>The loop that makes the pages of the chunk free (or offlined); the result tells whether one is offlined.\<close>

definition freed_count_info :: "page_info \<Rightarrow> ulong" where
  "freed_count_info p = (count_info p AND PGC_broken) OR
     (if page_state_is p PGC_state_offlining then PGC_state_offlined else PGC_state_free)"

definition freed_page :: "mem_env \<Rightarrow> page_info \<Rightarrow> page_info" where
  "freed_page env p =
     (let p = p\<lparr>count_info := freed_count_info p\<rparr>;
          p = set_need_tlbflush (page_get_owner p \<noteq> None) p
      in if need_tlbflush p then p\<lparr>tlbflush_timestamp := tlbflush_current_time env\<rparr> else p)"

fun release_pages :: "mem_env \<Rightarrow> heap_state \<Rightarrow> nat \<Rightarrow> nat \<Rightarrow> bool \<Rightarrow> (heap_state \<times> bool) option" where
  "release_pages env s pg 0 tainted = Some (s, tainted)"
| "release_pages env s pg (Suc n) tainted = do {
     bug_on (page_state_is (frame_table s pg) PGC_state_offlined);
     let s = upd_page pg (freed_page env) s;
     release_pages env s (pg + 1) n (tainted \<or> page_state_is (frame_table s pg) PGC_state_offlined)
   }"

text \<open>Merging with the buddy as long as it is a free chunk of the same order.\<close>

definition buddy_free :: "mem_env \<Rightarrow> heap_state \<Rightarrow> nat \<Rightarrow> nat \<Rightarrow> bool" where
  "buddy_free env s b order \<longleftrightarrow>
     mfn_valid env b \<and> page_state_is (frame_table s b) PGC_state_free \<and> PFN_ORDER (frame_table s b) = order"

function merge_chunk :: "mem_env \<Rightarrow> heap_state \<Rightarrow> nat \<Rightarrow> nat \<Rightarrow> nat \<Rightarrow> nat \<Rightarrow> (heap_state \<times> nat \<times> nat) option" where
  "merge_chunk env s node zone pg order =
     (if order < MAX_ORDER then
        let msk = 2 ^ order in
        if bit pg order then
          if \<not> buddy_free env s (pg - msk) order then Some (s, pg, order)
          else case heap_del (pg - msk) node zone order s of
            None \<Rightarrow> None
          | Some s \<Rightarrow> if phys_to_nid env (pg - msk) \<noteq> node then None
                      else merge_chunk env s node zone (pg - msk) (order + 1)
        else
          if \<not> buddy_free env s (pg + msk) order then Some (s, pg, order)
          else case heap_del (pg + msk) node zone order s of
            None \<Rightarrow> None
          | Some s \<Rightarrow> if phys_to_nid env pg \<noteq> node then None
                      else merge_chunk env s node zone pg (order + 1)
      else Some (s, pg, order))"
  by pat_completeness auto
termination by (relation "measure (\<lambda>(env, s, node, zone, pg, order). MAX_ORDER - order)") auto

declare merge_chunk.simps [simp del]

definition free_heap_pages :: "mem_env \<Rightarrow> heap_state \<Rightarrow> nat \<Rightarrow> nat \<Rightarrow> heap_state option" where
  "free_heap_pages env s pg order = do {
     let node = phys_to_nid env pg;
     let zone = page_to_zone s pg;
     bug_on (\<not> order \<le> MAX_ORDER);
     (s, tainted) \<leftarrow> release_pages env s pg (2 ^ order) False;
     s \<leftarrow> avail_add node zone (2 ^ order) s;
     let s = s\<lparr>total_avail_pages := total_avail_pages s + 2 ^ order\<rparr>;
     let s = (if opt_tmem env
       then s\<lparr>midsize_alloc_zone_pages := max (midsize_alloc_zone_pages s) (total_avail_pages s div MIDSIZE_ALLOC_FRAC)\<rparr>
       else s);
     (s, pg, order) \<leftarrow> merge_chunk env s node zone pg order;
     let s = heap_add_tail pg node zone order (upd_page pg (set_PFN_ORDER order) s);
     if tainted then do { (s, _) \<leftarrow> reserve_offlined_page env s pg; Some s } else Some s
   }"

section \<open>Offlining and onlining a page\<close>

definition mark_page_offline :: "heap_state \<Rightarrow> nat \<Rightarrow> bool \<Rightarrow> heap_state \<times> ulong" where
  "mark_page_offline s pg broken =
     (let x = count_info (frame_table s pg);
          nx = (if x AND PGC_state \<noteq> PGC_state_offlined \<and> x AND PGC_state \<noteq> PGC_state_offlining
            then (x AND NOT PGC_state) OR
              (if x AND PGC_state = PGC_state_free then PGC_state_offlined else PGC_state_offlining)
            else x);
          nx = (if broken then nx OR PGC_broken else nx)
      in (upd_page pg (\<lambda>p. p\<lparr>count_info := nx\<rparr>) s, x))"

text \<open>The search for the chunk that holds the page.\<close>

definition chunk_of :: "heap_state \<Rightarrow> nat \<Rightarrow> nat \<Rightarrow> nat \<Rightarrow> nat option" where
  "chunk_of s node zone pg =
     (case concat (map (\<lambda>i. filter (\<lambda>head. head \<le> pg \<and> head + 2 ^ i > pg) (heap s node zone i)) [0..<MAX_ORDER + 1]) of
        [] \<Rightarrow> None
      | head # _ \<Rightarrow> Some head)"

definition reserve_heap_page :: "mem_env \<Rightarrow> heap_state \<Rightarrow> nat \<Rightarrow> (heap_state \<times> int) option" where
  "reserve_heap_page env s pg =
     (case chunk_of s (phys_to_nid env pg) (page_to_zone s pg) pg of
        Some head \<Rightarrow> reserve_offlined_page env s head
      | None \<Rightarrow> Some (s, - EINVAL))"

definition PG_OFFLINE_OFFLINED :: u32 where "PG_OFFLINE_OFFLINED = 2"
definition PG_OFFLINE_PENDING :: u32 where "PG_OFFLINE_PENDING = 4"
definition PG_OFFLINE_FAILED :: u32 where "PG_OFFLINE_FAILED = 8"
definition PG_ONLINE_ONLINED :: u32 where "PG_ONLINE_ONLINED = PG_OFFLINE_OFFLINED"
definition PG_ONLINE_FAILED :: u32 where "PG_ONLINE_FAILED = PG_OFFLINE_FAILED"
definition PG_OFFLINE_STATUS_OFFLINED :: u32 where "PG_OFFLINE_STATUS_OFFLINED = 2"
definition PG_OFFLINE_STATUS_OFFLINE_PENDING :: u32 where "PG_OFFLINE_STATUS_OFFLINE_PENDING = 8"
definition PG_OFFLINE_STATUS_BROKEN :: u32 where "PG_OFFLINE_STATUS_BROKEN = 16"
definition PG_OFFLINE_XENPAGE :: u32 where "PG_OFFLINE_XENPAGE = 0x100"
definition PG_OFFLINE_ANONYMOUS :: u32 where "PG_OFFLINE_ANONYMOUS = 0x400"
definition PG_OFFLINE_NOT_CONV_RAM :: u32 where "PG_OFFLINE_NOT_CONV_RAM = 0x800"
definition PG_OFFLINE_OWNED :: u32 where "PG_OFFLINE_OWNED = 0x1000"
definition PG_OFFLINE_BROKEN :: u32 where "PG_OFFLINE_BROKEN = 0x2000"
definition PG_ONLINE_BROKEN :: u32 where "PG_ONLINE_BROKEN = PG_OFFLINE_BROKEN"
definition PG_OFFLINE_OWNER_SHIFT :: nat where "PG_OFFLINE_OWNER_SHIFT = 16"
definition DOMID_XEN :: u16 where "DOMID_XEN = 0x7FF2"
definition DOMID_INVALID :: u16 where "DOMID_INVALID = 0x7FFF"

definition owner_field :: "u16 \<Rightarrow> u32" where
  "owner_field d = push_bit PG_OFFLINE_OWNER_SHIFT (ucast d)"

text \<open>
  \<^verbatim>\<open>page_get_owner_and_reference\<close> takes a reference unless the count is 0 or about to overflow.
  \<^verbatim>\<open>offline_page\<close> drops it at once, which leaves the count as it was (and above zero).
\<close>

definition page_get_owner_and_reference :: "page_info \<Rightarrow> u32 option" where
  "page_get_owner_and_reference p =
     (if (count_info p + 2) AND PGC_count_mask \<le> 2 then None else page_get_owner p)"

definition offline_page :: "mem_env \<Rightarrow> heap_state \<Rightarrow> nat \<Rightarrow> bool \<Rightarrow> u32 \<Rightarrow> (heap_state \<times> u32 \<times> int) option" where
  "offline_page env s mfn broken status =
     (if \<not> mfn_valid env mfn then Some (s, status, - EINVAL)
      else if is_xen_fixed_mfn env mfn
        then Some (s, PG_OFFLINE_XENPAGE OR PG_OFFLINE_FAILED OR owner_field DOMID_XEN, - EPERM)
      else if \<not> is_conventional_ram env mfn
        then Some (s, PG_OFFLINE_FAILED OR PG_OFFLINE_NOT_CONV_RAM, - EINVAL)
      else do {
        let (s, old_info) = mark_page_offline s mfn broken;
        let p = frame_table s mfn;
        (s, status) \<leftarrow>
          (if page_state_is p PGC_state_free then do {
             (s, _) \<leftarrow> reserve_heap_page env s mfn;
             Some (s, PG_OFFLINE_OFFLINED)
           }
           else if page_state_is p PGC_state_offlined then Some (s, PG_OFFLINE_OFFLINED)
           else case page_get_owner_and_reference p of
             Some a \<Rightarrow> do {
               owner \<leftarrow> mem_domains s a;
               Some (s, PG_OFFLINE_OWNED OR PG_OFFLINE_PENDING OR owner_field (domain_id owner))
             }
           | None \<Rightarrow>
               if old_info AND PGC_xen_heap \<noteq> 0
               then Some (s, PG_OFFLINE_XENPAGE OR PG_OFFLINE_PENDING OR owner_field DOMID_XEN)
               else Some (s, PG_OFFLINE_ANONYMOUS OR PG_OFFLINE_FAILED OR owner_field DOMID_INVALID));
        Some (s, if broken then status OR PG_OFFLINE_BROKEN else status, 0)
      })"

definition online_page :: "mem_env \<Rightarrow> heap_state \<Rightarrow> nat \<Rightarrow> u32 \<Rightarrow> (heap_state \<times> u32 \<times> int) option" where
  "online_page env s mfn status =
     (if \<not> mfn_valid env mfn then Some (s, status, - EINVAL)
      else let y = count_info (frame_table s mfn);
               inuse = upd_page mfn (\<lambda>p. p\<lparr>count_info := (y AND NOT PGC_state) OR PGC_state_inuse\<rparr>) in
        if y AND PGC_broken \<noteq> 0 then
          if y AND PGC_state = PGC_state_offlined
          then map_option (\<lambda>s. (s, PG_ONLINE_FAILED OR PG_ONLINE_BROKEN, - EINVAL)) (free_heap_pages env s mfn 0)
          else Some (s, PG_ONLINE_FAILED OR PG_ONLINE_BROKEN, - EINVAL)
        else if y AND PGC_state = PGC_state_offlined then do {
          l \<leftarrow> page_list_del mfn (page_offlined_list s);
          s \<leftarrow> free_heap_pages env (inuse (s\<lparr>page_offlined_list := l\<rparr>)) mfn 0;
          Some (s, PG_ONLINE_ONLINED, 0)
        }
        else if y AND PGC_state = PGC_state_offlining then Some (inuse s, PG_ONLINE_ONLINED, 0)
        else Some (s, 0, 0))"

definition query_page_offline :: "mem_env \<Rightarrow> heap_state \<Rightarrow> nat \<Rightarrow> u32 \<Rightarrow> u32 \<times> int" where
  "query_page_offline env s mfn status =
     (if \<not> mfn_valid env mfn \<or> \<not> is_conventional_ram env mfn then (status, - EINVAL)
      else let p = frame_table s mfn in
        ((if page_state_is p PGC_state_offlining then PG_OFFLINE_STATUS_OFFLINE_PENDING else 0) OR
         (if count_info p AND PGC_broken \<noteq> 0 then PG_OFFLINE_STATUS_BROKEN else 0) OR
         (if page_state_is p PGC_state_offlined then PG_OFFLINE_STATUS_OFFLINED else 0), 0))"

section \<open>The domain heap\<close>

definition MEMF_no_refcount :: u32 where "MEMF_no_refcount = 1"
definition MEMF_no_dma :: u32 where "MEMF_no_dma = 8"
definition MEMF_node_shift :: nat where "MEMF_node_shift = 8"
definition MEMF_bits_shift :: nat where "MEMF_bits_shift = 24"

definition domain_clamp_alloc_bitsize :: "mem_domain option \<Rightarrow> nat \<Rightarrow> nat" where
  "domain_clamp_alloc_bitsize d bits =
     (case d of None \<Rightarrow> bits
      | Some d \<Rightarrow> if physaddr_bitsize d = 0 then bits else min (physaddr_bitsize d) bits)"

definition upd_domain :: "u32 \<Rightarrow> mem_domain \<Rightarrow> heap_state \<Rightarrow> heap_state" where
  "upd_domain a d s = s\<lparr>mem_domains := (mem_domains s)(a := Some d)\<rparr>"

text \<open>The loop of \<^verbatim>\<open>assign_pages\<close>: the pages get their owner and go on its list.\<close>

fun assign_loop :: "heap_state \<Rightarrow> u32 \<Rightarrow> nat \<Rightarrow> nat \<Rightarrow> heap_state option" where
  "assign_loop s a pg 0 = Some s"
| "assign_loop s a pg (Suc n) = do {
     bug_on (page_get_owner (frame_table s pg) \<noteq> None);
     bug_on (count_info (frame_table s pg) AND NOT (PGC_allocated OR 1) \<noteq> 0);
     d \<leftarrow> mem_domains s a;
     let s = upd_page pg (\<lambda>p. page_set_owner (Some a) p\<lparr>count_info := PGC_allocated OR 1\<rparr>) s;
     assign_loop (upd_domain a (d\<lparr>page_list := page_list d @ [pg]\<rparr>) s) a (pg + 1) n
   }"

definition assign_pages :: "heap_state \<Rightarrow> u32 \<Rightarrow> nat \<Rightarrow> nat \<Rightarrow> u32 \<Rightarrow> (heap_state \<times> int) option" where
  "assign_pages s a pg order memflags = do {
     d \<leftarrow> mem_domains s a;
     if is_dying d then Some (s, - 1)
     else if memflags AND MEMF_no_refcount = 0 \<and> tot_pages d + push_bit order 1 > max_pages d then Some (s, - 1)
     else do {
       let d = (if memflags AND MEMF_no_refcount = 0
         then d\<lparr>refcnt := (if tot_pages d = 0 then refcnt d + 1 else refcnt d), tot_pages := tot_pages d + push_bit order 1\<rparr>
         else d);
       s \<leftarrow> assign_loop (upd_domain a d s) a pg (2 ^ order);
       Some (s, 0)
     }
   }"

definition alloc_domheap_pages ::
    "mem_env \<Rightarrow> heap_state \<Rightarrow> u32 option \<Rightarrow> nat \<Rightarrow> u32 \<Rightarrow> (heap_state \<times> nat option) option" where
  "alloc_domheap_pages env s a order memflags = do {
     d \<leftarrow> (case a of None \<Rightarrow> Some None | Some a \<Rightarrow> do { d \<leftarrow> mem_domains s a; Some (Some d) });
     let bits = unat (drop_bit MEMF_bits_shift memflags);
     let node = unat (take_bit 8 (drop_bit MEMF_node_shift memflags - 1));
     let node = (case d of Some d \<Rightarrow> if node = NUMA_NO_NODE then home_node d else node | None \<Rightarrow> node);
     let bits = domain_clamp_alloc_bitsize d (if bits \<noteq> 0 then bits else 64 + PAGE_SHIFT);
     let zone_hi = min (bits_to_zone bits) (NR_ZONES - 1);
     if zone_hi = 0 then Some (s, None)
     else do {
       let dma_zone = bits_to_zone (dma_bitsize s);
       (s, pg) \<leftarrow> (if dma_bitsize s \<noteq> 0 \<and> dma_zone < zone_hi
         then alloc_heap_pages env s (dma_zone + 1) zone_hi node order memflags else Some (s, None));
       (s, pg) \<leftarrow> (if pg = None \<and> memflags AND MEMF_no_dma = 0
         then alloc_heap_pages env s (MEMZONE_XEN + 1) zone_hi node order memflags else Some (s, pg));
       case (pg, a) of
         (Some pg, Some a) \<Rightarrow> do {
           (s, rc) \<leftarrow> assign_pages s a pg order memflags;
           if rc \<noteq> 0 then do { s \<leftarrow> free_heap_pages env s pg order; Some (s, None) } else Some (s, Some pg)
         }
       | _ \<Rightarrow> Some (s, pg)
     }
   }"

text \<open>\<^verbatim>\<open>page_list_del2\<close>: the page is on one of two lists.\<close>

definition page_list_del2 :: "nat \<Rightarrow> nat list \<Rightarrow> nat list \<Rightarrow> (nat list \<times> nat list) option" where
  "page_list_del2 pg l1 l2 =
     (if pg \<in> set l1 then Some (remove1 pg l1, l2) else if pg \<in> set l2 then Some (l1, remove1 pg l2) else None)"

fun unlink_xen_pages :: "mem_domain \<Rightarrow> nat \<Rightarrow> nat \<Rightarrow> mem_domain option" where
  "unlink_xen_pages d pg 0 = Some d"
| "unlink_xen_pages d pg (Suc n) = do {
     (l1, l2) \<leftarrow> page_list_del2 pg (xenpage_list d) (relmem_list d);
     unlink_xen_pages (d\<lparr>xenpage_list := l1, relmem_list := l2\<rparr>) (pg + 1) n
   }"

fun unlink_pages :: "heap_state \<Rightarrow> mem_domain \<Rightarrow> nat \<Rightarrow> nat \<Rightarrow> mem_domain option" where
  "unlink_pages s d pg 0 = Some d"
| "unlink_pages s d pg (Suc n) = do {
     bug_on (page_u (frame_table s pg) AND PGT_count_mask \<noteq> 0);
     (l1, l2) \<leftarrow> page_list_del2 pg (page_list d) (relmem_list d);
     unlink_pages s (d\<lparr>page_list := l1, relmem_list := l2\<rparr>) (pg + 1) n
   }"

text \<open>
  Scrubbing is recorded, not the contents: \<open>scrubbed\<close> has the pages in the order in which they were scrubbed, each with
  what the frame table said of it at that moment.  A broken page is not touched.
\<close>

definition scrub_one_page :: "nat \<Rightarrow> heap_state \<Rightarrow> heap_state" where
  "scrub_one_page pg s =
     (if count_info (frame_table s pg) AND PGC_broken \<noteq> 0 then s else s\<lparr>scrubbed := scrubbed s @ [(pg, frame_table s pg)]\<rparr>)"

text \<open>\<^verbatim>\<open>put_domain\<close>; the destruction of a domain whose count drops to 0 is another component.\<close>

definition put_domain :: "u32 \<Rightarrow> heap_state \<Rightarrow> heap_state option" where
  "put_domain a s = do { d \<leftarrow> mem_domains s a; Some (upd_domain a (d\<lparr>refcnt := refcnt d - 1\<rparr>) s) }"

definition free_domheap_pages :: "mem_env \<Rightarrow> heap_state \<Rightarrow> nat \<Rightarrow> nat \<Rightarrow> heap_state option" where
  "free_domheap_pages env s pg order =
     (case page_get_owner (frame_table s pg) of
        Some a \<Rightarrow>
          if is_xen_heap_page (frame_table s pg) then do {
            d \<leftarrow> mem_domains s a;
            d \<leftarrow> unlink_xen_pages d pg (2 ^ order);
            let d = d\<lparr>xenheap_pages := xenheap_pages d - push_bit order 1\<rparr>;
            let s = upd_domain a d s;
            if xenheap_pages d = 0 then put_domain a s else Some s
          }
          else if a \<noteq> dom_cow env then do {
            d \<leftarrow> mem_domains s a;
            d \<leftarrow> unlink_pages s d pg (2 ^ order);
            let d = d\<lparr>tot_pages := tot_pages d - push_bit order 1\<rparr>;
            let s = upd_domain a d s;
            let s = (if is_dying d then fold scrub_one_page [pg..<pg + 2 ^ order] s else s);
            s \<leftarrow> free_heap_pages env s pg order;
            if tot_pages d = 0 then put_domain a s else Some s
          }
          else do {
            bug_on (order \<noteq> 0);
            free_heap_pages env (scrub_one_page pg s) pg 0
          }
      | None \<Rightarrow>
          if is_xen_heap_page (frame_table s pg) then None else free_heap_pages env s pg order)"

section \<open>The Xen heap\<close>

definition alloc_xenheap_pages :: "mem_env \<Rightarrow> heap_state \<Rightarrow> nat \<Rightarrow> u32 \<Rightarrow> (heap_state \<times> nat option) option" where
  "alloc_xenheap_pages env s order memflags = do {
     (s, pg) \<leftarrow> alloc_domheap_pages env s None order memflags;
     case pg of None \<Rightarrow> Some (s, None)
     | Some pg \<Rightarrow>
         Some (fold (\<lambda>i. upd_page i (\<lambda>p. p\<lparr>count_info := count_info p OR PGC_xen_heap\<rparr>)) [pg..<pg + 2 ^ order] s, Some pg)
   }"

definition free_xenheap_pages :: "mem_env \<Rightarrow> heap_state \<Rightarrow> nat option \<Rightarrow> nat \<Rightarrow> heap_state option" where
  "free_xenheap_pages env s v order =
     (case v of None \<Rightarrow> Some s
      | Some pg \<Rightarrow> free_heap_pages env
          (fold (\<lambda>i. upd_page i (\<lambda>p. p\<lparr>count_info := count_info p AND NOT PGC_xen_heap\<rparr>)) [pg..<pg + 2 ^ order] s) pg order)"

end
