(* ===== verification/Buddy_Facts.thy ===== *)
theory Buddy_Facts
  imports Page_Alloc Bit_Search
begin

text \<open>
  The structure that the buddy allocator maintains: every free page lies in exactly one listed chunk; a chunk is aligned to
  its size, lies in one node and one zone, and its head records its order.  During an operation one more chunk, the
  one at hand, is free but not listed; it is the set \<open>C\<close> below.
\<close>

unbundle bit_operations_syntax

section \<open>Chunks\<close>

definition chunk :: "nat \<Rightarrow> nat \<Rightarrow> nat set" where
  "chunk h order = {h..<h + 2 ^ order}"

definition zone_of :: "nat \<Rightarrow> nat" where
  "zone_of p = bit_length p - 1"

text \<open>
  The pages the allocator may hold: below the top of the highest zone, not page 0, and not the first page of a node unless
  that node begins at a multiple of the largest chunk.
\<close>

definition managed :: "mem_env \<Rightarrow> nat \<Rightarrow> bool" where
  "managed env p \<longleftrightarrow> 0 < p \<and> p < 2 ^ NR_ZONES \<and> mfn_valid env p \<and>
     (phys_to_nid env p = phys_to_nid env (p - 1) \<or> 2 ^ MAX_ORDER dvd p)"

lemma mem_chunk: "p \<in> chunk h order \<longleftrightarrow> h \<le> p \<and> p < h + 2 ^ order"
  by (simp add: chunk_def)

lemma chunk_simps [simp]:
  "h \<in> chunk h order" "finite (chunk h order)" "card (chunk h order) = 2 ^ order" "chunk h order \<noteq> {}"
  by (auto simp: chunk_def)

lemma chunk_Suc: "chunk h (Suc j) = chunk h j \<union> chunk (h + 2 ^ j) j"
  by (auto simp: chunk_def)

lemma chunk_halves_disjoint: "chunk h j \<inter> chunk (h + 2 ^ j) j = {}"
  by (auto simp: chunk_def)

lemma dvd_gap:
  assumes "d dvd (a :: nat)" "d dvd b" "a < b"
  shows "a + d \<le> b"
proof -
  obtain k l where k: "a = d * k" "b = d * l" using assms(1,2) by (auto elim!: dvdE)
  then have "k < l" using assms(3) by auto
  then have "d * (k + 1) \<le> d * l" by (intro mult_le_mono2) simp
  then show ?thesis using k by simp
qed

lemma pow2_dvd_mono: "i \<le> j \<Longrightarrow> 2 ^ j dvd x \<Longrightarrow> 2 ^ i dvd (x :: nat)"
  by (rule power_le_dvd)

text \<open>Two aligned chunks that meet are nested.\<close>

lemma aligned_meet:
  assumes "2 ^ i dvd (h :: nat)" "2 ^ j dvd h'" "chunk h i \<inter> chunk h' j \<noteq> {}" "i \<le> j"
  shows "chunk h i \<subseteq> chunk h' j"
proof -
  obtain p where p: "h \<le> p" "p < h + 2 ^ i" "h' \<le> p" "p < h' + 2 ^ j"
    using assms(3) unfolding chunk_def by (meson IntE atLeastLessThan_iff ex_in_conv)
  have d: "2 ^ i dvd h'" "(2 :: nat) ^ i dvd h' + 2 ^ j"
    using pow2_dvd_mono [OF assms(4,2)] assms(4) by (simp_all add: le_imp_power_dvd)
  have "h' \<le> h" using dvd_gap [OF assms(1) d(1)] p by (meson leI le_trans linorder_not_less)
  moreover have "h + 2 ^ i \<le> h' + 2 ^ j" using dvd_gap [OF assms(1) d(2)] p by simp
  ultimately show ?thesis by (auto simp: chunk_def)
qed

lemma zone_of_bounds:
  assumes "0 < p"
  shows "2 ^ zone_of p \<le> p" "p < 2 ^ (zone_of p + 1)"
proof -
  obtain k where "2 ^ k \<le> p" "p < 2 ^ (k + 1)" using ex_power_ivl1 [of 2 p] assms by auto
  moreover from this have "zone_of p = k" by (simp add: zone_of_def bit_length_eq)
  ultimately show "2 ^ zone_of p \<le> p" "p < 2 ^ (zone_of p + 1)" by simp_all
qed

lemma zone_of_eq: "2 ^ k \<le> p \<Longrightarrow> p < 2 ^ (k + 1) \<Longrightarrow> zone_of p = k"
  by (simp add: zone_of_def bit_length_eq)

lemma zone_chunk:
  assumes "2 ^ order dvd h" "0 < h" "p \<in> chunk h order"
  shows "zone_of p = zone_of h"
proof (rule zone_of_eq)
  let ?k = "zone_of h"
  note h = zone_of_bounds [OF assms(2)]
  have "(2 :: nat) ^ order \<le> h" using assms(1,2) by (rule dvd_imp_le)
  then have "(2 :: nat) ^ order < 2 ^ (?k + 1)" using h(2) by linarith
  then have "order < ?k + 1" by (rule power_less_imp_less_exp [rotated]) simp
  then have "(2 :: nat) ^ order dvd 2 ^ (?k + 1)" by (intro le_imp_power_dvd) simp
  then have "h + 2 ^ order \<le> 2 ^ (?k + 1)" by (intro dvd_gap [OF assms(1)] h(2))
  then show "2 ^ ?k \<le> p" "p < 2 ^ (?k + 1)" using assms(3) h(1) by (auto simp: chunk_def)
qed

lemma node_chunk:
  assumes "2 ^ order dvd h" "order \<le> MAX_ORDER" "\<forall>p \<in> chunk h order. managed env p" "p \<in> chunk h order"
  shows "phys_to_nid env p = phys_to_nid env h"
proof -
  have "phys_to_nid env (h + i) = phys_to_nid env h" if "i < 2 ^ order" for i
    using that
  proof (induction i)
    case (Suc i)
    have "\<not> 2 ^ order dvd h + Suc i"
    proof
      assume "2 ^ order dvd h + Suc i"
      then have "2 ^ order dvd Suc i" using dvd_add_right_iff [OF assms(1)] by blast
      then show False using Suc.prems by (auto dest: dvd_imp_le)
    qed
    then have "\<not> 2 ^ MAX_ORDER dvd h + Suc i" using pow2_dvd_mono [OF assms(2)] by blast
    moreover have "managed env (h + Suc i)" using assms(3) Suc.prems by (simp add: chunk_def)
    ultimately show ?case using Suc by (simp add: managed_def)
  qed simp
  moreover have "p - h < 2 ^ order" "h + (p - h) = p" using assms(4) unfolding mem_chunk by linarith+
  ultimately show ?thesis by metis
qed

section \<open>The invariant of the lists\<close>

definition free_page :: "heap_state \<Rightarrow> nat \<Rightarrow> bool" where
  "free_page s p \<longleftrightarrow> page_state_is (frame_table s p) PGC_state_free"

definition listed :: "heap_state \<Rightarrow> nat \<Rightarrow> nat \<Rightarrow> bool" where
  "listed s h order \<longleftrightarrow> (\<exists>node zone. h \<in> set (heap s node zone order))"

definition head_ok :: "mem_env \<Rightarrow> heap_state \<Rightarrow> nat \<Rightarrow> nat \<Rightarrow> nat \<Rightarrow> nat \<Rightarrow> bool" where
  "head_ok env s node zone order h \<longleftrightarrow> order \<le> MAX_ORDER \<and> 2 ^ order dvd h \<and> PFN_ORDER (frame_table s h) = order \<and>
     node = phys_to_nid env h \<and> zone = zone_of h"

definition chunks_ok :: "mem_env \<Rightarrow> heap_state \<Rightarrow> nat set \<Rightarrow> bool" where
  "chunks_ok env s C \<longleftrightarrow>
     (\<forall>node zone order. distinct (heap s node zone order)) \<and>
     (\<forall>node zone order. \<forall>h \<in> set (heap s node zone order). head_ok env s node zone order h) \<and>
     (\<forall>h order. listed s h order \<longrightarrow> chunk h order \<inter> C = {}) \<and>
     (\<forall>h order h' order'. listed s h order \<and> listed s h' order' \<and> chunk h order \<inter> chunk h' order' \<noteq> {} \<longrightarrow>
        h = h' \<and> order = order') \<and>
     (\<forall>p. free_page s p \<longleftrightarrow> p \<in> C \<or> (\<exists>h order. listed s h order \<and> p \<in> chunk h order)) \<and>
     (\<forall>p. free_page s p \<longrightarrow> count_info (frame_table s p) = PGC_state_free \<and> managed env p)"

lemma chunks_okD:
  assumes "chunks_ok env s C"
  shows "distinct (heap s node zone order)"
    "h \<in> set (heap s node zone order) \<Longrightarrow> head_ok env s node zone order h"
    "listed s h order \<Longrightarrow> chunk h order \<inter> C = {}"
    "listed s h order \<Longrightarrow> listed s h' order' \<Longrightarrow> chunk h order \<inter> chunk h' order' \<noteq> {} \<Longrightarrow> h = h' \<and> order = order'"
    "free_page s p \<longleftrightarrow> p \<in> C \<or> (\<exists>h order. listed s h order \<and> p \<in> chunk h order)"
    "free_page s p \<Longrightarrow> count_info (frame_table s p) = PGC_state_free \<and> managed env p"
  using assms unfolding chunks_ok_def by blast+

lemma listed_head:
  assumes "chunks_ok env s C" "listed s h order"
  shows "head_ok env s (phys_to_nid env h) (zone_of h) order h" "h \<in> set (heap s (phys_to_nid env h) (zone_of h) order)"
proof -
  obtain node zone where h: "h \<in> set (heap s node zone order)" using assms(2) by (auto simp: listed_def)
  then have "head_ok env s node zone order h" using chunks_okD(2) assms(1) by blast
  moreover from this have "node = phys_to_nid env h" "zone = zone_of h" by (simp_all add: head_ok_def)
  ultimately show "head_ok env s (phys_to_nid env h) (zone_of h) order h" "h \<in> set (heap s (phys_to_nid env h) (zone_of h) order)"
    using h by simp_all
qed

section \<open>Taking chunks off and putting them on the lists\<close>

lemma state_simps [simp]:
  "frame_table (upd_heap n z j l s) = frame_table s" "avail (upd_heap n z j l s) = avail s"
  "total_avail_pages (upd_heap n z j l s) = total_avail_pages s" "mem_domains (upd_heap n z j l s) = mem_domains s"
  "heap (upd_page p f s) = heap s" "avail (upd_page p f s) = avail s"
  "total_avail_pages (upd_page p f s) = total_avail_pages s" "mem_domains (upd_page p f s) = mem_domains s"
  "frame_table (upd_page p f s) q = (if q = p then f (frame_table s p) else frame_table s q)"
  "heap (upd_heap n z j l s) n' z' j' = (if n' = n \<and> z' = z \<and> j' = j then l else heap s n' z' j')"
  by (simp_all add: upd_heap_def upd_page_def)

lemma order_simps [simp]:
  "count_info (set_PFN_ORDER j p) = count_info p" "page_u (set_PFN_ORDER j p) = page_u p"
  "tlbflush_timestamp (set_PFN_ORDER j p) = tlbflush_timestamp p"
  by (simp_all add: set_PFN_ORDER_def)

lemma PFN_ORDER_set [simp]: "j \<le> MAX_ORDER \<Longrightarrow> PFN_ORDER (set_PFN_ORDER j p) = j"
  by (simp add: PFN_ORDER_def set_PFN_ORDER_def MAX_ORDER_def unat_of_nat)

text \<open>Removing the chunk \<open>h\<close> from its list makes it the chunk at hand.\<close>

lemma chunks_ok_remove:
  assumes ok: "chunks_ok env s C" and h: "h \<in> set (heap s n z j)" and l: "set l = set (heap s n z j) - {h}" "distinct l"
  shows "chunks_ok env (upd_heap n z j l s) (C \<union> chunk h j)"
proof -
  let ?s = "upd_heap n z j l s"
  note D = chunks_okD [OF ok]
  have hl: "listed s h j" using h by (auto simp: listed_def)
  have lst: "listed ?s h' j' \<longleftrightarrow> listed s h' j' \<and> (h', j') \<noteq> (h, j)" for h' j'
  proof
    assume "listed ?s h' j'"
    then obtain n' z' where i: "h' \<in> set (heap ?s n' z' j')" by (auto simp: listed_def)
    then have i': "h' \<in> set (heap s n' z' j')" using l(1) by (auto split: if_splits)
    have "(h', j') \<noteq> (h, j)"
    proof
      assume e: "(h', j') = (h, j)"
      then have "n' = n" "z' = z" using D(2) [OF h] D(2) [OF i'] by (simp_all add: head_ok_def)
      then show False using i e l(1) by simp
    qed
    then show "listed s h' j' \<and> (h', j') \<noteq> (h, j)" using i' by (auto simp: listed_def)
  next
    assume a: "listed s h' j' \<and> (h', j') \<noteq> (h, j)"
    then obtain n' z' where "h' \<in> set (heap s n' z' j')" by (auto simp: listed_def)
    then have "h' \<in> set (heap ?s n' z' j')" using a l(1) by auto
    then show "listed ?s h' j'" unfolding listed_def by blast
  qed
  have free: "free_page ?s p \<longleftrightarrow> free_page s p" for p by (simp add: free_page_def)
  show ?thesis unfolding chunks_ok_def
  proof (intro conjI allI ballI impI)
    show "distinct (heap ?s n' z' j')" for n' z' j' using D(1) l(2) by simp
    show "head_ok env ?s n' z' j' h'" if "h' \<in> set (heap ?s n' z' j')" for n' z' j' h'
    proof -
      have "h' \<in> set (heap s n' z' j')" using that l(1) by (auto split: if_splits)
      then show ?thesis using D(2) by (simp add: head_ok_def)
    qed
    show "chunk h' j' \<inter> (C \<union> chunk h j) = {}" if "listed ?s h' j'" for h' j'
      using that D(3) [of h' j'] D(4) [of h' j' h j] hl unfolding lst by blast
    show "h1 = h2" "j1 = j2" if "listed ?s h1 j1 \<and> listed ?s h2 j2 \<and> chunk h1 j1 \<inter> chunk h2 j2 \<noteq> {}" for h1 j1 h2 j2
      using that D(4) [of h1 j1 h2 j2] unfolding lst by blast+
    show "free_page ?s p \<longleftrightarrow> p \<in> C \<union> chunk h j \<or> (\<exists>h' j'. listed ?s h' j' \<and> p \<in> chunk h' j')" for p
      unfolding free D(5) [of p] lst using hl by blast
    show "count_info (frame_table ?s p) = PGC_state_free" "managed env p" if "free_page ?s p" for p
      using that D(6) [of p] unfolding free by simp_all
  qed
qed

text \<open>A part of the chunk at hand that is an aligned chunk goes on its list.\<close>

lemma chunks_ok_insert:
  assumes ok: "chunks_ok env s C" and h: "chunk h j \<subseteq> C" "2 ^ j dvd h" "j \<le> MAX_ORDER"
  shows "chunks_ok env (heap_add_tail h (phys_to_nid env h) (zone_of h) j (upd_page h (set_PFN_ORDER j) s)) (C - chunk h j)"
    (is "chunks_ok env ?s _")
proof -
  note D = chunks_okD [OF ok]
  let ?n = "phys_to_nid env h" and ?z = "zone_of h"
  have heap: "h' \<in> set (heap ?s n z i) \<longleftrightarrow> h' \<in> set (heap s n z i) \<or> n = ?n \<and> z = ?z \<and> i = j \<and> h' = h" for h' n z i
    by (auto simp: heap_add_tail_def)
  have new: "\<not> listed s h i" for i using D(3) [of h i] h(1) by (metis IntI chunk_simps(1) emptyE subsetD)
  have lst: "listed ?s h' j' \<longleftrightarrow> listed s h' j' \<or> h' = h \<and> j' = j" for h' j'
    unfolding listed_def heap by blast
  have page: "count_info (frame_table ?s p) = count_info (frame_table s p)" for p by (simp add: heap_add_tail_def)
  have free: "free_page ?s p \<longleftrightarrow> free_page s p" for p by (simp add: free_page_def page_state_is_def page)
  show ?thesis unfolding chunks_ok_def
  proof (intro conjI allI ballI impI)
    have "h \<notin> set (heap s ?n ?z j)" using new [of j] by (auto simp: listed_def)
    then show "distinct (heap ?s n' z' j')" for n' z' j' using D(1) by (simp add: heap_add_tail_def)
    show "head_ok env ?s n' z' j' h'" if "h' \<in> set (heap ?s n' z' j')" for n' z' j' h'
    proof (cases "h' = h")
      case True
      then have "n' = ?n" "z' = ?z" "j' = j" using that new [of j'] unfolding heap by (auto simp: listed_def)
      then show ?thesis using True h by (simp add: head_ok_def heap_add_tail_def)
    next
      case False
      then have "h' \<in> set (heap s n' z' j')" using that unfolding heap by simp
      then show ?thesis using D(2) False by (simp add: head_ok_def heap_add_tail_def)
    qed
    show "chunk h' j' \<inter> (C - chunk h j) = {}" if "listed ?s h' j'" for h' j'
      using that D(3) [of h' j'] unfolding lst by blast
    have apart: "chunk h' j' \<inter> chunk h j = {}" if "listed s h' j'" for h' j' using D(3) [OF that] h(1) by blast
    show "h1 = h2" "j1 = j2" if "listed ?s h1 j1 \<and> listed ?s h2 j2 \<and> chunk h1 j1 \<inter> chunk h2 j2 \<noteq> {}" for h1 j1 h2 j2
      using that D(4) [of h1 j1 h2 j2] apart [of h1 j1] apart [of h2 j2] unfolding lst by (auto simp: Int_commute)
    show "free_page ?s p \<longleftrightarrow> p \<in> C - chunk h j \<or> (\<exists>h' j'. listed ?s h' j' \<and> p \<in> chunk h' j')" for p
      unfolding free D(5) [of p] lst using h(1) by blast
    show "count_info (frame_table ?s p) = PGC_state_free" "managed env p" if "free_page ?s p" for p
      using that D(6) [of p] unfolding free page by simp_all
  qed
qed

end
