(* ===== verification/Buddy_Alloc.thy ===== *)
theory Buddy_Alloc
  imports Buddy_Facts
begin

text \<open>
  Allocation from the buddy allocator: the search finds a chunk whenever there is one, halving it keeps the structure of the
  lists, and the pages handed out are exactly the ones that cease to be free.
\<close>

unbundle bit_operations_syntax

section \<open>Changes that only move free pages between lists\<close>

definition relisted :: "heap_state \<Rightarrow> heap_state \<Rightarrow> bool" where
  "relisted s s' \<longleftrightarrow> (\<exists>T H. s' = s\<lparr>frame_table := T, heap := H\<rparr> \<and>
     (\<forall>p. T p = (frame_table s p)\<lparr>page_v := page_v (T p)\<rparr> \<and> (\<not> free_page s p \<longrightarrow> T p = frame_table s p)))"

lemma relistedD:
  assumes "relisted s s'"
  shows "count_info (frame_table s' p) = count_info (frame_table s p)" "page_u (frame_table s' p) = page_u (frame_table s p)"
    "tlbflush_timestamp (frame_table s' p) = tlbflush_timestamp (frame_table s p)"
    "\<not> free_page s p \<Longrightarrow> frame_table s' p = frame_table s p" "free_page s' p \<longleftrightarrow> free_page s p"
    "avail s' = avail s" "total_avail_pages s' = total_avail_pages s"
    "midsize_alloc_zone_pages s' = midsize_alloc_zone_pages s" "mem_domains s' = mem_domains s"
    "tlb_flushes s' = tlb_flushes s" "need_tlbflush (frame_table s' p) = need_tlbflush (frame_table s p)"
    "scrubbed s' = scrubbed s"
proof -
  obtain T H where s': "s' = s\<lparr>frame_table := T, heap := H\<rparr>"
    and T: "\<And>p. T p = (frame_table s p)\<lparr>page_v := page_v (T p)\<rparr>" "\<And>p. \<not> free_page s p \<Longrightarrow> T p = frame_table s p"
    using assms unfolding relisted_def by blast
  show c: "count_info (frame_table s' p) = count_info (frame_table s p)" for p using T(1) [of p] s' by (metis page_info.select_convs(1) page_info.surjective page_info.update_convs(3) heap_state.select_convs(1) heap_state.surjective heap_state.update_convs(1,2))
  show u: "page_u (frame_table s' p) = page_u (frame_table s p)" by (simp add: s') (subst T(1), simp)
  show "tlbflush_timestamp (frame_table s' p) = tlbflush_timestamp (frame_table s p)" by (simp add: s') (subst T(1), simp)
  show "frame_table s' p = frame_table s p" if "\<not> free_page s p" using T(2) [OF that] by (simp add: s')
  show "free_page s' p \<longleftrightarrow> free_page s p" by (simp add: free_page_def page_state_is_def c)
  show "need_tlbflush (frame_table s' p) = need_tlbflush (frame_table s p)" by (simp add: need_tlbflush_def u)
qed (use assms in \<open>auto simp: relisted_def\<close>)

lemma relisted_refl [simp]: "relisted s s"
  unfolding relisted_def by (rule exI [of _ "frame_table s"], rule exI [of _ "heap s"]) simp

lemma relisted_upd_heap [simp]: "relisted s (upd_heap n z j l s)"
  unfolding relisted_def upd_heap_def by (rule exI [of _ "frame_table s"], rule exI) auto

lemma relisted_set_order: "free_page s p \<Longrightarrow> relisted s (upd_page p (set_PFN_ORDER j) s)"
  unfolding relisted_def upd_page_def set_PFN_ORDER_def
  by (rule exI [of _ "(frame_table s)(p := (frame_table s p)\<lparr>page_v := of_nat j\<rparr>)"], rule exI [of _ "heap s"]) auto

lemma relisted_trans:
  assumes "relisted a b" "relisted b c"
  shows "relisted a c"
proof -
  obtain T H where b: "b = a\<lparr>frame_table := T, heap := H\<rparr>"
    "\<And>p. T p = (frame_table a p)\<lparr>page_v := page_v (T p)\<rparr>" "\<And>p. \<not> free_page a p \<Longrightarrow> T p = frame_table a p"
    using assms(1) unfolding relisted_def by blast
  obtain T' H' where c: "c = b\<lparr>frame_table := T', heap := H'\<rparr>"
    "\<And>p. T' p = (frame_table b p)\<lparr>page_v := page_v (T' p)\<rparr>" "\<And>p. \<not> free_page b p \<Longrightarrow> T' p = frame_table b p"
    using assms(2) unfolding relisted_def by blast
  have "T' p = (frame_table a p)\<lparr>page_v := page_v (T' p)\<rparr>" for p using b(2) [of p] c(2) [of p] unfolding b(1) by (metis heap_state.select_convs(1) heap_state.surjective heap_state.update_convs(1,2) page_info.surjective page_info.update_convs(3))
  moreover have "T' p = frame_table a p" if "\<not> free_page a p" for p
    using that relistedD(4,5) [OF assms(1), of p] c(3) [of p] by simp
  ultimately show ?thesis unfolding relisted_def
    by (intro exI [of _ T'] exI [of _ H']) (simp add: b(1) c(1))
qed

lemma relisted_add:
  assumes "free_page s h"
  shows "relisted s (heap_add_tail h n z j (upd_page h (set_PFN_ORDER i) s))"
  using relisted_trans [OF relisted_set_order [OF assms] relisted_upd_heap] by (simp add: heap_add_tail_def)

section \<open>Buddies\<close>

definition buddy :: "nat \<Rightarrow> nat \<Rightarrow> nat" where
  "buddy h j = (if bit h j then h - 2 ^ j else h + 2 ^ j)"

text \<open>No chunk is listed together with its buddy: freeing always merges them.\<close>

definition coalesced :: "heap_state \<Rightarrow> bool" where
  "coalesced s \<longleftrightarrow> (\<forall>h j. listed s h j \<and> j < MAX_ORDER \<longrightarrow> \<not> listed s (buddy h j) j)"

lemma bit_aligned: "2 ^ j dvd (h :: nat) \<Longrightarrow> bit h j \<longleftrightarrow> \<not> 2 ^ (j + 1) dvd h"
  by (auto simp: bit_iff_odd elim!: dvdE)

lemma buddy_aligned:
  assumes "2 ^ j dvd h"
  shows "2 ^ j dvd buddy h j" "buddy (buddy h j) j = h" "bit h j \<Longrightarrow> 2 ^ j \<le> h"
    "bit h j \<Longrightarrow> 2 ^ (j + 1) dvd h - 2 ^ j" "\<not> bit h j \<Longrightarrow> 2 ^ (j + 1) dvd h"
proof -
  obtain k where k: "h = 2 ^ j * k" using assms by (auto elim!: dvdE)
  have b: "bit (2 ^ j * k) j \<longleftrightarrow> odd k" for k :: nat by (simp add: bit_iff_odd)
  show "2 ^ j dvd buddy h j" using assms by (simp add: buddy_def)
  show "2 ^ j \<le> h" if "bit h j" using that b [of k] k by (cases k) auto
  show "2 ^ (j + 1) dvd h - 2 ^ j" if "bit h j"
  proof -
    have "odd k" using that b k by simp
    then obtain i where "k = 2 * i + 1" by (rule oddE)
    then show ?thesis by (simp add: k algebra_simps)
  qed
  show "2 ^ (j + 1) dvd h" if "\<not> bit h j" using that b k by (auto elim!: evenE)
  show "buddy (buddy h j) j = h"
  proof (cases "odd k")
    case True
    then obtain i where i: "k = 2 * i + 1" by (auto elim!: oddE)
    have "h - 2 ^ j = 2 ^ j * (2 * i)" by (simp add: k i algebra_simps)
    then show ?thesis using b [of k] b [of "2 * i"] True k i by (simp add: buddy_def algebra_simps)
  next
    case False
    have "h + 2 ^ j = 2 ^ j * (k + 1)" by (simp add: k algebra_simps)
    then show ?thesis using b [of k] b [of "k + 1"] False k by (simp add: buddy_def add.commute)
  qed
qed

lemma coalesced_fewer:
  assumes "coalesced s" "\<And>h j. listed s' h j \<Longrightarrow> listed s h j"
  shows "coalesced s'"
  using assms unfolding coalesced_def by blast

lemma listed_add:
  "listed (heap_add_tail h n z j (upd_page p f s)) h' j' \<longleftrightarrow> listed s h' j' \<or> h' = h \<and> j' = j"
proof -
  have "h' \<in> set (heap (heap_add_tail h n z j (upd_page p f s)) n' z' j') \<longleftrightarrow>
      h' \<in> set (heap s n' z' j') \<or> n' = n \<and> z' = z \<and> j' = j \<and> h' = h" for n' z'
    by (auto simp: heap_add_tail_def)
  then show ?thesis unfolding listed_def by blast
qed

lemma coalesced_add:
  assumes "coalesced s" "2 ^ j dvd h" "j < MAX_ORDER \<Longrightarrow> \<not> listed s (buddy h j) j" "\<And>h' j'. listed s h' j' \<Longrightarrow> 2 ^ j' dvd h'"
  shows "coalesced (heap_add_tail h n z j (upd_page p f s))"
  unfolding coalesced_def listed_add
proof (intro allI impI notI)
  fix h' j' assume a: "(listed s h' j' \<or> h' = h \<and> j' = j) \<and> j' < MAX_ORDER" "listed s (buddy h' j') j' \<or> buddy h' j' = h \<and> j' = j"
  have self: "buddy h j \<noteq> h"
  proof
    assume e: "buddy h j = h"
    have z: "(0 :: nat) < 2 ^ j" by simp
    show False
    proof (cases "bit h j")
      case True
      then have "h - 2 ^ j = h" "2 ^ j \<le> h" using e buddy_aligned(3) [OF assms(2)] by (simp_all add: buddy_def)
      then show False using z by linarith
    qed (use e in \<open>simp add: buddy_def\<close>)
  qed
  from a consider "listed s h' j'" "listed s (buddy h' j') j'" | "listed s h' j" "j' = j" "buddy h' j = h"
    | "h' = h" "j' = j" "listed s (buddy h j) j" | "h' = h" "j' = j" "buddy h j = h" by auto
  then show False
  proof cases
    case 2
    then have "h' = buddy h j" using buddy_aligned(2) [OF assms(4)] by metis
    then show False using 2 a(1) assms(3) by simp
  qed (use a(1) assms(1,3) self in \<open>auto simp: coalesced_def\<close>)
qed

section \<open>Halving\<close>

lemma chunk_free:
  assumes "chunks_ok env s C" "p \<in> C"
  shows "free_page s p" "managed env p" "count_info (frame_table s p) = PGC_state_free"
  using chunks_okD(5,6) [OF assms(1), of p] assms(2) by blast+

text \<open>The lower half goes on its list, the upper half stays at hand.\<close>

lemma halve_step:
  assumes ok: "chunks_ok env s (chunk pg (Suc j))" and a: "2 ^ Suc j dvd pg" "Suc j \<le> MAX_ORDER"
    and nz: "node = phys_to_nid env pg" "zone = zone_of pg"
  defines "s' \<equiv> heap_add_tail pg node zone j (upd_page pg (set_PFN_ORDER j) s)"
  shows "chunks_ok env s' (chunk (pg + 2 ^ j) j)" "2 ^ j dvd pg + 2 ^ j" "relisted s s'"
    "node = phys_to_nid env (pg + 2 ^ j)" "zone = zone_of (pg + 2 ^ j)" "coalesced s \<Longrightarrow> coalesced s'"
proof -
  have sub: "chunk pg j \<subseteq> chunk pg (Suc j)" and up: "pg + 2 ^ j \<in> chunk pg (Suc j)" by (auto simp: chunk_Suc)
  have d: "2 ^ j dvd pg" using pow2_dvd_mono [OF _ a(1), of j] by simp
  have "chunk pg (Suc j) - chunk pg j = chunk (pg + 2 ^ j) j" using chunk_halves_disjoint [of pg j] by (auto simp: chunk_Suc)
  then show "chunks_ok env s' (chunk (pg + 2 ^ j) j)"
    using chunks_ok_insert [OF ok sub d] a(2) by (simp add: s'_def nz)
  show "2 ^ j dvd pg + 2 ^ j" using d by simp
  have free: "free_page s pg" using chunk_free(1) [OF ok] by simp
  then show "relisted s s'" unfolding s'_def by (rule relisted_add)
  have m: "\<forall>p \<in> chunk pg (Suc j). managed env p" using chunk_free(2) [OF ok] by blast
  show "node = phys_to_nid env (pg + 2 ^ j)" using node_chunk [OF a m up] nz by simp
  have "0 < pg" using m by (auto simp: managed_def dest: bspec [where x = pg])
  then show "zone = zone_of (pg + 2 ^ j)" using zone_chunk [OF a(1) _ up] nz by simp
  show "coalesced s'" if "coalesced s" unfolding s'_def
  proof (rule coalesced_add [OF that d])
    have "\<not> bit pg j" using bit_aligned [OF d] a(1) by simp
    then have "buddy pg j \<in> chunk pg (Suc j)" using up by (simp add: buddy_def)
    then show "\<not> listed s (buddy pg j) j" using chunks_okD(3) [OF ok, of "buddy pg j" j] chunk_simps(1) [of "buddy pg j" j] by blast
    show "2 ^ j' dvd h'" if "listed s h' j'" for h' j' using listed_head(1) [OF ok that] by (simp add: head_ok_def)
  qed
qed

lemma halve_spec:
  assumes "chunks_ok env s (chunk pg j)" "2 ^ j dvd pg" "j \<le> MAX_ORDER" "order \<le> j"
    "node = phys_to_nid env pg" "zone = zone_of pg" "coalesced s"
  shows "\<exists>s' pg'. halve s node zone order pg j = (s', pg') \<and> chunks_ok env s' (chunk pg' order) \<and> 2 ^ order dvd pg' \<and>
    chunk pg' order \<subseteq> chunk pg j \<and> relisted s s' \<and> node = phys_to_nid env pg' \<and> zone = zone_of pg' \<and> coalesced s'"
  using assms
proof (induction j arbitrary: s pg)
  case (Suc j)
  show ?case
  proof (cases "Suc j = order")
    case True
    then have "halve s node zone order pg (Suc j) = (s, pg)" unfolding halve.simps by simp
    then show ?thesis using Suc.prems True by auto
  next
    case False
    let ?s = "heap_add_tail pg node zone j (upd_page pg (set_PFN_ORDER j) s)"
    note step = halve_step [OF Suc.prems(1,2,3,5,6)]
    have "\<exists>s' pg'. halve ?s node zone order (pg + 2 ^ j) j = (s', pg') \<and> chunks_ok env s' (chunk pg' order) \<and> 2 ^ order dvd pg' \<and>
        chunk pg' order \<subseteq> chunk (pg + 2 ^ j) j \<and> relisted ?s s' \<and> node = phys_to_nid env pg' \<and> zone = zone_of pg' \<and> coalesced s'"
      using Suc.prems False step by (intro Suc.IH) auto
    moreover have "chunk (pg + 2 ^ j) j \<subseteq> chunk pg (Suc j)" by (simp add: chunk_Suc)
    ultimately show ?thesis using False relisted_trans [OF step(3)] by fastforce
  qed
qed simp

section \<open>Taking pages into use\<close>

definition claimed :: "page_info \<Rightarrow> page_info" where
  "claimed p = page_set_owner None (p\<lparr>count_info := PGC_state_inuse, page_u := 0\<rparr>)"

text \<open>The CPUs whose TLB may hold a stale translation of a page.\<close>

definition stale_cpus :: "mem_env \<Rightarrow> page_info \<Rightarrow> nat set" where
  "stale_cpus env p = {c \<in> set (cpu_online_map env). need_tlbflush p \<and> NEED_FLUSH env (tlbflush_time env c) (tlbflush_timestamp p)}"

lemma claim_pages_spec:
  assumes "\<forall>p \<in> {pg..<pg + n}. count_info (frame_table s p) = PGC_state_free"
  shows "\<exists>cpus'. claim_pages env s pg n cpus =
      Some (s\<lparr>frame_table := (\<lambda>p. if p \<in> {pg..<pg + n} then claimed (frame_table s p) else frame_table s p)\<rparr>, cpus') \<and>
    set cpus' = set cpus \<union> (\<Union>p \<in> {pg..<pg + n}. stale_cpus env (frame_table s p))"
  using assms
proof (induction n arbitrary: s pg cpus)
  case (Suc n)
  let ?p = "frame_table s pg" and ?s = "upd_page pg claimed s"
  let ?extra = "if need_tlbflush ?p then tlbflush_filter env (filter (\<lambda>c. c \<notin> set cpus) (cpu_online_map env)) (tlbflush_timestamp ?p) else []"
  have step: "claim_pages env s pg (Suc n) cpus = claim_pages env ?s (pg + 1) n (cpus @ ?extra)"
    using Suc.prems by (simp add: claimed_def [abs_def] Let_def)
  have i: "{pg..<pg + Suc n} = insert pg {pg + 1..<pg + 1 + n}" by auto
  obtain cpus' where c: "claim_pages env ?s (pg + 1) n (cpus @ ?extra) =
      Some (?s\<lparr>frame_table := (\<lambda>p. if p \<in> {pg + 1..<pg + 1 + n} then claimed (frame_table ?s p) else frame_table ?s p)\<rparr>, cpus')"
    "set cpus' = set (cpus @ ?extra) \<union> (\<Union>p \<in> {pg + 1..<pg + 1 + n}. stale_cpus env (frame_table ?s p))"
    using Suc.IH [of "pg + 1" ?s "cpus @ ?extra"] Suc.prems by (auto simp: i)
  have "?s\<lparr>frame_table := (\<lambda>p. if p \<in> {pg + 1..<pg + 1 + n} then claimed (frame_table ?s p) else frame_table ?s p)\<rparr> =
      s\<lparr>frame_table := (\<lambda>p. if p \<in> {pg..<pg + Suc n} then claimed (frame_table s p) else frame_table s p)\<rparr>"
    by (auto simp: upd_page_def i fun_eq_iff)
  moreover have "set cpus \<union> set ?extra = set cpus \<union> stale_cpus env ?p" by (auto simp: stale_cpus_def tlbflush_filter_def)
  ultimately show ?case using c step unfolding i by auto
qed simp

end
