(* ===== verification/Buddy_Search.thy ===== *)
theory Buddy_Search
  imports Buddy_Alloc
begin

text \<open>
  The counters of free pages, the search for a chunk over orders, zones and nodes, and the specification of
  \<^verbatim>\<open>alloc_heap_pages\<close>.
\<close>

unbundle bit_operations_syntax

section \<open>Counters\<close>

definition free_in :: "mem_env \<Rightarrow> heap_state \<Rightarrow> nat \<Rightarrow> nat \<Rightarrow> nat set" where
  "free_in env s node zone = {p. free_page s p \<and> phys_to_nid env p = node \<and> zone_of p = zone}"

definition counts_ok :: "mem_env \<Rightarrow> heap_state \<Rightarrow> bool" where
  "counts_ok env s \<longleftrightarrow> finite {p. free_page s p} \<and> total_avail_pages s = int (card {p. free_page s p}) \<and>
     (\<forall>node av zone. avail s node = Some av \<longrightarrow> av zone = int (card (free_in env s node zone))) \<and>
     (\<forall>p. free_page s p \<longrightarrow> avail s (phys_to_nid env p) \<noteq> None) \<and>
     (\<forall>node. avail s node \<noteq> None \<longrightarrow> node < MAX_NUMNODES)"

text \<open>The node that a request starts from is an index of the arrays.\<close>

definition node_ok :: "mem_env \<Rightarrow> nat \<Rightarrow> bool" where
  "node_ok env node \<longleftrightarrow> (if node = NUMA_NO_NODE then current_node env else node) < MAX_NUMNODES"

definition heap_inv :: "mem_env \<Rightarrow> heap_state \<Rightarrow> bool" where
  "heap_inv env s \<longleftrightarrow> chunks_ok env s {} \<and> counts_ok env s \<and> coalesced s"

lemma listed_in:
  assumes "chunks_ok env s C" "listed s h j"
  shows "chunk h j \<subseteq> free_in env s (phys_to_nid env h) (zone_of h)" "h < 2 ^ NR_ZONES" "0 < h"
proof -
  have h: "head_ok env s (phys_to_nid env h) (zone_of h) j h" by (rule listed_head(1) [OF assms])
  have free: "free_page s p" if "p \<in> chunk h j" for p using chunks_okD(5) [OF assms(1), of p] assms(2) that by blast
  then have m: "\<forall>p \<in> chunk h j. managed env p" using chunks_okD(6) [OF assms(1)] by blast
  have "managed env h" using m chunk_simps(1) by blast
  then show "h < 2 ^ NR_ZONES" "0 < h" by (simp_all add: managed_def)
  then show "chunk h j \<subseteq> free_in env s (phys_to_nid env h) (zone_of h)"
    using free h node_chunk [OF _ _ m] zone_chunk [of j h] unfolding free_in_def head_ok_def by blast
qed

lemma listed_count:
  assumes "heap_inv env s" "h \<in> set (heap s node zone j)"
  shows "\<exists>av. avail s node = Some av \<and> 2 ^ j \<le> av zone"
proof -
  have ok: "chunks_ok env s {}" "counts_ok env s" using assms(1) by (simp_all add: heap_inv_def)
  have l: "listed s h j" using assms(2) by (auto simp: listed_def)
  have nz: "node = phys_to_nid env h" "zone = zone_of h" using chunks_okD(2) [OF ok(1) assms(2)] by (simp_all add: head_ok_def)
  have sub: "chunk h j \<subseteq> free_in env s node zone" using listed_in(1) [OF ok(1) l] nz by simp
  moreover have fin: "finite (free_in env s node zone)"
    by (rule finite_subset [of _ "{p. free_page s p}"]) (use ok(2) in \<open>auto simp: free_in_def counts_ok_def\<close>)
  ultimately have "2 ^ j \<le> card (free_in env s node zone)" using card_mono [OF fin sub] by simp
  then have "(2 :: int) ^ j \<le> int (card (free_in env s node zone))" by (metis of_nat_le_iff of_nat_numeral of_nat_power)
  moreover have "free_page s h" using subsetD [OF sub chunk_simps(1)] by (simp add: free_in_def)
  then obtain av where "avail s node = Some av" using ok(2) nz(1) by (auto simp: counts_ok_def)
  moreover from this have "av zone = int (card (free_in env s node zone))" using ok(2) by (simp add: counts_ok_def)
  ultimately show ?thesis by simp
qed

section \<open>Search\<close>

lemma find_upt_None: "find P [a..<b] = None \<longleftrightarrow> (\<forall>j. a \<le> j \<and> j < b \<longrightarrow> \<not> P j)"
  by (auto simp: find_None_iff)

lemma find_upt_Some: "find P [a..<b] = Some j \<Longrightarrow> P j \<and> a \<le> j \<and> j < b"
  by (metis atLeastLessThan_iff atLeastLessThan_upt find_Some_iff nth_mem)

lemma zone_candidate_Some:
  assumes "zone_candidate s node zone order = Some j"
  shows "order \<le> j" "j \<le> MAX_ORDER" "heap s node zone j \<noteq> []" "\<exists>av. avail s node = Some av \<and> 2 ^ order \<le> av zone"
  using assms find_upt_Some [of "\<lambda>j. heap s node zone j \<noteq> []" order "MAX_ORDER + 1" j]
  by (auto simp: zone_candidate_def smallest_order_def not_less split: option.splits if_splits)

lemma zone_candidate_None:
  assumes "heap_inv env s" "zone_candidate s node zone order = None" "h \<in> set (heap s node zone j)"
  shows "j < order"
proof (rule ccontr)
  assume "\<not> j < order"
  then have le: "order \<le> j" by simp
  obtain av where av: "avail s node = Some av" "2 ^ j \<le> av zone" using listed_count [OF assms(1,3)] by blast
  have "(2 :: int) ^ order \<le> 2 ^ j" using le by (intro power_increasing) simp_all
  then have "\<not> av zone < 2 ^ order" using av(2) by linarith
  then have "smallest_order s node zone order = None"
    using assms(2) av(1) by (simp add: zone_candidate_def)
  moreover have "j \<le> MAX_ORDER" using assms(1,3) chunks_okD(2) by (fastforce simp: heap_inv_def head_ok_def)
  ultimately have "heap s node zone j = []" using le unfolding smallest_order_def find_upt_None by simp
  then show False using assms(3) by simp
qed

lemma scan_zones_Some:
  assumes "scan_zones s node order zone_lo zone = Some (z, j)" "zone_lo \<le> zone"
  shows "zone_candidate s node z order = Some j \<and> zone_lo \<le> z \<and> z \<le> zone"
  using assms
proof (induction zone)
  case 0
  then show ?case by (subst (asm) scan_zones.simps) (auto split: option.splits)
next
  case (Suc zone)
  then show ?case by (subst (asm) scan_zones.simps) (auto split: option.splits if_splits)
qed

lemma scan_zones_None:
  assumes "scan_zones s node order zone_lo zone = None" "zone_lo \<le> z" "z \<le> zone"
  shows "zone_candidate s node z order = None"
  using assms
proof (induction zone)
  case 0
  then show ?case by (subst (asm) scan_zones.simps) (auto split: option.splits)
next
  case (Suc zone)
  then show ?case by (subst (asm) scan_zones.simps) (cases "z = Suc zone"; auto split: option.splits if_splits)
qed

lemma scan_nodes_Some:
  assumes "scan_nodes env s order zone_lo zone_hi node n = Some (node', z, j)" "zone_lo \<le> zone_hi"
  shows "zone_candidate s node' z order = Some j \<and> zone_lo \<le> z \<and> z \<le> zone_hi"
  using assms
proof (induction n arbitrary: node)
  case (Suc n)
  then show ?case using scan_zones_Some by (fastforce simp: Let_def split: option.splits)
qed simp

text \<open>The online nodes in order; the search steps cyclically through them.\<close>

definition online_nodes :: "mem_env \<Rightarrow> nat list" where
  "online_nodes env = filter (node_online env) [0..<MAX_NUMNODES]"

lemma find_filter: "find P xs = (case filter P xs of [] \<Rightarrow> None | x # _ \<Rightarrow> Some x)"
  by (induction xs) auto

lemma next_online:
  assumes "online_nodes env = xs @ n # ys"
  shows "next_node env n = (case ys of [] \<Rightarrow> MAX_NUMNODES | y # _ \<Rightarrow> y)" "n < MAX_NUMNODES"
proof -
  have "n \<in> set (online_nodes env)" using assms by simp
  then have on: "node_online env n" and n: "n < MAX_NUMNODES" by (simp_all add: online_nodes_def)
  then show "n < MAX_NUMNODES" by simp
  have "[0..<MAX_NUMNODES] = [0..<n] @ n # [n + 1..<MAX_NUMNODES]"
    using n by (metis Suc_eq_plus1 less_imp_le upt_add_eq_append upt_conv_Cons le_add_diff_inverse le0)
  then have split: "xs @ n # ys = filter (node_online env) [0..<n] @ n # filter (node_online env) [n + 1..<MAX_NUMNODES]"
    using assms [symmetric] on by (simp add: online_nodes_def)
  have "distinct (xs @ n # ys)" using assms [symmetric] by (simp add: online_nodes_def)
  then have "n \<notin> set xs" "n \<notin> set ys" by simp_all
  then have "ys = filter (node_online env) [n + 1..<MAX_NUMNODES]"
    using append_Cons_eq_iff [THEN iffD1, OF _ _ split] by simp
  then show "next_node env n = (case ys of [] \<Rightarrow> MAX_NUMNODES | y # _ \<Rightarrow> y)"
    by (simp add: next_node_def find_filter split: list.splits)
qed

lemma scan_nodes_from:
  assumes "scan_nodes env s order lo hi (hd ys) k = None" "online_nodes env = xs @ ys" "ys \<noteq> []"
  shows "(\<forall>n \<in> set (take k ys). scan_zones s n order lo hi = None) \<and>
    (length ys \<le> k \<longrightarrow> scan_nodes env s order lo hi (hd (online_nodes env)) (k - length ys) = None)"
  using assms
proof (induction ys arbitrary: xs k)
  case (Cons y ys)
  show ?case
  proof (cases k)
    case (Suc k')
    have y: "scan_zones s y order lo hi = None" using Cons.prems(1) Suc by (auto split: option.splits)
    show ?thesis
    proof (cases ys)
      case Nil
      have "next_node env y = MAX_NUMNODES" using next_online [OF Cons.prems(2)] Nil by simp
      moreover have "first_node env = hd (online_nodes env)"
        using Cons.prems(2) by (auto simp: first_node_def find_filter online_nodes_def [symmetric] split: list.splits)
      ultimately have "scan_nodes env s order lo hi (hd (online_nodes env)) k' = None"
        using Cons.prems(1) Suc y by (simp add: Let_def)
      then show ?thesis using y Suc Nil by simp
    next
      case (Cons z zs)
      have "next_node env y = z" "z < MAX_NUMNODES"
        using next_online [OF Cons.prems(2)] next_online(2) [of env "xs @ [y]" z zs] Cons.prems(2) Cons by auto
      then have "scan_nodes env s order lo hi (hd ys) k' = None" using Cons.prems(1) Suc y Cons by (simp add: Let_def)
      then show ?thesis using Cons.IH [of k' "xs @ [y]"] Cons.prems(2) Cons y Suc by simp
    qed
  qed simp
qed simp

lemma scan_nodes_None:
  assumes "scan_nodes env s order lo hi node (num_online_nodes env) = None" "node_online env node" "node < MAX_NUMNODES"
    "node_online env n" "n < MAX_NUMNODES"
  shows "scan_zones s n order lo hi = None"
proof -
  have "node \<in> set (online_nodes env)" "n \<in> set (online_nodes env)" using assms(2-5) by (simp_all add: online_nodes_def)
  then obtain xs ys where on: "online_nodes env = xs @ node # ys" by (meson split_list)
  let ?k = "num_online_nodes env"
  have k: "?k = length xs + length (node # ys)" using on by (simp add: num_online_nodes_def online_nodes_def [symmetric])
  have 1: "(\<forall>n \<in> set (take ?k (node # ys)). scan_zones s n order lo hi = None) \<and>
      (length (node # ys) \<le> ?k \<longrightarrow> scan_nodes env s order lo hi (hd (online_nodes env)) (?k - length (node # ys)) = None)"
    using assms(1) on by (intro scan_nodes_from) simp_all
  have "take ?k (node # ys) = node # ys" "length (node # ys) \<le> ?k" "?k - length (node # ys) = length xs" using k by simp_all
  then have a: "\<forall>n \<in> set (node # ys). scan_zones s n order lo hi = None" and b: "scan_nodes env s order lo hi (hd (online_nodes env)) (length xs) = None"
    using 1 by simp_all
  have "(\<forall>n \<in> set (take (length xs) (online_nodes env)). scan_zones s n order lo hi = None) \<and>
      (length (online_nodes env) \<le> length xs \<longrightarrow> scan_nodes env s order lo hi (hd (online_nodes env)) (length xs - length (online_nodes env)) = None)"
    using b on by (intro scan_nodes_from [of _ _ _ _ _ _ _ "[]"]) simp_all
  then have "\<forall>n \<in> set xs. scan_zones s n order lo hi = None" using on by simp
  then show ?thesis using a \<open>n \<in> set (online_nodes env)\<close> on by auto
qed

end
