(* ===== verification/Buddy_Ops.thy ===== *)
theory Buddy_Ops
  imports Buddy_Search
begin

text \<open>
  The specifications of \<^verbatim>\<open>alloc_heap_pages\<close> and \<^verbatim>\<open>free_heap_pages\<close>: both keep the invariant of
  the heap, and change the set of free pages by exactly the chunk they are about.
\<close>

unbundle bit_operations_syntax

section \<open>Pages that stop or start being free\<close>

lemma chunks_ok_claim:
  assumes ok: "chunks_ok env s C" and heap: "heap s' = heap s"
    and out: "\<And>p. p \<notin> C \<Longrightarrow> frame_table s' p = frame_table s p" and used: "\<And>p. p \<in> C \<Longrightarrow> \<not> free_page s' p"
  shows "chunks_ok env s' {}"
proof -
  note D = chunks_okD [OF ok]
  have lst: "listed s' h j \<longleftrightarrow> listed s h j" for h j by (simp add: listed_def heap)
  have same: "free_page s' p \<longleftrightarrow> free_page s p \<and> p \<notin> C" for p
    using out [of p] used [of p] by (cases "p \<in> C") (simp_all add: free_page_def)
  have head: "frame_table s' h = frame_table s h" if "listed s h j" for h j
    using D(3) [OF that] chunk_simps(1) [of h j] by (intro out) blast
  show ?thesis unfolding chunks_ok_def lst heap
  proof (intro conjI allI ballI impI)
    show "head_ok env s' n z j h" if "h \<in> set (heap s n z j)" for n z j h
    proof -
      have "listed s h j" using that by (auto simp: listed_def)
      then show ?thesis using D(2) [OF that] head by (simp add: head_ok_def)
    qed
    show "free_page s' p \<longleftrightarrow> p \<in> {} \<or> (\<exists>h j. listed s h j \<and> p \<in> chunk h j)" for p
      unfolding same D(5) [of p] using D(3) by blast
    show "count_info (frame_table s' p) = PGC_state_free" "managed env p" if "free_page s' p" for p
      using that D(6) [of p] out [of p] unfolding same by simp_all
    show "h = h'" "j = j'" if "listed s h j \<and> listed s h' j' \<and> chunk h j \<inter> chunk h' j' \<noteq> {}" for h j h' j'
      using D(4) [of h j h' j'] that by blast+
  qed (use D(1) in \<open>auto\<close>)
qed

lemma chunks_ok_release:
  assumes ok: "chunks_ok env s {}" and heap: "heap s' = heap s"
    and out: "\<And>p. p \<notin> C \<Longrightarrow> frame_table s' p = frame_table s p" and used: "\<And>p. p \<in> C \<Longrightarrow> \<not> free_page s p"
    and freed: "\<And>p. p \<in> C \<Longrightarrow> count_info (frame_table s' p) = PGC_state_free \<and> managed env p"
  shows "chunks_ok env s' C"
proof -
  note D = chunks_okD [OF ok]
  have lst: "listed s' h j \<longleftrightarrow> listed s h j" for h j by (simp add: listed_def heap)
  have "free_page s' p" if "p \<in> C" for p
    using freed [OF that] by (simp add: free_page_def page_state_is_def PGC_state_free_def PGC_state_def)
  then have same: "free_page s' p \<longleftrightarrow> free_page s p \<or> p \<in> C" for p
    using out [of p] by (cases "p \<in> C") (simp_all add: free_page_def)
  have apart: "chunk h j \<inter> C = {}" if "listed s h j" for h j using D(5) that used by blast
  have head: "frame_table s' h = frame_table s h" if "listed s h j" for h j
    using apart [OF that] chunk_simps(1) [of h j] by (intro out) blast
  show ?thesis unfolding chunks_ok_def lst heap
  proof (intro conjI allI ballI impI)
    show "head_ok env s' n z j h" if "h \<in> set (heap s n z j)" for n z j h
    proof -
      have "listed s h j" using that by (auto simp: listed_def)
      then show ?thesis using D(2) [OF that] head by (simp add: head_ok_def)
    qed
    show "free_page s' p \<longleftrightarrow> p \<in> C \<or> (\<exists>h j. listed s h j \<and> p \<in> chunk h j)" for p
      unfolding same D(5) [of p] by blast
    show "count_info (frame_table s' p) = PGC_state_free" "managed env p" if "free_page s' p" for p
      using that D(6) [of p] out [of p] freed [of p] unfolding same by (cases "p \<in> C"; simp)+
    show "h = h'" "j = j'" if "listed s h j \<and> listed s h' j' \<and> chunk h j \<inter> chunk h' j' \<noteq> {}" for h j h' j'
      using D(4) [of h j h' j'] that by blast+
  qed (use D(1) apart in \<open>auto\<close>)
qed

lemma counts_ok_claim:
  assumes ok: "counts_ok env s" and K: "K \<subseteq> free_in env s node zone" and av: "avail s node = Some av"
    and free: "\<And>p. free_page s' p \<longleftrightarrow> free_page s p \<and> p \<notin> K"
    and avail: "avail s' = (avail s)(node \<mapsto> av(zone := av zone - int (card K)))"
    and total: "total_avail_pages s' = total_avail_pages s - int (card K)"
  shows "counts_ok env s'"
proof -
  have fin: "finite {p. free_page s p}" using ok by (simp add: counts_ok_def)
  have sub: "K \<subseteq> {p. free_page s p}" using K by (auto simp: free_in_def)
  then have finK: "finite K" using fin by (rule finite_subset)
  have "{p. free_page s' p} = {p. free_page s p} - K" using free by auto
  then have a: "finite {p. free_page s' p}" "int (card {p. free_page s' p}) = int (card {p. free_page s p}) - int (card K)"
    using fin sub card_mono [OF fin sub] by (simp_all add: card_Diff_subset [OF finK] of_nat_diff)
  have b: "int (card (free_in env s' n z)) = int (card (free_in env s n z)) - (if n = node \<and> z = zone then int (card K) else 0)" for n z
  proof (cases "n = node \<and> z = zone")
    case True
    have "free_in env s' node zone = free_in env s node zone - K" using free by (auto simp: free_in_def)
    moreover have "finite (free_in env s node zone)" by (rule finite_subset [OF _ fin]) (auto simp: free_in_def)
    ultimately show ?thesis using True card_mono [OF _ K] K by (simp add: card_Diff_subset [OF finK] of_nat_diff)
  next
    case False
    then have "free_in env s' n z = free_in env s n z" using free K by (auto simp: free_in_def)
    then show ?thesis using False by auto
  qed
  have "av z = int (card (free_in env s node z))" for z using ok av by (simp add: counts_ok_def)
  moreover have "av' z = int (card (free_in env s n z))" if "avail s n = Some av'" for n av' z using ok that by (simp add: counts_ok_def)
  moreover have "avail s' (phys_to_nid env p) \<noteq> None" if "free_page s' p" for p using that free ok by (simp add: counts_ok_def avail)
  moreover have "node < MAX_NUMNODES" using ok av by (simp add: counts_ok_def)
  ultimately show ?thesis unfolding counts_ok_def using a ok
    by (auto simp: counts_ok_def total avail b split: if_splits)
qed

lemma counts_ok_release:
  assumes ok: "counts_ok env s" and K: "finite K" "\<And>p. p \<in> K \<Longrightarrow> \<not> free_page s p \<and> phys_to_nid env p = node \<and> zone_of p = zone"
    and av: "avail s node = Some av" and free: "\<And>p. free_page s' p \<longleftrightarrow> free_page s p \<or> p \<in> K"
    and avail: "avail s' = (avail s)(node \<mapsto> av(zone := av zone + int (card K)))"
    and total: "total_avail_pages s' = total_avail_pages s + int (card K)"
  shows "counts_ok env s'"
proof -
  have fin: "finite {p. free_page s p}" using ok by (simp add: counts_ok_def)
  have "{p. free_page s' p} = {p. free_page s p} \<union> K" "{p. free_page s p} \<inter> K = {}" using free K(2) by auto
  then have a: "finite {p. free_page s' p}" "int (card {p. free_page s' p}) = int (card {p. free_page s p}) + int (card K)"
    using fin K(1) by (simp_all add: card_Un_disjoint)
  have b: "int (card (free_in env s' n z)) = int (card (free_in env s n z)) + (if n = node \<and> z = zone then int (card K) else 0)" for n z
  proof (cases "n = node \<and> z = zone")
    case True
    have "free_in env s' node zone = free_in env s node zone \<union> K" "free_in env s node zone \<inter> K = {}" using free K(2) by (auto simp: free_in_def)
    moreover have "finite (free_in env s node zone)" by (rule finite_subset [OF _ fin]) (auto simp: free_in_def)
    ultimately show ?thesis using True K(1) by (simp add: card_Un_disjoint)
  next
    case False
    then have "free_in env s' n z = free_in env s n z" using free K(2) by (auto simp: free_in_def)
    then show ?thesis using False by auto
  qed
  have "av z = int (card (free_in env s node z))" for z using ok av by (simp add: counts_ok_def)
  moreover have "av' z = int (card (free_in env s n z))" if "avail s n = Some av'" for n av' z using ok that by (simp add: counts_ok_def)
  moreover have "avail s' (phys_to_nid env p) \<noteq> None" if "free_page s' p" for p using that free ok K(2) by (auto simp: counts_ok_def avail)
  moreover have "node < MAX_NUMNODES" using ok av by (simp add: counts_ok_def)
  ultimately show ?thesis unfolding counts_ok_def using a ok
    by (auto simp: counts_ok_def total avail b split: if_splits)
qed

section \<open>Allocation\<close>

text \<open>What an allocation of \<open>2 ^ order\<close> pages at \<open>pg\<close> does to the heap.\<close>

definition allocates :: "mem_env \<Rightarrow> heap_state \<Rightarrow> nat \<Rightarrow> nat \<Rightarrow> heap_state \<Rightarrow> bool" where
  "allocates env s pg order s' \<longleftrightarrow> heap_inv env s' \<and> 2 ^ order dvd pg \<and>
     (\<forall>p \<in> chunk pg order. free_page s p \<and> managed env p \<and> phys_to_nid env p = phys_to_nid env pg \<and>
        count_info (frame_table s' p) = PGC_state_inuse \<and> page_u (frame_table s' p) = 0 \<and> page_get_owner (frame_table s' p) = None) \<and>
     (\<forall>p. free_page s' p \<longleftrightarrow> free_page s p \<and> p \<notin> chunk pg order) \<and>
     (\<forall>p. \<not> free_page s p \<longrightarrow> frame_table s' p = frame_table s p) \<and>
     mem_domains s' = mem_domains s \<and> (\<forall>n. avail s' n = None \<longleftrightarrow> avail s n = None) \<and>
     (\<exists>cpus. set cpus = (\<Union>p \<in> chunk pg order. stale_cpus env (frame_table s p)) \<and>
        tlb_flushes s' = tlb_flushes s @ (if cpus = [] then [] else [cpus]))"

lemma claimed_sel [simp]:
  "count_info (claimed p) = PGC_state_inuse" "page_u (claimed p) = 0" "page_get_owner (claimed p) = None"
  by (simp_all add: claimed_def page_set_owner_def page_get_owner_def)

lemma claimed_not_free: "\<not> page_state_is (claimed p) PGC_state_free"
  by (simp add: page_state_is_def PGC_state_inuse_def PGC_state_free_def PG_mask_def)

lemma zone_of_bound:
  assumes "0 < p" "p < 2 ^ NR_ZONES"
  shows "zone_of p < NR_ZONES"
proof -
  have "(2 :: nat) ^ zone_of p < 2 ^ NR_ZONES" using zone_of_bounds(1) [OF assms(1)] assms(2) by (rule le_less_trans)
  then show ?thesis by (rule power_less_imp_less_exp [rotated]) simp
qed

text \<open>Taking the first chunk off a list, halving it, counting and claiming.\<close>

lemma alloc_found:
  assumes inv: "heap_inv env s" and j: "order \<le> j" "j \<le> MAX_ORDER" and ne: "heap s node zone j \<noteq> []"
  obtains s2 s4 pg av cpus where
    "halve (upd_heap node zone j (tl (heap s node zone j)) s) node zone order (hd (heap s node zone j)) j = (s2, pg)"
    "node < MAX_NUMNODES" "avail s2 node = Some av" "2 ^ order \<le> av zone" "zone < NR_ZONES" "2 ^ order \<le> total_avail_pages s2"
    "claim_pages env (s2\<lparr>avail := (avail s2)(node \<mapsto> av(zone := av zone - 2 ^ order)),
       total_avail_pages := total_avail_pages s2 - 2 ^ order\<rparr>) pg (2 ^ order) [] = Some (s4, cpus)"
    "allocates env s pg order (if cpus \<noteq> [] then s4\<lparr>tlb_flushes := tlb_flushes s4 @ [cpus]\<rparr> else s4)" "zone_of pg = zone"
proof -
  have ok: "chunks_ok env s {}" "counts_ok env s" "coalesced s" using inv by (simp_all add: heap_inv_def)
  let ?h = "hd (heap s node zone j)" and ?l = "tl (heap s node zone j)"
  let ?s1 = "upd_heap node zone j ?l s"
  have h: "?h \<in> set (heap s node zone j)" using ne by simp
  have "set ?l = set (heap s node zone j) - {?h}" "distinct ?l"
    using chunks_okD(1) [OF ok(1), of node zone j] ne by (cases "heap s node zone j"; simp)+
  then have ok1: "chunks_ok env ?s1 (chunk ?h j)" using chunks_ok_remove [OF ok(1) h] by simp
  have hd: "2 ^ j dvd ?h" "node = phys_to_nid env ?h" "zone = zone_of ?h" using chunks_okD(2) [OF ok(1) h] by (simp_all add: head_ok_def)
  have "listed ?s1 h' j' \<Longrightarrow> listed s h' j'" for h' j'
    using \<open>set ?l = _\<close> by (auto simp: listed_def split: if_splits)
  then have "coalesced ?s1" using coalesced_fewer [OF ok(3)] by blast
  then obtain s2 pg where 2: "halve ?s1 node zone order ?h j = (s2, pg)" "chunks_ok env s2 (chunk pg order)" "2 ^ order dvd pg"
    "relisted ?s1 s2" "node = phys_to_nid env pg" "zone = zone_of pg" "coalesced s2"
    using halve_spec [OF ok1 hd(1) j(2,1) hd(2,3)] by blast
  have rel: "relisted s s2" using relisted_trans [OF _ 2(4)] by simp
  note R = relistedD [OF rel]
  note K = chunk_free [OF 2(2)]
  have man: "\<forall>p \<in> chunk pg order. managed env p" using K(2) by blast
  have pg: "0 < pg" "pg < 2 ^ NR_ZONES" using man chunk_simps(1) [of pg order] by (auto simp: managed_def)
  have nd: "phys_to_nid env p = node" "zone_of p = zone" if "p \<in> chunk pg order" for p
    using node_chunk [OF 2(3) _ man that] zone_chunk [OF 2(3) pg(1) that] j 2(5,6) by simp_all
  have Kin: "chunk pg order \<subseteq> free_in env s node zone" using K(1) nd R(5) by (auto simp: free_in_def)
  obtain av where av: "avail s node = Some av" using ok(2) K(1) [of pg] R(5) nd(1) [of pg] by (auto simp: counts_ok_def)
  have fin: "finite {p. free_page s p}" using ok(2) by (simp add: counts_ok_def)
  have "2 ^ order \<le> card (free_in env s node zone)" "2 ^ order \<le> card {p. free_page s p}"
    using card_mono [of "free_in env s node zone", OF finite_subset [OF _ fin] Kin] card_mono [OF fin, of "chunk pg order"] Kin
    by (auto simp: free_in_def)
  then have "(2 :: int) ^ order \<le> int (card (free_in env s node zone))" "(2 :: int) ^ order \<le> int (card {p. free_page s p})"
    by (metis of_nat_le_iff of_nat_numeral of_nat_power)+
  moreover have "av zone = int (card (free_in env s node zone))" "total_avail_pages s = int (card {p. free_page s p})"
    using ok(2) av by (simp_all add: counts_ok_def)
  ultimately have big: "2 ^ order \<le> av zone" "2 ^ order \<le> total_avail_pages s" by simp_all
  let ?s3 = "s2\<lparr>avail := (avail s2)(node \<mapsto> av(zone := av zone - 2 ^ order)), total_avail_pages := total_avail_pages s2 - 2 ^ order\<rparr>"
  define T where "T p = (if p \<in> chunk pg order then claimed (frame_table s2 p) else frame_table s2 p)" for p
  obtain cpus where c: "claim_pages env ?s3 pg (2 ^ order) [] = Some (?s3\<lparr>frame_table := T\<rparr>, cpus)"
    "set cpus = (\<Union>p \<in> chunk pg order. stale_cpus env (frame_table s2 p))"
  proof -
    have f: "frame_table ?s3 = frame_table s2" by simp
    have "\<forall>p \<in> {pg..<pg + 2 ^ order}. count_info (frame_table ?s3 p) = PGC_state_free" using K(3) by (simp add: f chunk_def)
    from claim_pages_spec [OF this, of env "[]", folded chunk_def, unfolded f]
    show ?thesis using that unfolding T_def [abs_def] by auto
  qed
  let ?s4 = "?s3\<lparr>frame_table := T\<rparr>"
  let ?s5 = "if cpus \<noteq> [] then ?s4\<lparr>tlb_flushes := tlb_flushes ?s4 @ [cpus]\<rparr> else ?s4"
  have sel: "frame_table ?s5 = T" "heap ?s5 = heap s2" "avail ?s5 = (avail s)(node \<mapsto> av(zone := av zone - 2 ^ order))"
    "total_avail_pages ?s5 = total_avail_pages s - 2 ^ order" "mem_domains ?s5 = mem_domains s"
    "tlb_flushes ?s5 = tlb_flushes s @ (if cpus = [] then [] else [cpus])" using R(6,7,9,10) by simp_all
  have used: "\<not> free_page ?s5 p" if "p \<in> chunk pg order" for p using that claimed_not_free unfolding free_page_def sel(1) T_def by simp
  have free: "free_page ?s5 p \<longleftrightarrow> free_page s p \<and> p \<notin> chunk pg order" for p
    using used [of p] R(5) [of p] unfolding free_page_def sel(1) T_def by auto
  have "chunks_ok env ?s5 {}" by (rule chunks_ok_claim [OF 2(2)]) (use sel used in \<open>simp_all add: T_def\<close>)
  moreover have "counts_ok env ?s5" by (rule counts_ok_claim [OF ok(2) Kin av free]) (use sel in simp_all)
  moreover have "coalesced ?s5" using 2(7) by (simp add: coalesced_def listed_def sel(2))
  ultimately have "heap_inv env ?s5" by (simp add: heap_inv_def)
  moreover have "stale_cpus env (frame_table s2 p) = stale_cpus env (frame_table s p)" for p using R(3,11) by (simp add: stale_cpus_def)
  ultimately have al: "allocates env s pg order ?s5"
    unfolding allocates_def free sel(1,3,5,6) using 2(3,5) K R(4,5) nd c(2) av by (auto simp: T_def)
  show thesis
  proof (rule that [OF 2(1) _ _ big(1) _ _ c(1) al])
    show "node < MAX_NUMNODES" using ok(2) av by (simp add: counts_ok_def)
    show "avail s2 node = Some av" "2 ^ order \<le> total_avail_pages s2" "zone < NR_ZONES" "zone_of pg = zone"
      using av R(6,7) big(2) zone_of_bound [OF pg] 2(6) by simp_all
  qed
qed

text \<open>
  Every outcome of \<^verbatim>\<open>alloc_heap_pages\<close> when transcendent memory is not asked first: a chunk from the zones asked for, or
  the answer of \<^verbatim>\<open>tmem_relinquish_pages\<close> when no online node has a chunk large enough in these zones.
\<close>

lemma alloc_heap_pages_cases:
  fixes node :: nat
  assumes inv: "heap_inv env s" and z: "zone_lo \<le> zone_hi" "zone_hi < NR_ZONES" and o: "order \<le> MAX_ORDER"
    and nd: "node_ok env node"
    and tm: "\<not> (opt_tmem env \<and> (order = 0 \<or> order \<ge> 9) \<and> total_avail_pages s \<le> midsize_alloc_zone_pages s \<and> tmem_freeable_pages env \<noteq> 0)"
  defines "n \<equiv> if node = NUMA_NO_NODE then current_node env else node"
  shows "(\<exists>s' pg. alloc_heap_pages env s zone_lo zone_hi node order flags = Some (s', Some pg) \<and> allocates env s pg order s' \<and>
       zone_lo \<le> zone_of pg \<and> zone_of pg \<le> zone_hi) \<or>
    alloc_heap_pages env s zone_lo zone_hi node order flags = Some (s, tmem_relinquish_pages env order flags) \<and>
      scan_nodes env s order zone_lo zone_hi n (num_online_nodes env) = None"
proof -
  have nd': "n < MAX_NUMNODES" using nd by (simp add: node_ok_def n_def)
  show ?thesis
  proof (cases "scan_nodes env s order zone_lo zone_hi n (num_online_nodes env)")
    case None
    then have "alloc_heap_pages env s zone_lo zone_hi node order flags = Some (s, tmem_relinquish_pages env order flags)"
      unfolding alloc_heap_pages_def Let_def n_def [symmetric] using z o tm nd' by auto
    then show ?thesis using None by simp
  next
    case (Some r)
    then obtain node' zone j where r: "r = (node', zone, j)" by (cases r) auto
    have c: "zone_candidate s node' zone order = Some j" "zone_lo \<le> zone" "zone \<le> zone_hi"
      using scan_nodes_Some [OF Some [unfolded r] z(1)] by simp_all
    obtain s2 s4 pg av cpus where f:
      "halve (upd_heap node' zone j (tl (heap s node' zone j)) s) node' zone order (hd (heap s node' zone j)) j = (s2, pg)"
      "node' < MAX_NUMNODES" "avail s2 node' = Some av" "2 ^ order \<le> av zone" "zone < NR_ZONES" "2 ^ order \<le> total_avail_pages s2"
      "claim_pages env (s2\<lparr>avail := (avail s2)(node' \<mapsto> av(zone := av zone - 2 ^ order)),
         total_avail_pages := total_avail_pages s2 - 2 ^ order\<rparr>) pg (2 ^ order) [] = Some (s4, cpus)"
      "allocates env s pg order (if cpus \<noteq> [] then s4\<lparr>tlb_flushes := tlb_flushes s4 @ [cpus]\<rparr> else s4)" "zone_of pg = zone"
      by (rule alloc_found [OF inv zone_candidate_Some(1-3) [OF c(1)]])
    have "alloc_heap_pages env s zone_lo zone_hi node order flags =
        Some (if cpus \<noteq> [] then s4\<lparr>tlb_flushes := tlb_flushes s4 @ [cpus]\<rparr> else s4, Some pg)"
      unfolding alloc_heap_pages_def Let_def n_def [symmetric] Some r using z o tm nd' f(2-6) f(7)
      by (simp add: f(1) avail_add_def) auto
    then show ?thesis using f(8,9) c by auto
  qed
qed

section \<open>Freeing\<close>

text \<open>A request for a node outside the arrays crashes, unless it is refused before.\<close>

lemma alloc_bad_node:
  assumes "\<not> node_ok env node" "order \<le> MAX_ORDER" "\<not> opt_tmem env"
  shows "alloc_heap_pages env s zone_lo zone_hi node order flags = None"
  using assms by (simp add: alloc_heap_pages_def node_ok_def Let_def split: if_splits)

text \<open>The pages that may be freed: in use, not being taken offline and not broken.\<close>

definition plain_inuse :: "page_info \<Rightarrow> bool" where
  "plain_inuse p \<longleftrightarrow> page_state_is p PGC_state_inuse \<and> count_info p AND PGC_broken = 0 \<and> \<not> is_xen_heap_page p"

lemma plain_inuse_states:
  assumes "plain_inuse p"
  shows "\<not> page_state_is p PGC_state_free" "\<not> page_state_is p PGC_state_offlined" "freed_count_info p = PGC_state_free"
  using assms unfolding plain_inuse_def page_state_is_def freed_count_info_def
  by (auto simp: PGC_state_inuse_def PGC_state_free_def PGC_state_offlined_def PGC_state_offlining_def PG_mask_def)

lemma freed_page_sel [simp]: "count_info (freed_page env p) = freed_count_info p" "page_v (freed_page env p) = page_v p"
  by (simp_all add: freed_page_def set_need_tlbflush_def Let_def)

lemma PGC_free_state: "PGC_state_free AND PGC_state = PGC_state_free" "PGC_state_free \<noteq> PGC_state_offlined"
  by (simp_all add: PGC_state_free_def PGC_state_def PGC_state_offlined_def PG_mask_def)

lemma release_pages_spec:
  assumes "\<forall>p \<in> {pg..<pg + n}. plain_inuse (frame_table s p)"
  shows "release_pages env s pg n False =
    Some (s\<lparr>frame_table := (\<lambda>p. if p \<in> {pg..<pg + n} then freed_page env (frame_table s p) else frame_table s p)\<rparr>, False)"
  using assms
proof (induction n arbitrary: s pg)
  case (Suc n)
  let ?s = "upd_page pg (freed_page env) s"
  have i: "{pg..<pg + Suc n} = insert pg {pg + 1..<pg + 1 + n}" by auto
  have pg: "plain_inuse (frame_table s pg)" using Suc.prems by simp
  then have "\<not> page_state_is (freed_page env (frame_table s pg)) PGC_state_offlined"
    using plain_inuse_states(3) PGC_free_state by (simp add: page_state_is_def)
  then have "release_pages env s pg (Suc n) False = release_pages env ?s (pg + 1) n False"
    using plain_inuse_states(2) [OF pg] by (simp add: Let_def)
  also have "\<dots> = Some (?s\<lparr>frame_table := (\<lambda>p. if p \<in> {pg + 1..<pg + 1 + n} then freed_page env (frame_table ?s p) else frame_table ?s p)\<rparr>, False)"
    using Suc.prems by (intro Suc.IH) (simp add: i)
  also have "?s\<lparr>frame_table := (\<lambda>p. if p \<in> {pg + 1..<pg + 1 + n} then freed_page env (frame_table ?s p) else frame_table ?s p)\<rparr> =
      s\<lparr>frame_table := (\<lambda>p. if p \<in> {pg..<pg + Suc n} then freed_page env (frame_table s p) else frame_table s p)\<rparr>"
    by (auto simp: upd_page_def i fun_eq_iff)
  finally show ?case .
qed simp

text \<open>A chunk and its buddy make up the chunk of the next order that starts at the lower of the two.\<close>

definition pair_base :: "nat \<Rightarrow> nat \<Rightarrow> nat" where
  "pair_base pg j = (if bit pg j then pg - 2 ^ j else pg)"

lemma buddy_pair:
  assumes "2 ^ j dvd pg"
  shows "2 ^ Suc j dvd pair_base pg j" "chunk (pair_base pg j) (Suc j) = chunk pg j \<union> chunk (buddy pg j) j"
    "chunk pg j \<inter> chunk (buddy pg j) j = {}"
proof -
  note b = buddy_aligned(3-5) [OF assms]
  show "2 ^ Suc j dvd pair_base pg j" using b(2,3) by (simp add: pair_base_def)
  show "chunk (pair_base pg j) (Suc j) = chunk pg j \<union> chunk (buddy pg j) j" "chunk pg j \<inter> chunk (buddy pg j) j = {}"
    using b(1) by (auto simp: pair_base_def buddy_def chunk_def split: if_splits)
qed

text \<open>A free page at the place of the buddy is a chunk of the order it records.\<close>

lemma buddy_listed:
  assumes ok: "chunks_ok env s (chunk pg j)" and d: "2 ^ j dvd pg" "j < MAX_ORDER"
  shows "buddy_free env s (buddy pg j) j \<longleftrightarrow> listed s (buddy pg j) j"
proof
  let ?b = "buddy pg j"
  note D = chunks_okD [OF ok]
  assume bf: "buddy_free env s ?b j"
  note pair = buddy_pair [OF d(1)]
  have "?b \<notin> chunk pg j" using pair(3) chunk_simps(1) [of ?b j] by blast
  moreover have "free_page s ?b" using bf by (simp add: buddy_free_def free_page_def)
  ultimately obtain h i where h: "listed s h i" "?b \<in> chunk h i" using D(5) by blast
  have hd: "head_ok env s (phys_to_nid env h) (zone_of h) i h" by (rule listed_head(1) [OF ok h(1)])
  then have hi: "2 ^ i dvd h" "PFN_ORDER (frame_table s h) = i" by (simp_all add: head_ok_def)
  have meet: "chunk h i \<inter> chunk ?b j \<noteq> {}" using h(2) chunk_simps(1) [of ?b j] by blast
  show "listed s ?b j"
  proof (cases "i \<le> j")
    case True
    then have "chunk h i \<subseteq> chunk ?b j" using aligned_meet [OF hi(1) buddy_aligned(1) [OF d(1)] meet] by simp
    then have "h = ?b" using h(2) chunk_simps(1) [of h i] by (auto simp: chunk_def)
    then show ?thesis using h(1) hi(2) bf by (simp add: buddy_free_def)
  next
    case False
    then have "chunk (pair_base pg j) (Suc j) \<inter> chunk h i \<noteq> {}" "Suc j \<le> i" using pair(2) meet by auto
    then have "chunk (pair_base pg j) (Suc j) \<subseteq> chunk h i" by (intro aligned_meet [OF pair(1) hi(1)])
    then have "pg \<in> chunk h i" using pair(2) chunk_simps(1) [of pg j] by blast
    then show ?thesis using D(3) [OF h(1)] chunk_simps(1) [of pg j] by blast
  qed
next
  assume l: "listed s (buddy pg j) j"
  have "free_page s (buddy pg j)" using chunks_okD(5) [OF ok, of "buddy pg j"] l chunk_simps(1) by blast
  then show "buddy_free env s (buddy pg j) j"
    using listed_head(1) [OF ok l] chunks_okD(6) [OF ok] by (simp add: buddy_free_def free_page_def head_ok_def managed_def)
qed

lemma heap_del_listed:
  assumes ok: "chunks_ok env s C" and l: "listed s h j"
  obtains s' where "heap_del h (phys_to_nid env h) (zone_of h) j s = Some s'" "chunks_ok env s' (C \<union> chunk h j)" "relisted s s'"
    "\<And>h' j'. listed s' h' j' \<Longrightarrow> listed s h' j'"
proof -
  let ?l = "heap s (phys_to_nid env h) (zone_of h) j"
  let ?s = "upd_heap (phys_to_nid env h) (zone_of h) j (remove1 h ?l) s"
  have h: "h \<in> set ?l" by (rule listed_head(2) [OF ok l])
  have d: "distinct ?l" by (rule chunks_okD(1) [OF ok])
  show thesis
  proof (rule that [of ?s])
    show "heap_del h (phys_to_nid env h) (zone_of h) j s = Some ?s" using h by (simp add: heap_del_def page_list_del_def)
    show "chunks_ok env ?s (C \<union> chunk h j)" by (rule chunks_ok_remove [OF ok h]) (use d in \<open>simp_all add: set_remove1_eq\<close>)
    show "listed s h' j'" if "listed ?s h' j'" for h' j'
      using that by (auto simp: listed_def split: if_splits dest: notin_set_remove1 set_remove1_subset [THEN subsetD])
  qed simp
qed

text \<open>Merging ends with a larger chunk at hand whose buddy is not listed.\<close>

lemma merge_chunk_spec:
  assumes "chunks_ok env s (chunk pg order)" "2 ^ order dvd pg" "order \<le> MAX_ORDER"
    "node = phys_to_nid env pg" "zone = zone_of pg" "coalesced s"
  shows "\<exists>s' pg' order'. merge_chunk env s node zone pg order = Some (s', pg', order') \<and> chunks_ok env s' (chunk pg' order') \<and>
    2 ^ order' dvd pg' \<and> order' \<le> MAX_ORDER \<and> node = phys_to_nid env pg' \<and> zone = zone_of pg' \<and> coalesced s' \<and>
    relisted s s' \<and> (order' < MAX_ORDER \<longrightarrow> \<not> listed s' (buddy pg' order') order')"
  using assms
proof (induction "MAX_ORDER - order" arbitrary: s pg order rule: less_induct)
  case less
  note step = merge_chunk.simps [of env s node zone pg order]
  show ?case
  proof (cases "order < MAX_ORDER \<and> listed s (buddy pg order) order")
    case False
    then have "merge_chunk env s node zone pg order = Some (s, pg, order)"
      using step buddy_listed [OF less.prems(1,2)] by (auto simp: buddy_def Let_def split: if_splits)
    then show ?thesis using less.prems False by auto
  next
    case True
    let ?b = "buddy pg order" and ?base = "pair_base pg order"
    note pair = buddy_pair [OF less.prems(2)]
    obtain s1 where s1: "heap_del ?b (phys_to_nid env ?b) (zone_of ?b) order s = Some s1"
      "chunks_ok env s1 (chunk ?base (Suc order))" "relisted s s1" "\<And>h j. listed s1 h j \<Longrightarrow> listed s h j"
      using heap_del_listed [OF less.prems(1) conjunct2 [OF True]] pair(2) by metis
    have man: "\<forall>p \<in> chunk ?base (Suc order). managed env p" using chunk_free(2) [OF s1(2)] by blast
    then have "0 < ?base" using chunk_simps(1) [of ?base "Suc order"] by (auto simp: managed_def)
    then have nz: "phys_to_nid env p = phys_to_nid env ?base" "zone_of p = zone_of ?base" if "p \<in> chunk ?base (Suc order)" for p
      using node_chunk [OF pair(1) _ man that] zone_chunk [OF pair(1) _ that] True by simp_all
    have in_pair: "pg \<in> chunk ?base (Suc order)" "?b \<in> chunk ?base (Suc order)" unfolding pair(2) by simp_all
    then have del: "heap_del ?b node zone order s = Some s1" "node = phys_to_nid env ?base" "zone = zone_of ?base"
      using s1(1) nz [OF in_pair(1)] nz [OF in_pair(2)] less.prems(4,5) by simp_all
    have "merge_chunk env s node zone pg order = merge_chunk env s1 node zone ?base (Suc order)"
      using step True buddy_listed [OF less.prems(1,2)] del by (auto simp: buddy_def pair_base_def Let_def split: if_splits)
    moreover have "coalesced s1" by (rule coalesced_fewer [OF less.prems(6) s1(4)])
    then have "\<exists>s' pg' order'. merge_chunk env s1 node zone ?base (Suc order) = Some (s', pg', order') \<and> chunks_ok env s' (chunk pg' order') \<and>
        2 ^ order' dvd pg' \<and> order' \<le> MAX_ORDER \<and> node = phys_to_nid env pg' \<and> zone = zone_of pg' \<and> coalesced s' \<and>
        relisted s1 s' \<and> (order' < MAX_ORDER \<longrightarrow> \<not> listed s' (buddy pg' order') order')"
      using True s1(2) pair(1) del(2,3) by (intro less.hyps) auto
    ultimately show ?thesis using relisted_trans [OF s1(3)] by auto
  qed
qed

end
