(* ===== verification/Buddy_Free.thy ===== *)
theory Buddy_Free
  imports Buddy_Ops
begin

text \<open>
  The specification of \<^verbatim>\<open>free_heap_pages\<close>, and that the chunks on the lists are determined by the set of
  free pages: whatever the history, the free memory is kept in the same, largest possible, chunks.
\<close>

unbundle bit_operations_syntax

section \<open>Freeing\<close>

lemma page_to_zone_eq:
  assumes "\<not> is_xen_heap_page (frame_table s pg)" "0 < pg" "pg < 2 ^ NR_ZONES"
  shows "page_to_zone s pg = zone_of pg"
proof -
  have "(2 :: nat) ^ NR_ZONES < 2 ^ 64" by (simp add: NR_ZONES_def PADDR_BITS_def PAGE_SHIFT_def)
  then have u: "unat (of_nat pg :: ulong) = pg" using assms(3) by (simp add: unsigned_of_nat take_bit_nat_eq_self)
  then have "fls (of_nat pg) = int (zone_of pg) + 1" using zone_of_bounds [OF assms(2)] by (intro fls_eq) simp_all
  moreover have "zone_of pg < 2 ^ 32" using zone_of_bound [OF assms(2,3)] by (simp add: NR_ZONES_def PADDR_BITS_def PAGE_SHIFT_def)
  ultimately show ?thesis using assms(1) by (simp add: page_to_zone_def unsigned_of_nat take_bit_nat_eq_self)
qed

text \<open>What freeing \<open>2 ^ order\<close> pages at \<open>pg\<close> does to the heap.\<close>

definition frees :: "mem_env \<Rightarrow> heap_state \<Rightarrow> nat \<Rightarrow> nat \<Rightarrow> heap_state \<Rightarrow> bool" where
  "frees env s pg order s' \<longleftrightarrow> heap_inv env s' \<and>
     (\<forall>p. free_page s' p \<longleftrightarrow> free_page s p \<or> p \<in> chunk pg order) \<and>
     (\<forall>p. \<not> free_page s p \<and> p \<notin> chunk pg order \<longrightarrow> frame_table s' p = frame_table s p) \<and>
     (\<forall>p \<in> chunk pg order. (need_tlbflush (frame_table s' p) \<longleftrightarrow> page_get_owner (frame_table s p) \<noteq> None) \<and>
        (need_tlbflush (frame_table s' p) \<longrightarrow> tlbflush_timestamp (frame_table s' p) = tlbflush_current_time env)) \<and>
     mem_domains s' = mem_domains s \<and> tlb_flushes s' = tlb_flushes s \<and> scrubbed s' = scrubbed s \<and>
     (\<forall>n. avail s' n = None \<longleftrightarrow> avail s n = None)"

text \<open>The chunks that may be freed.\<close>

definition freeable :: "mem_env \<Rightarrow> heap_state \<Rightarrow> nat \<Rightarrow> nat \<Rightarrow> bool" where
  "freeable env s pg order \<longleftrightarrow> order \<le> MAX_ORDER \<and> 2 ^ order dvd pg \<and> avail s (phys_to_nid env pg) \<noteq> None \<and>
     (\<forall>p \<in> chunk pg order. managed env p \<and> plain_inuse (frame_table s p))"

lemma need_tlbflush_set [simp]: "need_tlbflush (set_need_tlbflush c p) \<longleftrightarrow> c"
proof -
  let ?u = "page_u p AND NOT 0xFF"
  have "?u AND 0xFF = 0" by (rule bit_word_eqI) (auto simp: bit_simps)
  moreover have "bit ((?u OR 1) AND 0xFF) 0" by (simp only: bit_and_iff bit_or_iff) (simp add: bit_0)
  then have "(?u OR 1) AND 0xFF \<noteq> 0" by (intro notI) simp
  ultimately show ?thesis unfolding need_tlbflush_def set_need_tlbflush_def by (cases c) simp_all
qed

lemma need_flush_freed: "need_tlbflush (freed_page env p) \<longleftrightarrow> page_get_owner p \<noteq> None"
  "need_tlbflush (freed_page env p) \<Longrightarrow> tlbflush_timestamp (freed_page env p) = tlbflush_current_time env"
proof -
  have n: "need_tlbflush (q\<lparr>tlbflush_timestamp := t\<rparr>) = need_tlbflush q" for q t by (simp add: need_tlbflush_def)
  have o: "page_get_owner (p\<lparr>count_info := c\<rparr>) = page_get_owner p" for c by (simp add: page_get_owner_def)
  show f: "need_tlbflush (freed_page env p) \<longleftrightarrow> page_get_owner p \<noteq> None" by (simp add: freed_page_def Let_def n o)
  show "tlbflush_timestamp (freed_page env p) = tlbflush_current_time env" if "need_tlbflush (freed_page env p)"
    using that unfolding f by (simp add: freed_page_def Let_def o)
qed

lemma free_heap_pages_spec:
  assumes inv: "heap_inv env s" and fr: "freeable env s pg order"
  shows "\<exists>s'. free_heap_pages env s pg order = Some s' \<and> frees env s pg order s'"
proof -
  have ok: "chunks_ok env s {}" "counts_ok env s" "coalesced s" using inv by (simp_all add: heap_inv_def)
  have o: "order \<le> MAX_ORDER" "2 ^ order dvd pg" and K: "\<And>p. p \<in> chunk pg order \<Longrightarrow> managed env p \<and> plain_inuse (frame_table s p)"
    using fr by (simp_all add: freeable_def)
  let ?node = "phys_to_nid env pg" and ?zone = "zone_of pg"
  obtain av where av: "avail s ?node = Some av" using fr by (auto simp: freeable_def)
  then have nd: "?node < MAX_NUMNODES" using ok(2) by (simp add: counts_ok_def)
  have pg: "0 < pg" "pg < 2 ^ NR_ZONES" using K [of pg] by (simp_all add: managed_def)
  have z: "page_to_zone s pg = ?zone" "?zone < NR_ZONES"
    using page_to_zone_eq [OF _ pg] K [of pg] zone_of_bound [OF pg] by (simp_all add: plain_inuse_def)
  define T where "T p = (if p \<in> chunk pg order then freed_page env (frame_table s p) else frame_table s p)" for p
  have rel: "release_pages env s pg (2 ^ order) False = Some (s\<lparr>frame_table := T\<rparr>, False)"
    using release_pages_spec [of pg "2 ^ order" s env] K unfolding T_def [abs_def] chunk_def by simp
  let ?s1 = "s\<lparr>frame_table := T, avail := (avail s)(?node \<mapsto> av(?zone := av ?zone + 2 ^ order)),
    total_avail_pages := total_avail_pages s + 2 ^ order\<rparr>"
  define s2 where "s2 = (if opt_tmem env then ?s1\<lparr>midsize_alloc_zone_pages := max (midsize_alloc_zone_pages ?s1) (total_avail_pages ?s1 div MIDSIZE_ALLOC_FRAC)\<rparr> else ?s1)"
  have sel: "frame_table s2 = T" "heap s2 = heap s" "avail s2 = (avail s)(?node \<mapsto> av(?zone := av ?zone + 2 ^ order))"
    "total_avail_pages s2 = total_avail_pages s + 2 ^ order" "mem_domains s2 = mem_domains s" "tlb_flushes s2 = tlb_flushes s"
    "scrubbed s2 = scrubbed s"
    by (simp_all add: s2_def)
  have used: "\<not> free_page s p" if "p \<in> chunk pg order" for p using K [OF that] plain_inuse_states(1) by (simp add: free_page_def)
  have cnt: "count_info (T p) = PGC_state_free" if "p \<in> chunk pg order" for p
    using K [OF that] plain_inuse_states(3) that by (simp add: T_def)
  have free2: "free_page s2 p \<longleftrightarrow> free_page s p \<or> p \<in> chunk pg order" for p
    using cnt [of p] PGC_free_state(1) unfolding free_page_def sel(1) by (cases "p \<in> chunk pg order") (simp_all add: page_state_is_def, simp_all add: T_def)
  have ok2: "chunks_ok env s2 (chunk pg order)"
    by (rule chunks_ok_release [OF ok(1) sel(2)]) (use sel(1) used cnt K in \<open>simp_all add: T_def\<close>)
  have "coalesced s2" using ok(3) by (simp add: coalesced_def listed_def sel(2))
  from merge_chunk_spec [OF ok2 o(2,1) refl refl this]
  obtain s3 h j where 3: "merge_chunk env s2 ?node ?zone pg order = Some (s3, h, j)" "chunks_ok env s3 (chunk h j)"
    "2 ^ j dvd h" "j \<le> MAX_ORDER" "?node = phys_to_nid env h" "?zone = zone_of h" "coalesced s3" "relisted s2 s3"
    "j < MAX_ORDER \<longrightarrow> \<not> listed s3 (buddy h j) j" by blast
  define s4 where "s4 = heap_add_tail h ?node ?zone j (upd_page h (set_PFN_ORDER j) s3)"
  have ok4: "chunks_ok env s4 {}" using chunks_ok_insert [OF 3(2) subset_refl 3(3,4)] 3(5,6) by (simp add: s4_def)
  have "coalesced s4" unfolding s4_def by (rule coalesced_add [OF 3(7,3)]) (use 3(9) listed_head(1) [OF 3(2)] in \<open>auto simp: head_ok_def\<close>)
  moreover have r4: "relisted s2 s4" unfolding s4_def by (rule relisted_trans [OF 3(8) relisted_add]) (simp add: chunk_free(1) [OF 3(2)])
  note R = relistedD [OF r4]
  have free4: "free_page s4 p \<longleftrightarrow> free_page s p \<or> p \<in> chunk pg order" for p using R(5) free2 by simp
  have man: "\<forall>p \<in> chunk pg order. managed env p" using K by blast
  have "counts_ok env s4"
  proof (rule counts_ok_release [OF ok(2) _ _ av free4])
    show "\<not> free_page s p \<and> phys_to_nid env p = ?node \<and> zone_of p = ?zone" if "p \<in> chunk pg order" for p
      using used [OF that] node_chunk [OF o(2,1) man that] zone_chunk [OF o(2) pg(1) that] by simp
  qed (use R(6,7) sel in simp_all)
  ultimately have "heap_inv env s4" using ok4 by (simp add: heap_inv_def)
  moreover have "frame_table s4 p = frame_table s p" if "\<not> free_page s p" "p \<notin> chunk pg order" for p
    using R(4) [of p] free2 [of p] that sel(1) by (simp add: T_def)
  moreover have "need_tlbflush (frame_table s4 p) = need_tlbflush (freed_page env (frame_table s p))"
    "tlbflush_timestamp (frame_table s4 p) = tlbflush_timestamp (freed_page env (frame_table s p))" if "p \<in> chunk pg order" for p
    using R(3,11) [of p] that unfolding sel(1) by (simp_all add: T_def)
  ultimately have "frees env s pg order s4"
    unfolding frees_def free4 using R(6,9,10,12) sel(3,5-7) need_flush_freed av by simp
  moreover have "free_heap_pages env s pg order = Some s4"
    unfolding free_heap_pages_def Let_def z(1) s4_def using o(1) rel av nd z(2) 3(1) [unfolded s2_def]
    by (cases "opt_tmem env") (simp_all add: avail_add_def)
  ultimately show ?thesis by blast
qed

section \<open>The chunks are determined by the free pages\<close>

lemma meetI: "x \<in> A \<Longrightarrow> x \<in> B \<Longrightarrow> A \<inter> B \<noteq> {}"
  by blast

lemma same_order_meet:
  assumes "2 ^ j dvd a" "2 ^ j dvd b" "chunk a j \<inter> chunk b j \<noteq> {}"
  shows "a = b"
proof -
  have "chunk a j \<subseteq> chunk b j" by (rule aligned_meet [OF assms order_refl])
  then have a: "a \<in> chunk b j" by (rule subsetD) simp
  have "chunk b j \<subseteq> chunk a j"
    by (rule aligned_meet [OF assms(2,1) _ order_refl]) (use assms(3) in \<open>simp add: Int_commute\<close>)
  then have "b \<in> chunk a j" by (rule subsetD) simp
  then show ?thesis using a by (simp add: mem_chunk)
qed

text \<open>No aligned block that is entirely free is split into smaller chunks.\<close>

lemma no_split:
  assumes ok: "chunks_ok env s {}" "coalesced s" and B: "2 ^ J dvd H" "J \<le> MAX_ORDER" "\<forall>p \<in> chunk H J. free_page s p"
    and l: "listed s h j" "h \<in> chunk H J" "j < J"
  shows False
proof -
  define P where "P i \<longleftrightarrow> (\<exists>h. listed s h i \<and> h \<in> chunk H J \<and> i < J)" for i
  have "P j" using l by (auto simp: P_def)
  define i where "i = (LEAST i. P i)"
  have i: "P i" "\<And>k. P k \<Longrightarrow> i \<le> k" unfolding i_def by (rule LeastI [of P, OF \<open>P j\<close>]) (rule Least_le)
  from i(1) obtain g where g: "listed s g i" "g \<in> chunk H J" "i < J" by (auto simp: P_def)
  have al: "2 ^ k dvd x" if "listed s x k" for x k using listed_head(1) [OF ok(1) that] by (simp add: head_ok_def)
  note pair = buddy_pair [OF al [OF g(1)]]
  let ?b = "buddy g i"
  have in_pair: "g \<in> chunk (pair_base g i) (Suc i)" "?b \<in> chunk (pair_base g i) (Suc i)" unfolding pair(2) by simp_all
  have "chunk (pair_base g i) (Suc i) \<inter> chunk H J \<noteq> {}" by (rule meetI [OF in_pair(1) g(2)])
  then have sub: "chunk (pair_base g i) (Suc i) \<subseteq> chunk H J" using g(3) by (intro aligned_meet [OF pair(1) B(1)]) simp_all
  then have bH: "?b \<in> chunk H J" using in_pair(2) by (rule subsetD)
  then have "free_page s ?b" using B(3) by (rule bspec [rotated])
  then obtain x k where x: "listed s x k" "?b \<in> chunk x k" unfolding chunks_okD(5) [OF ok(1), of ?b] by auto
  have "i \<le> k"
  proof (cases "k < J")
    case True
    have "chunk x k \<inter> chunk H J \<noteq> {}" by (rule meetI [OF x(2) bH])
    then have "chunk x k \<subseteq> chunk H J" by (rule aligned_meet [OF al [OF x(1)] B(1)]) (use True in simp)
    then have "P k" unfolding P_def using x(1) True chunk_simps(1) [of x k] by blast
    then show ?thesis by (rule i(2))
  qed (use g(3) in simp)
  show False
  proof (cases "k = i")
    case True
    have "chunk x i \<inter> chunk ?b i \<noteq> {}" by (rule meetI [OF x(2) [unfolded True] chunk_simps(1)])
    then have "x = ?b" by (rule same_order_meet [OF al [OF x(1) [unfolded True]] buddy_aligned(1) [OF al [OF g(1)]]])
    then have "listed s ?b i" using x(1) True by simp
    then show False using ok(2) g(1,3) B(2) unfolding coalesced_def by (meson less_le_trans)
  next
    case False
    have "chunk (pair_base g i) (Suc i) \<inter> chunk x k \<noteq> {}" by (rule meetI [OF in_pair(2) x(2)])
    then have "chunk (pair_base g i) (Suc i) \<subseteq> chunk x k"
      by (rule aligned_meet [OF pair(1) al [OF x(1)]]) (use \<open>i \<le> k\<close> False in simp)
    then have "g \<in> chunk x k" using in_pair(1) by (rule subsetD)
    then have "chunk g i \<inter> chunk x k \<noteq> {}" by (rule meetI [OF chunk_simps(1)])
    then show False using chunks_okD(4) [OF ok(1) g(1) x(1)] False by simp
  qed
qed

lemma chunks_determined:
  assumes "heap_inv env s" "heap_inv env s'" and free: "\<And>p. free_page s p = free_page s' p" and l: "listed s h j"
  shows "listed s' h j"
proof -
  have ok: "chunks_ok env s {}" "coalesced s" "chunks_ok env s' {}" "coalesced s'" using assms(1,2) by (simp_all add: heap_inv_def)
  note H = listed_head(1) [OF ok(1) l]
  have "free_page s' h" using chunks_okD(5) [OF ok(1), of h] l free [of h] chunk_simps(1) [of h j] by blast
  then obtain h' j' where l': "listed s' h' j'" "h \<in> chunk h' j'" using chunks_okD(5) [OF ok(3), of h] by blast
  note H' = listed_head(1) [OF ok(3) l'(1)]
  have al: "2 ^ j dvd h" "j \<le> MAX_ORDER" "2 ^ j' dvd h'" "j' \<le> MAX_ORDER" using H H' by (simp_all add: head_ok_def)
  have fr: "\<forall>p \<in> chunk h j. free_page s' p" "\<forall>p \<in> chunk h' j'. free_page s p"
    using chunks_okD(5) [OF ok(1)] chunks_okD(5) [OF ok(3)] l l'(1) free by blast+
  have meet: "chunk h j \<inter> chunk h' j' \<noteq> {}" by (rule meetI [OF chunk_simps(1) l'(2)])
  consider "j < j'" | "j' < j" | "j = j'" by linarith
  then show ?thesis
  proof cases
    case 1
    then show ?thesis using no_split [OF ok(1,2) al(3,4) fr(2) l l'(2)] by simp
  next
    case 2
    have "chunk h' j' \<subseteq> chunk h j" using aligned_meet [OF al(3,1)] meet 2 by (simp add: Int_commute)
    then have "h' \<in> chunk h j" using chunk_simps(1) by blast
    then show ?thesis using no_split [OF ok(3,4) al(1,2) fr(1) l'(1)] 2 by simp
  next
    case 3
    then show ?thesis using same_order_meet [OF al(1) _ meet [folded 3]] al(3) l'(1) by simp
  qed
qed

end
