(* ===== verification/Buddy_Offline.thy ===== *)
theory Buddy_Offline
  imports Buddy_Free
begin

text \<open>
  Freeing a block of which a page is being taken offline (\<^verbatim>\<open>reserve_offlined_page\<close>): the block goes on its list, comes off
  again, and its other pages are put back in runs that start where the code happens to be.
\<close>

unbundle bit_operations_syntax

section \<open>Marking a page in use\<close>

definition offlining_info :: "page_info \<Rightarrow> ulong" where
  "offlining_info p = (count_info p AND NOT PGC_state) OR PGC_state_offlining"

lemma offlining_state:
  assumes "plain_inuse p" "count_info q = offlining_info p"
  shows "page_state_is q PGC_state_offlining" "\<not> page_state_is q PGC_state_offlined" "\<not> page_state_is q PGC_state_free"
    "freed_count_info q = PGC_state_offlined" "\<not> is_xen_heap_page q"
proof -
  have m: "((x AND NOT PGC_state) OR PGC_state_offlining) AND PGC_state = PGC_state_offlining" for x
  proof -
    have "((x AND NOT PGC_state) OR PGC_state_offlining) AND PGC_state = PGC_state_offlining AND PGC_state"
      by (rule bit_word_eqI) (auto simp: bit_simps)
    then show ?thesis by (simp add: PGC_state_offlining_def PGC_state_def PG_mask_def)
  qed
  have keep: "((x AND NOT PGC_state) OR PGC_state_offlining) AND b = x AND b"
    if "PGC_state AND b = 0" "PGC_state_offlining AND b = 0" for x b
  proof (rule bit_word_eqI)
    fix n assume "n < LENGTH(64)"
    have "\<not> bit (PGC_state AND b) n" "\<not> bit (PGC_state_offlining AND b) n" unfolding that by simp_all
    then show "bit (((x AND NOT PGC_state) OR PGC_state_offlining) AND b) n = bit (x AND b) n"
      using \<open>n < LENGTH(64)\<close> by (auto simp: bit_and_iff bit_or_iff bit_not_iff)
  qed
  show o: "page_state_is q PGC_state_offlining" using m assms(2) by (simp add: page_state_is_def offlining_info_def)
  then show "\<not> page_state_is q PGC_state_offlined" "\<not> page_state_is q PGC_state_free"
    by (simp_all add: page_state_is_def PGC_state_offlining_def PGC_state_offlined_def PGC_state_free_def PG_mask_def)
  have "PGC_state AND PGC_broken = 0" "PGC_state_offlining AND PGC_broken = 0"
    "PGC_state AND PGC_xen_heap = 0" "PGC_state_offlining AND PGC_xen_heap = 0"
    by (simp_all add: PGC_state_def PGC_broken_def PGC_xen_heap_def PGC_state_offlining_def PG_mask_def)
  then show "freed_count_info q = PGC_state_offlined" "\<not> is_xen_heap_page q"
    using o assms keep by (simp_all add: freed_count_info_def plain_inuse_def is_xen_heap_page_def offlining_info_def)
qed

lemma offline_inuse_page:
  assumes "plain_inuse (frame_table s p)" "mfn_valid env p" "\<not> is_xen_fixed_mfn env p" "is_conventional_ram env p"
    "\<And>a. page_get_owner (frame_table s p) = Some a \<Longrightarrow> mem_domains s a \<noteq> None"
  shows "\<exists>status'. offline_page env s p False status =
    Some (upd_page p (\<lambda>q. q\<lparr>count_info := offlining_info (frame_table s p)\<rparr>) s, status', 0)"
proof -
  let ?x = "count_info (frame_table s p)"
  let ?s = "upd_page p (\<lambda>q. q\<lparr>count_info := offlining_info (frame_table s p)\<rparr>) s"
  have "?x AND PGC_state = 0" using assms(1) by (simp add: plain_inuse_def page_state_is_def PGC_state_inuse_def PG_mask_def)
  then have "mark_page_offline s p False = (?s, ?x)"
    by (simp add: mark_page_offline_def offlining_info_def Let_def PGC_state_offlined_def PGC_state_offlining_def PGC_state_free_def PG_mask_def)
  moreover have "\<not> page_state_is (frame_table ?s p) PGC_state_offlined" "\<not> page_state_is (frame_table ?s p) PGC_state_free"
    using offlining_state(2,3) [OF assms(1), of "frame_table ?s p"] by simp_all
  moreover have "page_get_owner (frame_table ?s p) = page_get_owner (frame_table s p)" by (simp add: page_get_owner_def)
  ultimately show ?thesis
    using assms(2-5) by (auto simp: offline_page_def Let_def page_get_owner_and_reference_def split: option.split)
qed

section \<open>Releasing\<close>

lemma release_pages_eq:
  assumes "\<forall>p \<in> {pg..<pg + n}. \<not> page_state_is (frame_table s p) PGC_state_offlined"
  shows "release_pages env s pg n t =
    Some (s\<lparr>frame_table := (\<lambda>p. if p \<in> {pg..<pg + n} then freed_page env (frame_table s p) else frame_table s p)\<rparr>,
      t \<or> (\<exists>p \<in> {pg..<pg + n}. page_state_is (freed_page env (frame_table s p)) PGC_state_offlined))"
  using assms
proof (induction n arbitrary: s pg t)
  case (Suc n)
  let ?s = "upd_page pg (freed_page env) s"
  have i: "{pg..<pg + Suc n} = insert pg {pg + 1..<pg + 1 + n}" by auto
  let ?t = "t \<or> page_state_is (freed_page env (frame_table s pg)) PGC_state_offlined"
  have "release_pages env s pg (Suc n) t = release_pages env ?s (pg + 1) n ?t" using Suc.prems by (simp add: Let_def)
  also have "\<dots> = Some (?s\<lparr>frame_table := (\<lambda>p. if p \<in> {pg + 1..<pg + 1 + n} then freed_page env (frame_table ?s p) else frame_table ?s p)\<rparr>,
      ?t \<or> (\<exists>p \<in> {pg + 1..<pg + 1 + n}. page_state_is (freed_page env (frame_table ?s p)) PGC_state_offlined))"
    using Suc.prems by (intro Suc.IH) (simp add: i)
  also have "?s\<lparr>frame_table := (\<lambda>p. if p \<in> {pg + 1..<pg + 1 + n} then freed_page env (frame_table ?s p) else frame_table ?s p)\<rparr> =
      s\<lparr>frame_table := (\<lambda>p. if p \<in> {pg..<pg + Suc n} then freed_page env (frame_table s p) else frame_table s p)\<rparr>"
    by (auto simp: upd_page_def i fun_eq_iff)
  also have "(?t \<or> (\<exists>p \<in> {pg + 1..<pg + 1 + n}. page_state_is (freed_page env (frame_table ?s p)) PGC_state_offlined)) \<longleftrightarrow>
      t \<or> (\<exists>p \<in> {pg..<pg + Suc n}. page_state_is (freed_page env (frame_table s p)) PGC_state_offlined)"
    unfolding i by auto
  finally show ?case .
qed simp

section \<open>Putting the runs back\<close>

lemma merge_order_Some:
  assumes "head \<le> cur" "i < head_order"
  shows "\<exists>j. merge_order s head head_order cur i = Some j"
  using assms
proof (induction "head_order - i" arbitrary: i rule: less_induct)
  case less
  show ?case
  proof (cases "cur + 2 ^ (i + 1) \<ge> head + 2 ^ head_order")
    case False
    then have "i + 1 \<noteq> head_order" using less.prems(1) by auto
    then have "\<exists>j. merge_order s head head_order cur (i + 1) = Some j" using less.prems by (intro less.hyps) auto
    then show ?thesis using less.prems(2) by (subst merge_order.simps) (auto simp: Let_def)
  qed (use less.prems(2) in \<open>subst merge_order.simps, auto simp: Let_def\<close>)
qed

text \<open>From the second page of a block without further offlined pages the run has half the size of the block.\<close>

lemma merge_order_second:
  assumes "\<forall>p \<in> {head + 1..<head + 2 ^ head_order}. \<not> page_state_is (frame_table s p) PGC_state_offlined" "i < head_order"
  shows "merge_order s head head_order (head + 1) i = Some (head_order - 1)"
  using assms(2)
proof (induction "head_order - i" arbitrary: i rule: less_induct)
  case less
  show ?case
  proof (cases "i + 1 = head_order")
    case True
    then show ?thesis by (subst merge_order.simps) (auto simp: Let_def)
  next
    case False
    then have le: "i + 2 \<le> head_order" using less.prems by simp
    have "(2 :: nat) ^ (i + 2) \<le> 2 ^ head_order" by (rule power_increasing [OF le]) simp
    moreover have "(1 :: nat) \<le> 2 ^ i" by simp
    moreover have "(2 :: nat) ^ (i + 2) = 4 * 2 ^ i" "(2 :: nat) ^ (i + 1) = 2 * 2 ^ i" by simp_all
    ultimately have lt: "head + 1 + 2 ^ (i + 1) < head + 2 ^ head_order" by linarith
    have "no_offlined s (head + 1 + 2 ^ i) (head + 1 + 2 ^ (i + 1))"
      unfolding no_offlined_def list_all_iff using assms(1) lt by auto
    moreover have "merge_order s head head_order (head + 1) (i + 1) = Some (head_order - 1)" using le by (intro less.hyps) auto
    ultimately show ?thesis using less.prems lt by (subst merge_order.simps) (simp add: Let_def)
  qed
qed

lemma put_back_total:
  assumes "head \<le> cur" "0 < head_order"
  shows "\<exists>s'. put_back s node zone head head_order cur = Some s' \<and> (\<forall>n z j. set (heap s n z j) \<subseteq> set (heap s' n z j)) \<and>
    avail s' = avail s \<and> total_avail_pages s' = total_avail_pages s"
  using assms
proof (induction s node zone head head_order cur rule: put_back.induct)
  case (1 s node zone head head_order cur)
  show ?case
  proof (cases "cur < head + 2 ^ head_order")
    case lt: True
    show ?thesis
    proof (cases "page_state_is (frame_table s cur) PGC_state_offlined")
      case True
      then show ?thesis using lt 1 by (subst put_back.simps) simp
    next
      case False
      obtain j where j: "merge_order s head head_order cur 0 = Some j" using merge_order_Some [OF 1(3,4)] by blast
      let ?s = "upd_page cur (set_PFN_ORDER j) (heap_add_tail cur node zone j s)"
      have sel: "avail ?s = avail s" "total_avail_pages ?s = total_avail_pages s" "set (heap s n z i) \<subseteq> set (heap ?s n z i)" for n z i
        by (auto simp: heap_add_tail_def)
      obtain s' where "put_back ?s node zone head head_order (cur + 2 ^ j) = Some s'" "\<forall>n z i. set (heap ?s n z i) \<subseteq> set (heap s' n z i)"
        "avail s' = avail ?s" "total_avail_pages s' = total_avail_pages ?s"
        using 1(2) [OF lt False j] 1(3,4) by auto
      moreover from this(2) have "set (heap s n z i) \<subseteq> set (heap s' n z i)" for n z i using order_trans [OF sel(3)] by blast
      ultimately show ?thesis using lt False j sel(1,2) by (subst put_back.simps) auto
    qed
  qed (subst put_back.simps, simp)
qed

lemma reserve_pages_total:
  assumes "avail s node = Some av" "node < MAX_NUMNODES" "zone < NR_ZONES" "int n \<le> total_avail_pages s"
  shows "\<exists>s' c'. reserve_pages s node zone pg n c = Some (s', c') \<and> heap s' = heap s"
  using assms
proof (induction n arbitrary: s pg c av)
  case (Suc n)
  show ?case
  proof (cases "page_state_is (frame_table s pg) PGC_state_offlined")
    case False
    have "int n \<le> total_avail_pages s" using Suc.prems(4) by simp
    from Suc.IH [OF Suc.prems(1-3) this, of "pg + 1" c] False show ?thesis by simp
  next
    case True
    define s1 where "s1 = s\<lparr>avail := (avail s)(node \<mapsto> av(zone := av zone - 1)), total_avail_pages := total_avail_pages s - 1\<rparr>"
    define s2 where "s2 = (if count_info (frame_table s1 pg) AND PGC_broken \<noteq> 0
          then s1\<lparr>page_broken_list := page_broken_list s1 @ [pg]\<rparr> else s1\<lparr>page_offlined_list := page_offlined_list s1 @ [pg]\<rparr>)"
    have sel: "avail s2 node = Some (av(zone := av zone - 1))" "total_avail_pages s2 = total_avail_pages s - 1" "heap s2 = heap s"
      by (simp_all add: s2_def s1_def)
    have "int n \<le> total_avail_pages s2" using Suc.prems(4) sel(2) by simp
    from Suc.IH [OF sel(1) Suc.prems(2,3) this, of "pg + 1" "c + 1"]
    obtain s' c' where "reserve_pages s2 node zone (pg + 1) n (c + 1) = Some (s', c')" "heap s' = heap s2" by blast
    moreover have "reserve_pages s node zone pg (Suc n) c = reserve_pages s2 node zone (pg + 1) n (c + 1)"
      using True Suc.prems by (simp add: avail_add_def Let_def s1_def s2_def)
    ultimately show ?thesis using sel(3) by simp
  qed
qed simp

section \<open>Freeing a block with a marked page\<close>

lemma reserve_first_page:
  assumes s: "frame_table s pg = p0" "page_state_is p0 PGC_state_offlined" "\<not> is_xen_heap_page p0" "PFN_ORDER p0 = k"
    and rest: "\<forall>p \<in> {pg + 1..<pg + 2 ^ k}. \<not> page_state_is (frame_table s p) PGC_state_offlined"
    and k: "1 \<le> k" and pg: "0 < pg" "pg < 2 ^ NR_ZONES" "pg \<in> set (heap s (phys_to_nid env pg) (zone_of pg) k)"
    and av: "avail s (phys_to_nid env pg) = Some av" "phys_to_nid env pg < MAX_NUMNODES" "2 ^ k \<le> total_avail_pages s"
  shows "\<exists>s' c. reserve_offlined_page env s pg = Some (s', c) \<and> pg + 1 \<in> set (heap s' (phys_to_nid env pg) (zone_of pg) (k - 1))"
proof -
  let ?n = "phys_to_nid env pg" and ?z = "zone_of pg"
  have z: "page_to_zone s pg = ?z" "?z < NR_ZONES" using page_to_zone_eq [of s pg] s(1,3) pg zone_of_bound by simp_all
  define s1 where "s1 = upd_heap ?n ?z k (remove1 pg (heap s ?n ?z k)) s"
  define s2 where "s2 = upd_page (pg + 1) (set_PFN_ORDER (k - 1)) (heap_add_tail (pg + 1) ?n ?z (k - 1) s1)"
  have f1: "frame_table s1 = frame_table s" by (simp add: s1_def)
  have two: "(2 :: nat) \<le> 2 ^ k" using k power_increasing [of 1 k "2 :: nat"] by simp
  have m: "merge_order s1 pg k (pg + 1) 0 = Some (k - 1)" by (rule merge_order_second) (use rest k f1 in auto)
  have "put_back s1 ?n ?z pg k pg = put_back s1 ?n ?z pg k (pg + 1)"
    using s(1,2) by (subst put_back.simps) (simp add: f1)
  also have "\<dots> = put_back s2 ?n ?z pg k (pg + 1 + 2 ^ (k - 1))"
    using rest two by (subst put_back.simps) (simp add: f1 m [simplified] s2_def)
  finally have pb: "put_back s1 ?n ?z pg k pg = put_back s2 ?n ?z pg k (pg + 1 + 2 ^ (k - 1))" .
  obtain s3 where s3: "put_back s2 ?n ?z pg k (pg + 1 + 2 ^ (k - 1)) = Some s3" "\<forall>n z j. set (heap s2 n z j) \<subseteq> set (heap s3 n z j)"
    "avail s3 = avail s2" "total_avail_pages s3 = total_avail_pages s2"
    using put_back_total [of pg "pg + 1 + 2 ^ (k - 1)" k s2 ?n ?z] k by auto
  have "avail s3 ?n = Some av" "int (2 ^ k) \<le> total_avail_pages s3"
    using s3(3,4) av by (simp_all add: s2_def s1_def heap_add_tail_def)
  from reserve_pages_total [OF this(1) av(2) z(2) this(2)]
  obtain s' c where "reserve_pages s3 ?n ?z pg (2 ^ k) 0 = Some (s', c)" "heap s' = heap s3" by blast
  moreover have "pg + 1 \<in> set (heap s2 ?n ?z (k - 1))" by (simp add: s2_def heap_add_tail_def)
  ultimately show ?thesis
    using s3(1,2) pg(3) s(1,4) by (auto simp: reserve_offlined_page_def z(1) heap_del_def page_list_del_def s1_def [symmetric] pb Let_def)
qed

lemma free_marked_block:
  assumes inv: "heap_inv env s" and fr: "freeable env s pg k" and k: "1 \<le> k"
    and bud: "k < MAX_ORDER \<Longrightarrow> \<not> free_page s (buddy pg k)"
  shows "\<exists>s'. free_heap_pages env (upd_page pg (\<lambda>q. q\<lparr>count_info := offlining_info (frame_table s pg)\<rparr>) s) pg k = Some s' \<and>
    pg + 1 \<in> set (heap s' (phys_to_nid env pg) (zone_of pg) (k - 1))"
proof -
  have ok: "counts_ok env s" using inv by (simp add: heap_inv_def)
  have o: "k \<le> MAX_ORDER" "2 ^ k dvd pg" and K: "\<And>p. p \<in> chunk pg k \<Longrightarrow> managed env p \<and> plain_inuse (frame_table s p)"
    using fr by (simp_all add: freeable_def)
  let ?n = "phys_to_nid env pg" and ?z = "zone_of pg"
  obtain av where av: "avail s ?n = Some av" using fr by (auto simp: freeable_def)
  then have nd: "?n < MAX_NUMNODES" using ok by (simp add: counts_ok_def)
  have pg: "0 < pg" "pg < 2 ^ NR_ZONES" using K [of pg] by (simp_all add: managed_def)
  define s1 where "s1 = upd_page pg (\<lambda>q. q\<lparr>count_info := offlining_info (frame_table s pg)\<rparr>) s"
  note off = offlining_state [of "frame_table s pg" "frame_table s1 pg"]
  have p1: "plain_inuse (frame_table s pg)" "count_info (frame_table s1 pg) = offlining_info (frame_table s pg)"
    using K [of pg] by (simp_all add: s1_def)
  have z: "page_to_zone s1 pg = ?z" "?z < NR_ZONES" using page_to_zone_eq [OF off(5) [OF p1] pg] zone_of_bound [OF pg] by simp_all
  have f1: "frame_table s1 p = frame_table s p" if "p \<noteq> pg" for p using that by (simp add: s1_def)
  define T where "T p = (if p \<in> {pg..<pg + 2 ^ k} then freed_page env (frame_table s1 p) else frame_table s1 p)" for p
  have Tpg: "count_info (T pg) = PGC_state_offlined" using off(4) [OF p1] by (simp add: T_def)
  have st: "page_state_is (T pg) PGC_state_offlined" "\<not> is_xen_heap_page (T pg)"
    using Tpg by (simp_all add: page_state_is_def is_xen_heap_page_def PGC_state_offlined_def PGC_state_def PGC_xen_heap_def PG_mask_def)
  have rest: "\<not> page_state_is (T p) PGC_state_offlined" if "p \<in> {pg + 1..<pg + 2 ^ k}" for p
  proof -
    have "count_info (T p) = PGC_state_free" using that K [of p] plain_inuse_states(3) f1 [of p] by (simp add: T_def chunk_def)
    then show ?thesis using PGC_free_state by (simp add: page_state_is_def)
  qed
  have nof: "\<not> page_state_is (frame_table s1 p) PGC_state_offlined" if "p \<in> {pg..<pg + 2 ^ k}" for p
    using that off(2) [OF p1] K [of p] plain_inuse_states(2) f1 [of p] by (cases "p = pg") (simp_all add: chunk_def)
  have "\<exists>p \<in> {pg..<pg + 2 ^ k}. page_state_is (freed_page env (frame_table s1 p)) PGC_state_offlined"
    using st(1) by (intro bexI [of _ pg]) (simp_all add: T_def)
  then have rel: "release_pages env s1 pg (2 ^ k) False = Some (s1\<lparr>frame_table := T\<rparr>, True)"
    using release_pages_eq [of pg "2 ^ k" s1 env False] nof unfolding T_def [abs_def] by simp
  let ?s2 = "s1\<lparr>frame_table := T, avail := (avail s1)(?n \<mapsto> av(?z := av ?z + 2 ^ k)), total_avail_pages := total_avail_pages s1 + 2 ^ k\<rparr>"
  define s2 where "s2 = (if opt_tmem env then ?s2\<lparr>midsize_alloc_zone_pages := max (midsize_alloc_zone_pages ?s2) (total_avail_pages ?s2 div MIDSIZE_ALLOC_FRAC)\<rparr> else ?s2)"
  have sel: "frame_table s2 = T" "avail s2 ?n = Some (av(?z := av ?z + 2 ^ k))" "total_avail_pages s2 = total_avail_pages s + 2 ^ k"
    by (simp_all add: s2_def s1_def)
  have merge: "merge_chunk env s2 ?n ?z pg k = Some (s2, pg, k)"
  proof (cases "k < MAX_ORDER")
    case True
    have "buddy pg k \<notin> chunk pg k"
      using buddy_pair(3) [OF o(2)] chunk_simps(1) [of "buddy pg k" k] by blast
    then have "T (buddy pg k) = frame_table s (buddy pg k)"
      using f1 [of "buddy pg k"] chunk_simps(1) [of pg k] unfolding T_def chunk_def by (metis)
    then have "\<not> buddy_free env s2 (buddy pg k) k" using bud [OF True] by (simp add: buddy_free_def sel(1) free_page_def)
    then show ?thesis using True by (subst merge_chunk.simps) (simp add: buddy_def Let_def split: if_splits)
  qed (subst merge_chunk.simps, simp)
  define s3 where "s3 = heap_add_tail pg ?n ?z k (upd_page pg (set_PFN_ORDER k) s2)"
  have f3: "frame_table s3 p = (if p = pg then set_PFN_ORDER k (T pg) else T p)" for p by (simp add: s3_def heap_add_tail_def sel(1))
  have "\<exists>s' c. reserve_offlined_page env s3 pg = Some (s', c) \<and> pg + 1 \<in> set (heap s' ?n ?z (k - 1))"
  proof (rule reserve_first_page [OF refl _ _ _ _ k pg _ _ nd])
    show "page_state_is (frame_table s3 pg) PGC_state_offlined" "\<not> is_xen_heap_page (frame_table s3 pg)" "PFN_ORDER (frame_table s3 pg) = k"
      using st o(1) by (simp_all add: f3 page_state_is_def is_xen_heap_page_def)
    show "\<forall>p \<in> {pg + 1..<pg + 2 ^ k}. \<not> page_state_is (frame_table s3 p) PGC_state_offlined" using rest by (auto simp: f3)
    show "pg \<in> set (heap s3 ?n ?z k)" by (simp add: s3_def heap_add_tail_def)
    show "avail s3 ?n = Some (av(?z := av ?z + 2 ^ k))" using sel(2) by (simp add: s3_def heap_add_tail_def)
    have "0 \<le> total_avail_pages s" using ok by (simp add: counts_ok_def)
    then show "2 ^ k \<le> total_avail_pages s3" using sel(3) by (simp add: s3_def heap_add_tail_def)
  qed
  moreover have "free_heap_pages env s1 pg k = do { (s, _) \<leftarrow> reserve_offlined_page env s3 pg; Some s }"
  proof -
    have "avail_add ?n ?z (2 ^ k) (s1\<lparr>frame_table := T\<rparr>) = Some (s1\<lparr>frame_table := T, avail := (avail s1)(?n \<mapsto> av(?z := av ?z + 2 ^ k))\<rparr>)"
      using av nd z(2) by (simp add: avail_add_def s1_def)
    then show ?thesis unfolding free_heap_pages_def Let_def z(1) s3_def using o(1) rel merge [unfolded s2_def]
      by (cases "opt_tmem env") (simp_all add: s2_def)
  qed
  ultimately show ?thesis unfolding s1_def [symmetric] by auto
qed

end
