(* ===== verification/Page_Theorems.thy ===== *)
theory Page_Theorems
  imports Buddy_Offline
begin

text \<open>
  The properties of the page allocator of \<^verbatim>\<open>xen/common/page_alloc.c\<close> after boot.  \<^const>\<open>heap_inv\<close> is its
  invariant, \<^const>\<open>allocates\<close> and \<^const>\<open>frees\<close> are the effects of an allocation and of a freeing.
\<close>

unbundle bit_operations_syntax

section \<open>Steps\<close>

text \<open>
  A step of the system as the heap sees it: an allocation, a freeing of pages that are in use, or a change that the users of
  pages in use make to them (owner, type, reference count).
\<close>

inductive heap_step :: "mem_env \<Rightarrow> heap_state \<Rightarrow> heap_state \<Rightarrow> bool" for env where
  alloc: "alloc_heap_pages env s zone_lo zone_hi node order flags = Some (s', r) \<Longrightarrow>
    zone_lo \<le> zone_hi \<Longrightarrow> zone_hi < NR_ZONES \<Longrightarrow> heap_step env s s'"
| free: "free_heap_pages env s pg order = Some s' \<Longrightarrow> freeable env s pg order \<Longrightarrow> heap_step env s s'"
| use: "(\<And>p. if free_page s p then T p = frame_table s p else \<not> page_state_is (T p) PGC_state_free) \<Longrightarrow>
    heap_step env s (s\<lparr>frame_table := T, mem_domains := D\<rparr>)"

definition empty_heap :: "heap_state \<Rightarrow> bool" where
  "empty_heap s \<longleftrightarrow> (\<forall>p. \<not> free_page s p) \<and> (\<forall>node zone order. heap s node zone order = []) \<and>
     (\<forall>node av zone. avail s node = Some av \<longrightarrow> av zone = 0 \<and> node < MAX_NUMNODES) \<and> total_avail_pages s = 0"

lemma empty_heap_inv:
  assumes "empty_heap s"
  shows "heap_inv env s"
proof -
  have "\<not> free_page s p" "heap s node zone order = []" "total_avail_pages s = 0" for p node zone order
    using assms by (simp_all add: empty_heap_def)
  moreover have "av zone = 0" "node < MAX_NUMNODES" if "avail s node = Some av" for node av zone using assms that by (simp_all add: empty_heap_def)
  ultimately show ?thesis by (auto simp add: heap_inv_def chunks_ok_def counts_ok_def coalesced_def listed_def free_in_def)
qed

lemma allocatesD:
  assumes "allocates env s pg order s'"
  shows "heap_inv env s'" "2 ^ order dvd pg" "\<And>p. p \<in> chunk pg order \<Longrightarrow> free_page s p \<and> managed env p"
    "\<And>p. p \<in> chunk pg order \<Longrightarrow> count_info (frame_table s' p) = PGC_state_inuse"
    "\<And>p. free_page s' p \<longleftrightarrow> free_page s p \<and> p \<notin> chunk pg order" "\<And>n. avail s' n = None \<longleftrightarrow> avail s n = None"
  using assms unfolding allocates_def by blast+

text \<open>An allocation that names a node of the arrays never crashes, whatever else it is asked for.\<close>

lemma alloc_heap_pages_total:
  assumes "heap_inv env s" "zone_lo \<le> zone_hi" "zone_hi < NR_ZONES" "node_ok env node"
  shows "\<exists>s' r. alloc_heap_pages env s zone_lo zone_hi node order flags = Some (s', r) \<and> heap_inv env s'"
proof (cases "order \<le> MAX_ORDER \<and>
    \<not> (opt_tmem env \<and> (order = 0 \<or> order \<ge> 9) \<and> total_avail_pages s \<le> midsize_alloc_zone_pages s \<and> tmem_freeable_pages env \<noteq> 0)")
  case True
  from alloc_heap_pages_cases [OF assms(1-3) conjunct1 [OF True] assms(4) conjunct2 [OF True], of flags] show ?thesis
    using assms(1) by (elim disjE exE conjE) (auto dest: allocatesD(1))
next
  case False
  then have "alloc_heap_pages env s zone_lo zone_hi node order flags = Some (s, None) \<or>
      alloc_heap_pages env s zone_lo zone_hi node order flags = Some (s, tmem_relinquish_pages env order flags)"
    unfolding alloc_heap_pages_def Let_def using assms(2,3) by auto
  then show ?thesis using assms(1) by blast
qed

lemma alloc_heap_pages_inv:
  assumes "heap_inv env s" "zone_lo \<le> zone_hi" "zone_hi < NR_ZONES"
    "alloc_heap_pages env s zone_lo zone_hi node order flags = Some (s', r)"
  shows "heap_inv env s'"
proof (cases "node_ok env node")
  case True
  then show ?thesis using alloc_heap_pages_total [OF assms(1-3) True, of order flags] assms(4) by auto
next
  case False
  then have "s' = s" using assms(4) by (auto simp: alloc_heap_pages_def node_ok_def Let_def split: if_splits)
  then show ?thesis using assms(1) by simp
qed

lemma use_inv:
  assumes "heap_inv env s" and T: "\<And>p. if free_page s p then T p = frame_table s p else \<not> page_state_is (T p) PGC_state_free"
  shows "heap_inv env (s\<lparr>frame_table := T, mem_domains := D\<rparr>)"
proof -
  let ?s = "s\<lparr>frame_table := T, mem_domains := D\<rparr>"
  have ok: "chunks_ok env s {}" "counts_ok env s" "coalesced s" using assms(1) by (simp_all add: heap_inv_def)
  have free: "free_page ?s p \<longleftrightarrow> free_page s p" for p using T [of p] by (auto simp: free_page_def split: if_splits)
  have same: "T p = frame_table s p" if "free_page s p" for p using T [of p] that by simp
  have lst: "listed ?s h j \<longleftrightarrow> listed s h j" for h j by (simp add: listed_def)
  have "chunks_ok env ?s {}" unfolding chunks_ok_def lst
  proof (intro conjI allI ballI impI)
    show "head_ok env ?s n z j h" if "h \<in> set (heap ?s n z j)" for n z j h
    proof -
      have h: "h \<in> set (heap s n z j)" using that by simp
      then have "listed s h j" by (auto simp: listed_def)
      then have "free_page s h" using chunks_okD(5) [OF ok(1), of h] chunk_simps(1) [of h j] by blast
      then show ?thesis using chunks_okD(2) [OF ok(1) h] same by (simp add: head_ok_def)
    qed
    show "h = h'" "j = j'" if "listed s h j \<and> listed s h' j' \<and> chunk h j \<inter> chunk h' j' \<noteq> {}" for h j h' j'
      using chunks_okD(4) [OF ok(1), of h j h' j'] that by blast+
    show "free_page ?s p \<longleftrightarrow> p \<in> {} \<or> (\<exists>h j. listed s h j \<and> p \<in> chunk h j)" for p
      unfolding free using chunks_okD(5) [OF ok(1), of p] by blast
    show "count_info (frame_table ?s p) = PGC_state_free" "managed env p" if "free_page ?s p" for p
      using that chunks_okD(6) [OF ok(1), of p] same [of p] unfolding free by simp_all
  qed (use chunks_okD(1) [OF ok(1)] in simp_all)
  moreover have "counts_ok env ?s" using ok(2) by (simp add: counts_ok_def free_in_def free)
  moreover have "coalesced ?s" using ok(3) by (simp add: coalesced_def lst)
  ultimately show ?thesis by (simp add: heap_inv_def)
qed

lemma heap_step_inv:
  assumes "heap_step env s s'" "heap_inv env s"
  shows "heap_inv env s'"
  using assms(1)
proof cases
  case (alloc zone_lo zone_hi node order flags r)
  then show ?thesis using alloc_heap_pages_inv [OF assms(2)] by blast
next
  case (free pg order)
  then show ?thesis using free_heap_pages_spec [OF assms(2) free(2)] by (simp add: frees_def)
next
  case (use T D)
  then show ?thesis using use_inv [OF assms(2) use(2)] by simp
qed

text \<open>What was allocated may be freed.\<close>

lemma allocates_freeable:
  assumes "heap_inv env s" "allocates env s pg order s1" "order \<le> MAX_ORDER"
  shows "freeable env s1 pg order"
proof -
  have plain: "plain_inuse p" if "count_info p = PGC_state_inuse" for p
    using that by (simp add: plain_inuse_def page_state_is_def is_xen_heap_page_def PGC_state_inuse_def PG_mask_def)
  have "free_page s pg" using allocatesD(3) [OF assms(2)] chunk_simps(1) [of pg order] by blast
  then have "avail s (phys_to_nid env pg) \<noteq> None" using assms(1) by (simp add: heap_inv_def counts_ok_def)
  then show ?thesis using allocatesD(2,3,4,6) [OF assms(2)] assms(3) plain by (simp add: freeable_def)
qed

interpretation pages: invariant_steps "heap_step env" "heap_inv env" for env
  by unfold_locales (rule heap_step_inv)

section \<open>Offlining a free page\<close>

text \<open>The search for a chunk looks only at the lists and the counters, and halving a chunk only at its place.\<close>

lemma zone_candidate_cong: "heap s' = heap s \<Longrightarrow> avail s' = avail s \<Longrightarrow> zone_candidate s' node zone order = zone_candidate s node zone order"
  by (simp add: zone_candidate_def smallest_order_def split: option.split)

lemma scan_zones_cong:
  assumes "heap s' = heap s" "avail s' = avail s"
  shows "scan_zones s' node order zone_lo zone = scan_zones s node order zone_lo zone"
  by (induction zone) (subst (1 2) scan_zones.simps, simp add: zone_candidate_cong [OF assms] split: option.split)+

lemma scan_nodes_cong:
  assumes "heap s' = heap s" "avail s' = avail s"
  shows "scan_nodes env s' order zone_lo zone_hi node n = scan_nodes env s order zone_lo zone_hi node n"
  by (induction n arbitrary: node) (simp_all add: scan_zones_cong [OF assms] split: option.split)

lemma halve_place: "snd (halve s' node zone order pg j) = snd (halve s node zone order pg j)"
  by (induction j arbitrary: s s' pg) (simp_all split: prod.split)

lemma halve_keeps:
  "halve s node zone order pg j = (s2, q) \<Longrightarrow> avail s2 = avail s \<and> total_avail_pages s2 = total_avail_pages s \<and>
     (\<forall>p. count_info (frame_table s2 p) = count_info (frame_table s p))"
proof (induction j arbitrary: s pg)
  case (Suc j)
  show ?case
  proof (cases "Suc j = order")
    case False
    then show ?thesis
      using Suc.IH [of "heap_add_tail pg node zone j (upd_page pg (set_PFN_ORDER j) s)" "pg + 2 ^ j"] Suc.prems
      by (simp add: heap_add_tail_def upd_heap_def upd_page_def set_PFN_ORDER_def)
  qed (use Suc.prems [unfolded halve.simps(2)] in simp)
qed simp

text \<open>Claiming a block with a page that is not free in it runs into the \<^verbatim>\<open>BUG_ON\<close>.\<close>

lemma claim_pages_stuck:
  assumes "pg \<le> p" "p < pg + n" "count_info (frame_table s p) \<noteq> PGC_state_free"
  shows "claim_pages env s pg n cpus = None"
  using assms
proof (induction n arbitrary: s pg cpus)
  case (Suc n)
  show ?case
  proof (cases "pg = p")
    case False
    then have "claim_pages env (upd_page pg f s) (pg + 1) n c = None" for f c
      using Suc.prems by (intro Suc.IH) (simp_all add: upd_page_def)
    then show ?thesis by (simp add: Let_def split: Option.bind_splits)
  qed (use Suc.prems(3) in \<open>simp add: bug_on_def\<close>)
qed simp

lemma offline_free_page:
  assumes "count_info (frame_table s p) = PGC_state_free" "mfn_valid env p" "\<not> is_xen_fixed_mfn env p" "is_conventional_ram env p"
  shows "offline_page env s p False status =
    Some (upd_page p (\<lambda>q. q\<lparr>count_info := PGC_state_offlined\<rparr>) s, PG_OFFLINE_OFFLINED, 0)"
  using assms
  by (simp add: offline_page_def mark_page_offline_def page_state_is_def upd_page_def PGC_state_free_def PGC_state_def PGC_state_offlined_def
      PGC_state_offlining_def PG_mask_def Let_def)

text \<open>Bringing a broken offlined page back online is refused, but the page is freed all the same, and the assertion there fails.\<close>

lemma online_broken_page_crashes:
  assumes "mfn_valid env mfn" "count_info (frame_table s mfn) AND PGC_broken \<noteq> 0" "page_state_is (frame_table s mfn) PGC_state_offlined"
  shows "online_page env s mfn status = None"
  using assms by (simp add: online_page_def free_heap_pages_def page_state_is_def Let_def bug_on_def)

section \<open>A small machine\<close>

text \<open>
  One node with 16 pages.  In \<open>start_heap\<close> no page is free; in \<open>small_heap\<close> the pages 4 to 7 are, as one chunk, and in \<open>full_heap\<close>
  they have been allocated again.
\<close>

definition small_env :: mem_env where
  "small_env = \<lparr>phys_to_nid = \<lambda>_. 0, mfn_valid = \<lambda>p. p < 16, is_conventional_ram = \<lambda>_. True, is_xen_fixed_mfn = \<lambda>_. False,
     directmap_end = 16, node_online = \<lambda>n. n = 0, current_node = 0, cpu_online_map = [0, 1], tlbflush_time = \<lambda>_. 1,
     tlbflush_current_time = 5, opt_tmem = False, tmem_freeable_pages = 0, tmem_relinquish_pages = \<lambda>_ _. None, dom_cow = 0xFFFF\<rparr>"

definition start_heap :: heap_state where
  "start_heap = \<lparr>frame_table = \<lambda>_. \<lparr>count_info = 0, page_u = 0, page_v = 0, tlbflush_timestamp = 0\<rparr>, heap = \<lambda>_ _ _. [],
     avail = [0 \<mapsto> \<lambda>_. 0], total_avail_pages = 0, midsize_alloc_zone_pages = 0, page_offlined_list = [], page_broken_list = [],
     first_node_initialised = True, dma_bitsize = 0, mem_domains = Map.empty, tlb_flushes = [], scrubbed = []\<rparr>"

definition free_info :: "nat \<Rightarrow> page_info" where
  "free_info order = \<lparr>count_info = PGC_state_free, page_u = 0, page_v = of_nat order, tlbflush_timestamp = 0\<rparr>"

definition small_heap :: heap_state where
  "small_heap = start_heap\<lparr>frame_table := (frame_table start_heap)(4 := free_info 2, 5 := free_info 0, 6 := free_info 0, 7 := free_info 0),
     heap := (heap start_heap)(0 := (heap start_heap 0)(2 := (heap start_heap 0 2)(2 := [4]))),
     avail := [0 \<mapsto> (\<lambda>_. 0)(2 := 4)], total_avail_pages := 4\<rparr>"

definition full_heap :: heap_state where
  "full_heap = fst (the (alloc_heap_pages small_env small_heap 1 2 0 2 0))"

lemma start_heap_empty: "empty_heap start_heap"
  by (simp add: empty_heap_def start_heap_def free_page_def page_state_is_def PGC_state_free_def PG_mask_def MAX_NUMNODES_def)

lemma start_heap_freeable: "freeable small_env start_heap 4 2"
proof -
  have "p < 2 ^ NR_ZONES" if "p < 16" for p :: nat using that by (simp add: NR_ZONES_def PADDR_BITS_def PAGE_SHIFT_def)
  then show ?thesis
    by (simp add: freeable_def chunk_def small_env_def start_heap_def managed_def plain_inuse_def page_state_is_def
        is_xen_heap_page_def PGC_state_inuse_def PG_mask_def MAX_ORDER_def)
qed

lemma page_zone_4: "page_to_zone start_heap 4 = 2" by code_simp
lemma pages_4_7: "{4..<4 + 2 ^ 2} = {4, 5, 6, 7 :: nat}" by auto

lemma small_heap_freed: "free_heap_pages small_env start_heap 4 2 = Some small_heap"
proof -
  let ?info = "\<lambda>p. if p \<in> {4..<4 + 2 ^ 2} then freed_page small_env (frame_table start_heap p) else frame_table start_heap p"
  have "freed_page small_env (frame_table start_heap p) = free_info 0" for p
    by (simp add: freed_page_def freed_count_info_def start_heap_def free_info_def page_get_owner_def set_need_tlbflush_def need_tlbflush_def
        page_state_is_def PGC_state_offlining_def PG_mask_def Let_def)
  then have info: "?info = (frame_table start_heap)(4 := free_info 0, 5 := free_info 0, 6 := free_info 0, 7 := free_info 0)"
    unfolding pages_4_7 by auto
  have rel: "release_pages small_env start_heap 4 (2 ^ 2) False = Some (start_heap\<lparr>frame_table := ?info\<rparr>, False)"
    by (rule release_pages_spec) (simp add: start_heap_def plain_inuse_def page_state_is_def is_xen_heap_page_def PGC_state_inuse_def PG_mask_def)
  have "bit (4 :: nat) 2" by code_simp
  then have merge: "merge_chunk small_env s 0 2 4 2 = Some (s, 4, 2)" if "\<not> page_state_is (frame_table s 0) PGC_state_free" for s
    by (subst merge_chunk.simps) (simp add: that buddy_free_def MAX_ORDER_def)
  have "\<not> NR_ZONES \<le> 2" by code_simp
  moreover have "avail start_heap = [0 \<mapsto> \<lambda>_. 0]" "total_avail_pages start_heap = 0"
    "\<not> page_state_is (frame_table start_heap 0) PGC_state_free"
    by (simp_all add: start_heap_def page_state_is_def PGC_state_free_def PG_mask_def)
  ultimately have "free_heap_pages small_env start_heap 4 2 = Some (heap_add_tail 4 0 2 2 (upd_page 4 (set_PFN_ORDER 2)
      (start_heap\<lparr>frame_table := (frame_table start_heap)(4 := free_info 0, 5 := free_info 0, 6 := free_info 0, 7 := free_info 0),
         avail := [0 \<mapsto> (\<lambda>_. 0)(2 := 4)], total_avail_pages := 4\<rparr>)))"
    unfolding free_heap_pages_def page_zone_4 rel info
    by (simp add: Let_def MAX_ORDER_def small_env_def [THEN arg_cong, of phys_to_nid] small_env_def [THEN arg_cong, of opt_tmem] merge avail_add_def MAX_NUMNODES_def)
  also have "\<dots> = Some small_heap"
    by (simp add: small_heap_def heap_add_tail_def upd_heap_def upd_page_def start_heap_def set_PFN_ORDER_def free_info_def fun_upd_twist)
  finally show ?thesis .
qed

lemma small_heap_inv: "heap_inv small_env small_heap"
  using free_heap_pages_spec [OF empty_heap_inv [OF start_heap_empty] start_heap_freeable] by (auto simp: small_heap_freed frees_def)

lemmas small_heap = small_heap_freed small_heap_inv

lemma small_heap_alloc:
  "alloc_heap_pages small_env small_heap 1 2 0 2 0 = Some (full_heap, Some 4)"
proof -
  have "map_option snd (alloc_heap_pages small_env small_heap 1 2 0 2 0) = Some (Some 4)" by code_simp
  then show ?thesis by (auto simp: full_heap_def)
qed

lemma small_env_sel [simp]:
  "\<not> opt_tmem small_env" "tmem_relinquish_pages small_env order flags = None" "node_online small_env 0"
  "is_conventional_ram small_env p" "\<not> is_xen_fixed_mfn small_env p"
  by (simp_all add: small_env_def)

lemma small_zones: "2 < NR_ZONES" "2 \<le> MAX_ORDER" by code_simp+

lemma small_node: "node_ok small_env 0" by code_simp

lemma full_heap_alloc: "allocates small_env small_heap 4 2 full_heap"
  using alloc_heap_pages_cases [OF small_heap(2), of 1 2 2 0 0] small_heap_alloc small_zones small_node by simp

lemma small_heap_free: "free_page small_heap 4"
  using allocatesD(3) [OF full_heap_alloc, of 4] by (simp add: chunk_def)

lemma small_steps: "(heap_step small_env)\<^sup>*\<^sup>* start_heap full_heap"
proof -
  have "heap_step small_env start_heap small_heap" by (rule heap_step.free [OF small_heap(1) start_heap_freeable])
  moreover have "heap_step small_env small_heap full_heap" by (rule heap_step.alloc [OF small_heap_alloc]) (simp_all add: small_zones)
  ultimately show ?thesis by (meson converse_rtranclp_into_rtranclp r_into_rtranclp)
qed

section \<open>Properties\<close>

text \<open>
  C4: from an empty heap, after any sequence of allocations, freeings and uses, the free pages are exactly partitioned into
  the listed chunks, which are aligned, disjoint, in the right node and zone and merged with their buddies; the counters are
  exact; and then no allocation request in existing zones that names one of the \<^verbatim>\<open>MAX_NUMNODES\<close> nodes of the arrays, whatever its
  other arguments, and no freeing of pages in use hits an assertion, leaves an array or corrupts a list.
\<close>
theorem page_heap_reachable:
  assumes "(heap_step env)\<^sup>*\<^sup>* s0 s" "empty_heap s0" "zone_lo \<le> zone_hi" "zone_hi < NR_ZONES" "node_ok env node"
  shows "heap_inv env s \<and> alloc_heap_pages env s zone_lo zone_hi node order flags \<noteq> None \<and>
    (freeable env s pg k \<longrightarrow> free_heap_pages env s pg k \<noteq> None)"
proof -
  have inv: "heap_inv env s" using pages.steps_inv [OF assms(1)] empty_heap_inv [OF assms(2)] by blast
  then show ?thesis using alloc_heap_pages_total [OF inv assms(3-5), of order flags] free_heap_pages_spec [OF inv, of pg k] by auto
qed

theorem page_heap_reachable_witness:
  "(heap_step small_env)\<^sup>*\<^sup>* start_heap full_heap \<and> heap_inv small_env full_heap \<and>
   alloc_heap_pages small_env full_heap 1 2 0 2 0 \<noteq> None \<and> free_heap_pages small_env full_heap 4 2 \<noteq> None"
  using page_heap_reachable [OF small_steps start_heap_empty, of 1 2 0 2 0 4 2] small_steps small_zones small_node
    allocates_freeable [OF small_heap(2) full_heap_alloc small_zones(2)] by simp



text \<open>
  C12: freeing a block of pages in use never crashes: exactly its pages become free besides those that were, each remembers
  whether a TLB may still map it (and since when) if it had an owner, and all chunks are merged as far as possible again.
\<close>
theorem free_heap_pages_correct:
  assumes "heap_inv env s" "freeable env s pg order"
  shows "case free_heap_pages env s pg order of None \<Rightarrow> False | Some s' \<Rightarrow> frees env s pg order s'"
  using free_heap_pages_spec [OF assms] by auto

theorem free_heap_pages_correct_witness:
  "freeable small_env start_heap 4 2 \<and> frees small_env start_heap 4 2 small_heap"
  using free_heap_pages_correct [OF empty_heap_inv [OF start_heap_empty] start_heap_freeable] start_heap_freeable by (simp add: small_heap(1))

text \<open>
  C14: freeing an allocation undoes it: the same pages are free again, in the same chunks, and the counter is what it was.
\<close>
theorem alloc_free_roundtrip:
  assumes "heap_inv env s" "zone_lo \<le> zone_hi" "zone_hi < NR_ZONES" "order \<le> MAX_ORDER" "\<not> opt_tmem env"
    "tmem_relinquish_pages env order flags = None"
    "alloc_heap_pages env s zone_lo zone_hi node order flags = Some (s1, Some pg)"
  shows "\<exists>s2. free_heap_pages env s1 pg order = Some s2 \<and> heap_inv env s2 \<and> (\<forall>p. free_page s2 p \<longleftrightarrow> free_page s p) \<and>
    (\<forall>h j. listed s2 h j \<longleftrightarrow> listed s h j) \<and> total_avail_pages s2 = total_avail_pages s"
proof -
  have "allocates env s pg order s1"
    using alloc_heap_pages_cases [OF assms(1-4), of node flags] alloc_bad_node [OF _ assms(4,5), of node] assms(5-7) by fastforce
  note A = this and D = allocatesD [OF this]
  note fr = allocates_freeable [OF assms(1) A assms(4)]
  from free_heap_pages_spec [OF D(1) fr] obtain s2 where s2: "free_heap_pages env s1 pg order = Some s2" and "frees env s1 pg order s2"
    by blast
  then have inv2: "heap_inv env s2" and free2: "\<And>p. free_page s2 p \<longleftrightarrow> free_page s p"
    using D(3,5) unfolding frees_def by blast+
  have "listed s2 h j \<longleftrightarrow> listed s h j" for h j
    using chunks_determined [OF inv2 assms(1) free2] chunks_determined [OF assms(1) inv2 free2 [symmetric]] by blast
  moreover have "total_avail_pages s2 = total_avail_pages s" using inv2 assms(1) free2 by (simp add: heap_inv_def counts_ok_def)
  ultimately show ?thesis using s2 inv2 free2 by blast
qed

theorem alloc_free_roundtrip_witness:
  "\<exists>s2. free_heap_pages small_env full_heap 4 2 = Some s2 \<and> total_avail_pages s2 = total_avail_pages small_heap \<and>
     (\<forall>h j. listed s2 h j \<longleftrightarrow> listed small_heap h j)"
  using alloc_free_roundtrip [OF small_heap(2) _ small_zones _ _ small_heap_alloc] by auto

text \<open>
  C22: offlining a free page reports success but leaves the page on its free list and in the counters (the page is
  already marked offlined when the code asks whether it is free, so that the chunk is never split): the allocation that would have
  returned it now finds the page in a chunk, and crashes.
\<close>
theorem offline_free_page_crashes:
  assumes "heap_inv env s" "free_page s p" "\<not> is_xen_fixed_mfn env p" "is_conventional_ram env p"
    "zone_lo \<le> zone_hi" "zone_hi < NR_ZONES" "order \<le> MAX_ORDER" "\<not> opt_tmem env" "tmem_relinquish_pages env order flags = None"
    "alloc_heap_pages env s zone_lo zone_hi node order flags = Some (s1, Some pg)" "p \<in> chunk pg order"
  shows "\<exists>s'. offline_page env s p False status = Some (s', PG_OFFLINE_OFFLINED, 0) \<and>
    heap s' = heap s \<and> avail s' = avail s \<and> total_avail_pages s' = total_avail_pages s \<and>
    alloc_heap_pages env s' zone_lo zone_hi node order flags = None"
proof -
  define s' where "s' = upd_page p (\<lambda>q. q\<lparr>count_info := PGC_state_offlined\<rparr>) s"
  have same: "heap s' = heap s" "avail s' = avail s" "total_avail_pages s' = total_avail_pages s"
    and off: "count_info (frame_table s' p) \<noteq> PGC_state_free"
    by (simp_all add: s'_def upd_page_def PGC_state_offlined_def PGC_state_free_def PG_mask_def)
  have "count_info (frame_table s p) = PGC_state_free" "managed env p" using assms(1,2) chunks_okD(6) by (auto simp: heap_inv_def)
  then have "offline_page env s p False status = Some (s', PG_OFFLINE_OFFLINED, 0)"
    unfolding s'_def using assms(3,4) by (intro offline_free_page) (simp_all add: managed_def)
  moreover have "alloc_heap_pages env s' zone_lo zone_hi node order flags = None"
  proof -
    let ?n = "if node = NUMA_NO_NODE then current_node env else node"
    have nd: "?n < MAX_NUMNODES" using alloc_bad_node [OF _ assms(7,8), of node] assms(10) unfolding node_ok_def by fastforce
    note def = alloc_heap_pages_def Let_def
    obtain n z j where f: "scan_nodes env s order zone_lo zone_hi ?n (num_online_nodes env) = Some (n, z, j)"
      using assms(5-10) nd unfolding def by (cases "scan_nodes env s order zone_lo zone_hi ?n (num_online_nodes env)") auto
    let ?h = "\<lambda>s. halve (upd_heap n z j (tl (heap s n z j)) s) n z order (hd (heap s n z j)) j"
    obtain s2 q s3 q' where h: "?h s = (s2, q)" "?h s' = (s3, q')" by (metis surj_pair)
    have "q' = q" using h halve_place [of "upd_heap n z j (tl (heap s n z j)) s'" n z order "hd (heap s n z j)" j] same(1) by (metis snd_conv)
    have "q = pg" using assms(5-8,10) nd f h(1) unfolding def by (auto split: Option.bind_splits if_splits)
    have "count_info (frame_table s3 p) \<noteq> PGC_state_free" using halve_keeps [OF h(2)] off by (simp add: upd_heap_def)
    then have "claim_pages env (s3\<lparr>avail := A, total_avail_pages := t\<rparr>) pg (2 ^ order) [] = None" for A t
      using assms(11) by (intro claim_pages_stuck [of _ p]) (simp_all add: chunk_def)
    then show ?thesis using assms(5-8) nd f h(2) \<open>q' = q\<close> \<open>q = pg\<close> unfolding def scan_nodes_cong [OF same(1,2)]
      by (auto simp: avail_add_def split: Option.bind_splits)
  qed
  ultimately show ?thesis using same by blast
qed

theorem offline_free_page_crashes_witness:
  "\<exists>s'. offline_page small_env small_heap 4 False 0 = Some (s', PG_OFFLINE_OFFLINED, 0) \<and>
     alloc_heap_pages small_env s' 1 2 0 2 0 = None"
  using offline_free_page_crashes [OF small_heap(2) small_heap_free _ _ _ small_zones _ _ small_heap_alloc, of 0]
  by (auto simp: chunk_def)

text \<open>
  C25: what is freed while its first page is being taken offline ends up on the free lists in misaligned chunks.  For every block of
  at least four pages in use, aligned as the allocator gives them out, whose buddy is not free: once \<^verbatim>\<open>offline_page\<close> has marked its
  first page, freeing the block succeeds and lists the second page as the head of a chunk of half the size of the block, to which it is not
  aligned, so that the invariant of the heap is lost.
\<close>
theorem offlining_breaks_alignment:
  assumes "heap_inv env s" "freeable env s pg k" "2 \<le> k" "k = MAX_ORDER \<or> \<not> free_page s (buddy pg k)"
    "\<not> is_xen_fixed_mfn env pg" "is_conventional_ram env pg"
    "\<forall>a. page_get_owner (frame_table s pg) = Some a \<longrightarrow> mem_domains s a \<noteq> None"
  shows "\<exists>s1 status' s'. offline_page env s pg False status = Some (s1, status', 0) \<and> free_heap_pages env s1 pg k = Some s' \<and>
    listed s' (pg + 1) (k - 1) \<and> \<not> 2 ^ (k - 1) dvd pg + 1 \<and> \<not> heap_inv env s'"
proof -
  have pg: "managed env pg" "plain_inuse (frame_table s pg)" "2 ^ k dvd pg" using assms(2) chunk_simps(1) [of pg k] by (auto simp: freeable_def)
  then obtain s1 status' where s1: "offline_page env s pg False status = Some (s1, status', 0)"
    "s1 = upd_page pg (\<lambda>q. q\<lparr>count_info := offlining_info (frame_table s pg)\<rparr>) s"
    using offline_inuse_page [OF pg(2) _ assms(5,6), of status] assms(7) by (auto simp: managed_def)
  obtain s' where s': "free_heap_pages env s1 pg k = Some s'" "pg + 1 \<in> set (heap s' (phys_to_nid env pg) (zone_of pg) (k - 1))"
    using free_marked_block [OF assms(1,2)] assms(3,4) unfolding s1(2) by (metis One_nat_def Suc_leD less_irrefl numeral_2_eq_2)
  have "2 dvd pg" using pg(3) assms(3) by (metis dvd_power_same dvd_trans le_imp_power_dvd one_le_numeral order_trans power_one_right)
  moreover have "2 dvd (2 :: nat) ^ (k - 1)" using assms(3) by simp
  ultimately have odd: "\<not> 2 ^ (k - 1) dvd pg + 1" using dvd_trans [of 2 "2 ^ (k - 1)" "pg + 1"] by auto
  have "\<not> heap_inv env s'" using chunks_okD(2) [OF _ s'(2)] odd by (auto simp: heap_inv_def head_ok_def)
  moreover have "listed s' (pg + 1) (k - 1)" using s'(2) by (auto simp: listed_def)
  ultimately show ?thesis using s1(1) s'(1) odd by blast
qed

theorem offlining_breaks_alignment_witness:
  "\<exists>s1 status' s'. offline_page small_env start_heap 4 False 0 = Some (s1, status', 0) \<and> free_heap_pages small_env s1 4 2 = Some s' \<and>
    listed s' 5 1 \<and> \<not> heap_inv small_env s'"
proof -
  have "\<not> free_page start_heap (buddy 4 2)" "\<forall>a. page_get_owner (frame_table start_heap 4) = Some a \<longrightarrow> mem_domains start_heap a \<noteq> None"
    using start_heap_empty by (simp_all add: empty_heap_def start_heap_def page_get_owner_def)
  then show ?thesis
    using offlining_breaks_alignment [OF empty_heap_inv [OF start_heap_empty] start_heap_freeable, of 0] by auto
qed

text \<open>
  What can follow, on the small machine: a request for two pages returns the misaligned page 5; and page 7, allocated and freed
  again, is merged with page 6, which is on no list, so that a list is corrupted.
\<close>
lemma offlining_consequences:
  "(do { (s, st, r) \<leftarrow> offline_page small_env start_heap 4 False 0; s \<leftarrow> free_heap_pages small_env s 4 2;
         (s2, p) \<leftarrow> alloc_heap_pages small_env s 1 2 0 1 0; (s3, q) \<leftarrow> alloc_heap_pages small_env s 1 2 0 0 0;
         Some (heap s 0 2 0, heap s 0 2 1, page_offlined_list s, p, q, free_heap_pages small_env s3 7 0 = None) }) =
     Some ([7], [5], [4], Some 5, Some 7, True)"
  by code_simp

end
