(* ===== verification/Domain_Heap.thy ===== *)
theory Domain_Heap
  imports Page_Theorems
begin

text \<open>
  The domain heap of \<^verbatim>\<open>xen/common/page_alloc.c\<close> on top of the buddy allocator: giving pages to a domain and taking them
  back (\<^verbatim>\<open>assign_pages\<close>, \<^verbatim>\<open>alloc_domheap_pages\<close>, \<^verbatim>\<open>free_domheap_pages\<close>).
\<close>

unbundle bit_operations_syntax

lemma bind_pair_assoc:
  "Option.bind m (\<lambda>(x, y). Option.bind (f x y) h) = Option.bind (Option.bind m (\<lambda>(x, y). f x y)) h"
  by (cases m) auto

section \<open>Giving pages to a domain\<close>

definition assigned :: "u32 \<Rightarrow> page_info \<Rightarrow> page_info" where
  "assigned a p = (page_set_owner (Some a) p)\<lparr>count_info := PGC_allocated OR 1\<rparr>"

lemma assigned_sel [simp]:
  "count_info (assigned a p) = PGC_allocated OR 1" "a \<noteq> 0 \<Longrightarrow> page_get_owner (assigned a p) = Some a"
  by (simp_all add: assigned_def page_set_owner_def page_get_owner_def)

lemma assigned_not_free: "\<not> page_state_is (assigned a p) PGC_state_free"
proof -
  have "(PGC_allocated OR 1) AND PGC_state = 0" by (simp add: PGC_allocated_def PGC_state_def PG_mask_def)
  then show ?thesis by (simp add: page_state_is_def PGC_state_free_def PG_mask_def)
qed

lemma assign_loop_spec:
  assumes "\<forall>p \<in> {pg..<pg + n}. page_get_owner (frame_table s p) = None \<and> count_info (frame_table s p) = PGC_state_inuse"
    "mem_domains s a = Some d"
  shows "assign_loop s a pg n = Some (s\<lparr>
     frame_table := \<lambda>p. if p \<in> {pg..<pg + n} then assigned a (frame_table s p) else frame_table s p,
     mem_domains := (mem_domains s)(a \<mapsto> d\<lparr>page_list := page_list d @ [pg..<pg + n]\<rparr>)\<rparr>)"
  using assms
proof (induction n arbitrary: s d pg)
  case 0
  then have "(mem_domains s)(a \<mapsto> d) = mem_domains s" by auto
  then show ?case by simp
next
  case (Suc n)
  let ?s = "upd_domain a (d\<lparr>page_list := page_list d @ [pg]\<rparr>) (upd_page pg (assigned a) s)"
  have "assign_loop ?s a (pg + 1) n = Some (?s\<lparr>
      frame_table := \<lambda>p. if p \<in> {pg + 1..<pg + 1 + n} then assigned a (frame_table ?s p) else frame_table ?s p,
      mem_domains := (mem_domains ?s)(a \<mapsto> d\<lparr>page_list := page_list d @ [pg] @ [pg + 1..<pg + 1 + n]\<rparr>)\<rparr>)" (is "_ = Some ?t")
    using Suc.prems by (subst Suc.IH [of "pg + 1" ?s]) (auto simp: upd_domain_def upd_page_def)
  moreover have "page_get_owner (frame_table s pg) = None" "count_info (frame_table s pg) = 0"
    using Suc.prems(1) by (simp_all add: PGC_state_inuse_def PG_mask_def)
  moreover have "[pg] @ [pg + 1..<pg + 1 + n] = [pg..<pg + Suc n]" by (simp add: upt_conv_Cons del: upt_Suc)
  then have "?t = s\<lparr>frame_table := \<lambda>p. if p \<in> {pg..<pg + Suc n} then assigned a (frame_table s p) else frame_table s p,
      mem_domains := (mem_domains s)(a \<mapsto> d\<lparr>page_list := page_list d @ [pg..<pg + Suc n]\<rparr>)\<rparr>"
    by (auto simp: upd_domain_def upd_page_def fun_eq_iff intro!: heap_state.equality simp del: upt_Suc)
  ultimately have "assign_loop s a pg (Suc n) = assign_loop ?s a (pg + 1) n" "assign_loop ?s a (pg + 1) n = Some ?t"
    using Suc.prems(2) by (simp_all add: Let_def assigned_def [abs_def])
  then show ?case using \<open>?t = _\<close> by (simp only:)
qed

text \<open>A change of pages that are in use, as a step of their owner.\<close>

lemma assigned_inv:
  assumes "heap_inv env s" "\<forall>p \<in> K. \<not> free_page s p"
  shows "heap_inv env (s\<lparr>frame_table := \<lambda>p. if p \<in> K then assigned a (frame_table s p) else frame_table s p, mem_domains := D\<rparr>)"
  by (rule use_inv [OF assms(1)]) (use assms(2) assigned_not_free in \<open>auto simp: free_page_def\<close>)

definition charged :: "mem_domain \<Rightarrow> nat \<Rightarrow> u32 \<Rightarrow> mem_domain" where
  "charged d order memflags = (if memflags AND MEMF_no_refcount = 0
     then d\<lparr>refcnt := (if tot_pages d = 0 then refcnt d + 1 else refcnt d), tot_pages := tot_pages d + push_bit order 1\<rparr> else d)"

text \<open>A domain accepts the pages unless it is dying or they would take it beyond its limit.\<close>

definition accepts :: "mem_domain \<Rightarrow> nat \<Rightarrow> u32 \<Rightarrow> bool" where
  "accepts d order memflags \<longleftrightarrow> \<not> is_dying d \<and> (memflags AND MEMF_no_refcount = 0 \<longrightarrow> tot_pages d + push_bit order 1 \<le> max_pages d)"

definition gives :: "mem_env \<Rightarrow> heap_state \<Rightarrow> u32 \<Rightarrow> mem_domain \<Rightarrow> nat \<Rightarrow> nat \<Rightarrow> u32 \<Rightarrow> heap_state \<Rightarrow> bool" where
  "gives env s a d pg order memflags s' \<longleftrightarrow> heap_inv env s' \<and> 2 ^ order dvd pg \<and>
     (\<forall>p \<in> chunk pg order. free_page s p \<and> page_get_owner (frame_table s' p) = Some a \<and>
        count_info (frame_table s' p) = PGC_allocated OR 1 \<and> page_u (frame_table s' p) = 0) \<and>
     (\<forall>p. free_page s' p \<longleftrightarrow> free_page s p \<and> p \<notin> chunk pg order) \<and>
     (\<forall>p. \<not> free_page s p \<longrightarrow> frame_table s' p = frame_table s p) \<and>
     (\<forall>n. avail s' n = None \<longleftrightarrow> avail s n = None) \<and>
     mem_domains s' = (mem_domains s)(a \<mapsto> (charged d order memflags)\<lparr>page_list := page_list d @ [pg..<pg + 2 ^ order]\<rparr>)"

lemma assign_pages_spec:
  assumes "heap_inv env s" and al: "allocates env s pg order s1" and d: "mem_domains s a = Some d" "a \<noteq> 0"
  shows "if accepts d order memflags
    then \<exists>s'. assign_pages s1 a pg order memflags = Some (s', 0) \<and> gives env s a d pg order memflags s'
    else assign_pages s1 a pg order memflags = Some (s1, - 1)"
proof -
  note D = allocatesD [OF al]
  have d1: "mem_domains s1 = mem_domains s" and own: "\<And>p. p \<in> chunk pg order \<Longrightarrow> page_get_owner (frame_table s1 p) = None \<and> page_u (frame_table s1 p) = 0"
    and frame: "\<And>p. \<not> free_page s p \<Longrightarrow> frame_table s1 p = frame_table s p"
    using al unfolding allocates_def by blast+
  show ?thesis
  proof (cases "accepts d order memflags")
    case False
    then have "assign_pages s1 a pg order memflags = Some (s1, - 1)"
      unfolding accepts_def assign_pages_def using d d1 by (auto simp: not_le)
    then show ?thesis using False by simp
  next
    case True
    let ?d = "charged d order memflags"
    define s2 where "s2 = upd_domain a ?d s1"
    define T where "T p = (if p \<in> chunk pg order then assigned a (frame_table s1 p) else frame_table s1 p)" for p
    define s' where "s' = s2\<lparr>frame_table := T, mem_domains := (mem_domains s2)(a \<mapsto> ?d\<lparr>page_list := page_list ?d @ [pg..<pg + 2 ^ order]\<rparr>)\<rparr>"
    have "\<forall>p \<in> {pg..<pg + 2 ^ order}. page_get_owner (frame_table s2 p) = None \<and> count_info (frame_table s2 p) = PGC_state_inuse"
      using own D(4) unfolding s2_def upd_domain_def chunk_def by simp
    moreover have sel: "frame_table s2 = frame_table s1" "mem_domains s2 a = Some ?d" by (simp_all add: s2_def upd_domain_def)
    ultimately have "assign_loop s2 a pg (2 ^ order) = Some s'"
      using assign_loop_spec [of pg "2 ^ order" s2 a ?d] unfolding s'_def T_def [abs_def] chunk_def sel(1) by simp
    then have run: "assign_pages s1 a pg order memflags = Some (s', 0)"
      using True d d1 unfolding assign_pages_def s2_def charged_def accepts_def by auto
    have "\<forall>p \<in> chunk pg order. \<not> free_page s1 p" using D(5) by simp
    from assigned_inv [OF D(1) this, where a = a] have inv: "heap_inv env s'"
      unfolding s'_def s2_def upd_domain_def T_def [abs_def] by simp
    have s': "frame_table s' = T" "mem_domains s' = (mem_domains s)(a \<mapsto> ?d\<lparr>page_list := page_list d @ [pg..<pg + 2 ^ order]\<rparr>)"
      "avail s' = avail s1"
      by (simp_all add: s'_def s2_def upd_domain_def d1 charged_def)
    have free: "free_page s' p \<longleftrightarrow> free_page s p \<and> p \<notin> chunk pg order" for p
      using D(5) [of p] assigned_not_free unfolding free_page_def s'(1) T_def by (cases "p \<in> chunk pg order") auto
    have "gives env s a d pg order memflags s'"
      unfolding gives_def s' free
    proof (intro conjI ballI allI impI)
      fix p assume "p \<in> chunk pg order"
      then show "free_page s p" "page_get_owner (T p) = Some a" "count_info (T p) = PGC_allocated OR 1" "page_u (T p) = 0"
        using D(3) [of p] own [of p] d(2) by (simp_all add: T_def) (simp add: assigned_def page_set_owner_def)
    next
      fix p assume "\<not> free_page s p"
      then show "T p = frame_table s p" using D(3) [of p] frame [of p] by (auto simp: T_def)
    qed (use inv D(2,6) in simp_all)
    then show ?thesis using run True by auto
  qed
qed

section \<open>Allocation for a domain\<close>

lemma alloc_zones:
  assumes "heap_inv env s" "zone_lo \<le> zone_hi" "zone_hi < NR_ZONES" "order \<le> MAX_ORDER" "\<not> opt_tmem env"
    "tmem_relinquish_pages env order flags = None" "node_ok env node"
  obtains "alloc_heap_pages env s zone_lo zone_hi node order flags = Some (s, None)"
  | s' pg where "alloc_heap_pages env s zone_lo zone_hi node order flags = Some (s', Some pg)" "allocates env s pg order s'"
      "zone_lo \<le> zone_of pg" "zone_of pg \<le> zone_hi"
proof -
  have "\<not> (opt_tmem env \<and> (order = 0 \<or> order \<ge> 9) \<and> total_avail_pages s \<le> midsize_alloc_zone_pages s \<and> tmem_freeable_pages env \<noteq> 0)"
    using assms(5) by simp
  from alloc_heap_pages_cases [OF assms(1-4,7) this, of flags] show ?thesis
    unfolding assms(6) by (elim disjE exE conjE) (erule (3) that(2), erule that(1))
qed

definition domain_bits :: "mem_domain option \<Rightarrow> u32 \<Rightarrow> nat" where
  "domain_bits d memflags = (let bits = unat (drop_bit MEMF_bits_shift memflags) in
     domain_clamp_alloc_bitsize d (if bits \<noteq> 0 then bits else 64 + PAGE_SHIFT))"

text \<open>The node that a request for a domain starts from: that of the flags, or the home node of the domain.\<close>

definition domain_node :: "mem_domain option \<Rightarrow> u32 \<Rightarrow> nat" where
  "domain_node d memflags = (let node = unat (take_bit 8 (drop_bit MEMF_node_shift memflags - 1)) in
     case d of Some d \<Rightarrow> if node = NUMA_NO_NODE then home_node d else node | None \<Rightarrow> node)"

lemma domain_bits_le: "physaddr_bitsize d \<noteq> 0 \<Longrightarrow> domain_bits (Some d) memflags \<le> physaddr_bitsize d"
  by (simp add: domain_bits_def domain_clamp_alloc_bitsize_def Let_def)

text \<open>The pages of a zone that is within an address width are below that width.\<close>

lemma chunk_below:
  assumes "2 ^ order dvd pg" "0 < pg" "zone_of pg \<le> bits_to_zone bits" "0 < bits_to_zone bits" "p \<in> chunk pg order" "bits \<le> b"
  shows "p < 2 ^ (b - PAGE_SHIFT)"
proof -
  have z: "zone_of p = zone_of pg" using zone_chunk [OF assms(1,2,5)] by simp
  have "0 < p" using assms(2,5) by (simp add: chunk_def)
  then have "p < 2 ^ (zone_of p + 1)" using zone_of_bounds(2) by simp
  also have "\<dots> \<le> 2 ^ (b - PAGE_SHIFT)"
    using assms(3,4,6) unfolding z by (intro power_increasing) (auto simp: bits_to_zone_def split: if_splits)
  finally show ?thesis .
qed

text \<open>The search for a block: above the zones for DMA first, then anywhere unless that is forbidden.\<close>

definition domheap_search :: "mem_env \<Rightarrow> heap_state \<Rightarrow> nat \<Rightarrow> nat \<Rightarrow> nat \<Rightarrow> u32 \<Rightarrow> (heap_state \<times> nat option) option" where
  "domheap_search env s zone_hi node order memflags = do {
     (s, pg) \<leftarrow> (if dma_bitsize s \<noteq> 0 \<and> bits_to_zone (dma_bitsize s) < zone_hi
       then alloc_heap_pages env s (bits_to_zone (dma_bitsize s) + 1) zone_hi node order memflags else Some (s, None));
     if pg = None \<and> memflags AND MEMF_no_dma = 0
       then alloc_heap_pages env s (MEMZONE_XEN + 1) zone_hi node order memflags else Some (s, pg)
   }"

lemma domheap_search_spec:
  assumes "heap_inv env s" "1 \<le> zone_hi" "zone_hi < NR_ZONES" "order \<le> MAX_ORDER" "\<not> opt_tmem env"
    "tmem_relinquish_pages env order memflags = None" "node_ok env node"
  obtains "domheap_search env s zone_hi node order memflags = Some (s, None)"
  | s' pg where "domheap_search env s zone_hi node order memflags = Some (s', Some pg)" "allocates env s pg order s'" "zone_of pg \<le> zone_hi"
proof -
  let ?first = "if dma_bitsize s \<noteq> 0 \<and> bits_to_zone (dma_bitsize s) < zone_hi
    then alloc_heap_pages env s (bits_to_zone (dma_bitsize s) + 1) zone_hi node order memflags else Some (s, None)"
  let ?second = "\<lambda>s1 pg. if pg = None \<and> memflags AND MEMF_no_dma = 0 then alloc_heap_pages env s1 (MEMZONE_XEN + 1) zone_hi node order memflags else Some (s1, pg)"
  have "?second s None = Some (s, None) \<or> (\<exists>s1 pg. ?second s None = Some (s1, Some pg) \<and> allocates env s pg order s1 \<and> zone_of pg \<le> zone_hi)"
    using alloc_zones [OF assms(1) _ assms(3-7), of "MEMZONE_XEN + 1"] assms(2) by (auto simp: MEMZONE_XEN_def)
  moreover have "?first = Some (s, None) \<or> (\<exists>s1 pg. ?first = Some (s1, Some pg) \<and> allocates env s pg order s1 \<and> zone_of pg \<le> zone_hi)"
    using alloc_zones [OF assms(1) _ assms(3-7), of "bits_to_zone (dma_bitsize s) + 1"] by auto
  ultimately show thesis using that unfolding domheap_search_def by fastforce
qed

text \<open>\<^const>\<open>alloc_domheap_pages\<close> in terms of the search, for a domain and for none.\<close>

definition domheap_finish ::
    "mem_env \<Rightarrow> u32 option \<Rightarrow> nat \<Rightarrow> u32 \<Rightarrow> heap_state \<times> nat option \<Rightarrow> (heap_state \<times> nat option) option" where
  "domheap_finish env a order memflags = (\<lambda>(s, pg). case (pg, a) of
     (Some pg, Some a) \<Rightarrow> do {
       (s, rc) \<leftarrow> assign_pages s a pg order memflags;
       if rc \<noteq> 0 then do { s \<leftarrow> free_heap_pages env s pg order; Some (s, None) } else Some (s, Some pg)
     }
   | _ \<Rightarrow> Some (s, pg))"

lemma alloc_domheap_search:
  assumes "case a of None \<Rightarrow> d = None | Some a \<Rightarrow> d = mem_domains s a \<and> d \<noteq> None"
  shows "alloc_domheap_pages env s a order memflags =
    (let hi = min (bits_to_zone (domain_bits d memflags)) (NR_ZONES - 1) in if hi = 0 then Some (s, None)
     else Option.bind (domheap_search env s hi (domain_node d memflags) order memflags) (domheap_finish env a order memflags))"
proof -
  have "(case a of None \<Rightarrow> Some None | Some a \<Rightarrow> do { d \<leftarrow> mem_domains s a; Some (Some d) }) = Some d"
    using assms by (cases a; cases d; simp; metis bind.bind_lunit)
  then show ?thesis
    by (simp only: alloc_domheap_pages_def domheap_search_def domheap_finish_def domain_bits_def domain_node_def Let_def
        Option.bind.simps bind_pair_assoc)
qed

text \<open>
  A request for a node outside the arrays gets no pages: it crashes, unless no search takes place at all.  The node comes from the
  flags, which the memory hypercalls fill in from what the guest asks for.
\<close>

lemma domheap_bad_node:
  assumes "case a of None \<Rightarrow> d = None | Some a \<Rightarrow> d = mem_domains s a \<and> d \<noteq> None"
    "\<not> node_ok env (domain_node d memflags)" "order \<le> MAX_ORDER" "\<not> opt_tmem env"
  shows "alloc_domheap_pages env s a order memflags = None \<or> alloc_domheap_pages env s a order memflags = Some (s, None)"
    "memflags AND MEMF_no_dma = 0 \<Longrightarrow> min (bits_to_zone (domain_bits d memflags)) (NR_ZONES - 1) \<noteq> 0 \<Longrightarrow>
       alloc_domheap_pages env s a order memflags = None"
  unfolding alloc_domheap_search [OF assms(1)] Let_def domheap_search_def alloc_bad_node [OF assms(2-4)]
  by (simp_all add: domheap_finish_def)

lemma zone_hi_bounds:
  assumes "min (bits_to_zone bits) (NR_ZONES - 1) \<noteq> 0"
  shows "1 \<le> min (bits_to_zone bits) (NR_ZONES - 1)" "min (bits_to_zone bits) (NR_ZONES - 1) < NR_ZONES" "0 < bits_to_zone bits"
  using assms by (auto simp: NR_ZONES_def PADDR_BITS_def PAGE_SHIFT_def)

lemma alloc_domheap_spec:
  assumes "heap_inv env s" "mem_domains s a = Some d" "a \<noteq> 0" "order \<le> MAX_ORDER" "\<not> opt_tmem env"
    "tmem_relinquish_pages env order memflags = None" "node_ok env (domain_node (Some d) memflags)"
  shows "\<exists>s' r. alloc_domheap_pages env s (Some a) order memflags = Some (s', r) \<and>
    (case r of None \<Rightarrow> heap_inv env s' \<and> (\<forall>p. free_page s' p \<longleftrightarrow> free_page s p) \<and>
        (\<forall>p. \<not> free_page s p \<longrightarrow> frame_table s' p = frame_table s p) \<and> mem_domains s' = mem_domains s
     | Some pg \<Rightarrow> accepts d order memflags \<and> gives env s a d pg order memflags s' \<and>
        zone_of pg \<le> bits_to_zone (domain_bits (Some d) memflags) \<and> 0 < bits_to_zone (domain_bits (Some d) memflags))"
proof -
  define hi where "hi = min (bits_to_zone (domain_bits (Some d) memflags)) (NR_ZONES - 1)"
  have "case Some a of None \<Rightarrow> Some d = None | Some a \<Rightarrow> Some d = mem_domains s a \<and> Some d \<noteq> None" using assms(2) by simp
  then have run: "alloc_domheap_pages env s (Some a) order memflags = (if hi = 0 then Some (s, None)
      else Option.bind (domheap_search env s hi (domain_node (Some d) memflags) order memflags) (domheap_finish env (Some a) order memflags))"
    by (rule alloc_domheap_search [where d = "Some d" and env = env and order = order and memflags = memflags, unfolded Let_def, folded hi_def])
  show ?thesis
  proof (cases "hi = 0")
    case True
    then show ?thesis unfolding run using assms(1) by simp
  next
    case False
    note hi = zone_hi_bounds [OF False [unfolded hi_def], folded hi_def]
    from assms(1) hi(1,2) assms(4-7) show ?thesis
    proof (cases rule: domheap_search_spec [of env s hi order memflags "domain_node (Some d) memflags"])
      case 1
      then show ?thesis unfolding run using False assms(1) by (simp add: domheap_finish_def)
    next
      case (2 s1 pg)
      note D = allocatesD [OF 2(2)] and as = assign_pages_spec [OF assms(1) 2(2) assms(2,3), of memflags]
      have r: "alloc_domheap_pages env s (Some a) order memflags = do { (s, rc) \<leftarrow> assign_pages s1 a pg order memflags;
          if rc \<noteq> 0 then do { s \<leftarrow> free_heap_pages env s pg order; Some (s, None) } else Some (s, Some pg) }"
        unfolding run using False 2(1) by (simp add: domheap_finish_def)
      show ?thesis
      proof (cases "accepts d order memflags")
        case True
        then obtain s' where "assign_pages s1 a pg order memflags = Some (s', 0)" "gives env s a d pg order memflags s'" using as by auto
        then show ?thesis unfolding r using True 2(3) hi by (simp add: hi_def)
      next
        case False
        have mem: "mem_domains s1 = mem_domains s" "\<And>p. \<not> free_page s p \<Longrightarrow> frame_table s1 p = frame_table s p"
          using 2(2) unfolding allocates_def by blast+
        obtain s' where s': "free_heap_pages env s1 pg order = Some s'" and fr: "frees env s1 pg order s'"
          using free_heap_pages_spec [OF D(1) allocates_freeable [OF assms(1) 2(2) assms(4)]] by blast
        have "heap_inv env s'" "mem_domains s' = mem_domains s" "\<And>p. free_page s' p \<longleftrightarrow> free_page s p"
          "\<And>p. \<not> free_page s p \<Longrightarrow> frame_table s' p = frame_table s p"
          using fr D(3,5) mem unfolding frees_def by (metis)+
        then show ?thesis unfolding r using as False s' by simp
      qed
    qed
  qed
qed

section \<open>Taking pages back\<close>

lemma heap_inv_cong:
  assumes "frame_table s' = frame_table s" "heap s' = heap s" "avail s' = avail s" "total_avail_pages s' = total_avail_pages s"
  shows "heap_inv env s' \<longleftrightarrow> heap_inv env s"
  unfolding heap_inv_def chunks_ok_def counts_ok_def coalesced_def listed_def head_ok_def free_in_def free_page_def assms ..

lemma unlink_pages_spec:
  assumes "\<forall>p \<in> {pg..<pg + n}. (p \<in> set (page_list d) \<or> p \<in> set (relmem_list d)) \<and> page_u (frame_table s p) AND PGT_count_mask = 0"
    "distinct (page_list d)" "{pg..<pg + n} \<subseteq> set (page_list d) \<or> distinct (relmem_list d)"
  shows "unlink_pages s d pg n = Some (d\<lparr>page_list := filter (\<lambda>p. p \<notin> {pg..<pg + n}) (page_list d),
    relmem_list := filter (\<lambda>p. p \<notin> {pg..<pg + n} \<or> p \<in> set (page_list d)) (relmem_list d)\<rparr>)"
  using assms
proof (induction n arbitrary: d pg)
  case (Suc n)
  let ?l = "filter (\<lambda>p. p \<noteq> pg) (page_list d)" and ?r = "if pg \<in> set (page_list d) then relmem_list d else filter (\<lambda>p. p \<noteq> pg) (relmem_list d)"
  let ?d = "d\<lparr>page_list := ?l, relmem_list := ?r\<rparr>"
  have i: "{pg..<pg + Suc n} = insert pg {pg + 1..<pg + 1 + n}" "pg \<notin> {pg + 1..<pg + 1 + n}" by auto
  have rem: "remove1 pg l = filter (\<lambda>p. p \<noteq> pg) l" if "distinct l" for l
    using that by (auto simp: distinct_remove1_removeAll removeAll_filter_not_eq intro!: filter_cong)
  have "page_list_del2 pg (page_list d) (relmem_list d) = Some (?l, ?r)"
  proof (cases "pg \<in> set (page_list d)")
    case True
    then show ?thesis using rem [OF Suc.prems(2)] by (simp add: page_list_del2_def)
  next
    case False
    then have "distinct (relmem_list d)" "pg \<in> set (relmem_list d)" using Suc.prems(1,3) unfolding i(1) by auto
    moreover have "filter (\<lambda>p. p \<noteq> pg) (page_list d) = page_list d" using False by (auto simp: filter_id_conv)
    ultimately show ?thesis using False rem [of "relmem_list d"] by (simp add: page_list_del2_def)
  qed
  then have "unlink_pages s d pg (Suc n) = unlink_pages s ?d (pg + 1) n" using Suc.prems(1) by simp
  also have "\<dots> = Some (?d\<lparr>page_list := filter (\<lambda>p. p \<notin> {pg + 1..<pg + 1 + n}) (page_list ?d),
      relmem_list := filter (\<lambda>p. p \<notin> {pg + 1..<pg + 1 + n} \<or> p \<in> set (page_list ?d)) (relmem_list ?d)\<rparr>)"
    using Suc.prems by (intro Suc.IH) (auto simp: i(1))
  also have "filter (\<lambda>p. p \<notin> {pg + 1..<pg + 1 + n}) (page_list ?d) = filter (\<lambda>p. p \<notin> {pg..<pg + Suc n}) (page_list d)"
    by (auto intro!: filter_cong)
  also have "filter (\<lambda>p. p \<notin> {pg + 1..<pg + 1 + n} \<or> p \<in> set (page_list ?d)) (relmem_list ?d) =
      filter (\<lambda>p. p \<notin> {pg..<pg + Suc n} \<or> p \<in> set (page_list d)) (relmem_list d)"
    unfolding i(1) using i(2) by (auto simp del: atLeastLessThan_iff intro!: filter_cong)
  finally show ?case by simp
qed simp

text \<open>Every page is recorded with the entry of the frame table that it has while it is scrubbed.\<close>

lemma scrub_pages:
  "(\<And>p. p \<in> set ps \<Longrightarrow> count_info (frame_table s p) AND PGC_broken = 0) \<Longrightarrow>
   fold scrub_one_page ps s = s\<lparr>scrubbed := scrubbed s @ map (\<lambda>p. (p, frame_table s p)) ps\<rparr>"
proof (induction ps arbitrary: s)
  case (Cons p ps)
  have "fold scrub_one_page (p # ps) s = fold scrub_one_page ps (s\<lparr>scrubbed := scrubbed s @ [(p, frame_table s p)]\<rparr>)"
    using Cons.prems [of p] by (simp add: scrub_one_page_def)
  also have "\<dots> = s\<lparr>scrubbed := scrubbed s @ map (\<lambda>p. (p, frame_table s p)) (p # ps)\<rparr>" using Cons.prems by (subst Cons.IH) simp_all
  finally show ?case .
qed simp

text \<open>
  What taking a block of pages back from a domain does to it.  A page is on the list of the domain's pages or, while the domain
  is being destroyed, on the list of those already relinquished.
\<close>

definition discharged :: "mem_domain \<Rightarrow> nat \<Rightarrow> nat \<Rightarrow> mem_domain" where
  "discharged d pg order = (let t = tot_pages d - push_bit order 1 in
     d\<lparr>page_list := filter (\<lambda>p. p \<notin> chunk pg order) (page_list d),
       relmem_list := filter (\<lambda>p. p \<notin> chunk pg order \<or> p \<in> set (page_list d)) (relmem_list d),
       tot_pages := t, refcnt := refcnt d - (if t = 0 then 1 else 0)\<rparr>)"

definition owned_block :: "heap_state \<Rightarrow> u32 \<Rightarrow> mem_domain \<Rightarrow> nat \<Rightarrow> nat \<Rightarrow> bool" where
  "owned_block s a d pg order \<longleftrightarrow> distinct (page_list d) \<and> (chunk pg order \<subseteq> set (page_list d) \<or> distinct (relmem_list d)) \<and>
     (\<forall>p \<in> chunk pg order. (p \<in> set (page_list d) \<or> p \<in> set (relmem_list d)) \<and>
       page_get_owner (frame_table s p) = Some a \<and> page_u (frame_table s p) AND PGT_count_mask = 0)"

lemma free_domheap_spec:
  assumes "heap_inv env s" "freeable env s pg order" "mem_domains s a = Some d" "a \<noteq> dom_cow env" "owned_block s a d pg order"
  shows "\<exists>s'. free_domheap_pages env s pg order = Some s' \<and> heap_inv env s' \<and>
    (\<forall>p. free_page s' p \<longleftrightarrow> free_page s p \<or> p \<in> chunk pg order) \<and>
    (\<forall>p \<in> chunk pg order. need_tlbflush (frame_table s' p) \<and> tlbflush_timestamp (frame_table s' p) = tlbflush_current_time env) \<and>
    (\<forall>p. \<not> free_page s p \<and> p \<notin> chunk pg order \<longrightarrow> frame_table s' p = frame_table s p) \<and>
    mem_domains s' = (mem_domains s)(a \<mapsto> discharged d pg order) \<and>
    scrubbed s' = scrubbed s @ (if is_dying d then map (\<lambda>p. (p, frame_table s p)) [pg..<pg + 2 ^ order] else [])"
proof -
  have pg: "pg \<in> chunk pg order" by (simp add: chunk_def)
  have plain: "\<And>p. p \<in> chunk pg order \<Longrightarrow> plain_inuse (frame_table s p)" using assms(2) by (simp add: freeable_def)
  have own: "\<And>p. p \<in> chunk pg order \<Longrightarrow> page_get_owner (frame_table s p) = Some a" using assms(5) by (simp add: owned_block_def)
  define t where "t = tot_pages d - push_bit order 1"
  define l where "l = filter (\<lambda>p. p \<notin> chunk pg order) (page_list d)"
  define r where "r = filter (\<lambda>p. p \<notin> chunk pg order \<or> p \<in> set (page_list d)) (relmem_list d)"
  define d1 where "d1 = d\<lparr>page_list := l, relmem_list := r, tot_pages := t\<rparr>"
  define log where "log = (if is_dying d then map (\<lambda>p. (p, frame_table s p)) [pg..<pg + 2 ^ order] else [])"
  define s1 where "s1 = upd_domain a d1 s"
  define s2 where "s2 = s1\<lparr>scrubbed := scrubbed s1 @ log\<rparr>"
  have unl: "unlink_pages s d pg (2 ^ order) = Some (d\<lparr>page_list := l, relmem_list := r\<rparr>)"
    using unlink_pages_spec [of pg "2 ^ order" d s] assms(5) unfolding l_def r_def owned_block_def chunk_def by blast
  have "fold scrub_one_page [pg..<pg + 2 ^ order] s1 = s1\<lparr>scrubbed := scrubbed s1 @ map (\<lambda>p. (p, frame_table s1 p)) [pg..<pg + 2 ^ order]\<rparr>"
    using plain by (intro scrub_pages) (simp add: s1_def upd_domain_def plain_inuse_def chunk_def)
  then have scr: "(if is_dying d then fold scrub_one_page [pg..<pg + 2 ^ order] s1 else s1) = s2"
    by (simp add: s2_def log_def s1_def upd_domain_def)
  have sel: "frame_table s2 = frame_table s" "heap s2 = heap s" "avail s2 = avail s" "total_avail_pages s2 = total_avail_pages s"
    "mem_domains s2 = (mem_domains s)(a \<mapsto> d1)" "scrubbed s2 = scrubbed s @ log"
    by (simp_all add: s2_def s1_def upd_domain_def)
  have "heap_inv env s2" "freeable env s2 pg order"
    using assms(1,2) heap_inv_cong [OF sel(1-4)] by (simp_all add: freeable_def sel(1,3))
  then obtain s3 where s3: "free_heap_pages env s2 pg order = Some s3" and fr: "frees env s2 pg order s3" using free_heap_pages_spec by blast
  have run: "free_domheap_pages env s pg order = (if t = 0 then put_domain a s3 else Some s3)"
  proof -
    have x: "\<not> is_xen_heap_page (frame_table s pg)" using plain [OF pg] by (simp add: plain_inuse_def)
    have "free_domheap_pages env s pg order =
        do { s \<leftarrow> free_heap_pages env (if is_dying d then fold scrub_one_page [pg..<pg + 2 ^ order] s1 else s1) pg order;
             if t = 0 then put_domain a s else Some s }"
      using own [OF pg] x assms(3,4) unfolding free_domheap_pages_def s1_def d1_def t_def by (simp add: unl Let_def)
    then show ?thesis by (simp add: scr s3)
  qed
  define s' where "s' = s3\<lparr>mem_domains := (mem_domains s)(a \<mapsto> discharged d pg order)\<rparr>"
  have m3: "mem_domains s3 = (mem_domains s)(a \<mapsto> d1)" and c3: "scrubbed s3 = scrubbed s2" and inv3: "heap_inv env s3"
    using fr sel(5) unfolding frees_def by simp_all
  have "free_domheap_pages env s pg order = Some s'"
  proof (cases "t = 0")
    case True
    then show ?thesis unfolding run s'_def using m3
      by (simp add: put_domain_def upd_domain_def discharged_def d1_def l_def r_def t_def Let_def)
  next
    case False
    then have "discharged d pg order = d1" by (simp add: discharged_def d1_def l_def r_def t_def Let_def)
    then have "s' = s3" using m3 by (simp add: s'_def)
    then show ?thesis unfolding run using False by simp
  qed
  moreover have "heap_inv env s'" using inv3 by (subst heap_inv_cong [of _ s3]) (simp_all add: s'_def)
  moreover have "frame_table s' = frame_table s3" "free_page s' = free_page s3" by (simp_all add: s'_def free_page_def fun_eq_iff)
  moreover have "mem_domains s' = (mem_domains s)(a \<mapsto> discharged d pg order)" "scrubbed s' = scrubbed s2" using c3 by (simp_all add: s'_def)
  moreover have "free_page s2 = free_page s" by (simp add: fun_eq_iff free_page_def sel(1))
  moreover note fr [unfolded frees_def sel(1)] own sel(6) [unfolded log_def]
  ultimately show ?thesis by simp
qed

text \<open>The pages that a domain was given can be taken back.\<close>

lemma gives_block:
  assumes "heap_inv env s" "gives env s a d pg order memflags s'" "order \<le> MAX_ORDER" "distinct (page_list d)"
    "\<forall>p \<in> set (page_list d). \<not> free_page s p"
  shows "freeable env s' pg order" "owned_block s' a ((charged d order memflags)\<lparr>page_list := page_list d @ [pg..<pg + 2 ^ order]\<rparr>) pg order"
proof -
  have plain: "plain_inuse p" if "count_info p = PGC_allocated OR 1" for p
    using that by (simp add: plain_inuse_def page_state_is_def is_xen_heap_page_def PGC_state_inuse_def PGC_allocated_def PGC_state_def
        PGC_broken_def PGC_xen_heap_def PG_mask_def)
  have G: "2 ^ order dvd pg" "\<And>p. p \<in> chunk pg order \<Longrightarrow> free_page s p \<and> page_get_owner (frame_table s' p) = Some a \<and>
      count_info (frame_table s' p) = PGC_allocated OR 1 \<and> page_u (frame_table s' p) = 0" "\<And>n. avail s' n = None \<longleftrightarrow> avail s n = None"
    using assms(2) unfolding gives_def by blast+
  have man: "managed env p" "avail s (phys_to_nid env p) \<noteq> None" if "free_page s p" for p
    using assms(1) that chunks_okD(6) by (auto simp: heap_inv_def counts_ok_def)
  have "avail s' (phys_to_nid env pg) \<noteq> None" using G(2) [of pg] man(2) [of pg] G(3) chunk_simps(1) [of pg order] by simp
  then show "freeable env s' pg order" using assms(3) G man plain by (simp add: freeable_def)
  show "owned_block s' a ((charged d order memflags)\<lparr>page_list := page_list d @ [pg..<pg + 2 ^ order]\<rparr>) pg order"
    using assms(4,5) G(2) by (auto simp: owned_block_def chunk_def)
qed

lemma charged_discharged:
  assumes "memflags AND MEMF_no_refcount = 0" "\<forall>p \<in> set (page_list d). p \<notin> chunk pg order"
  shows "discharged ((charged d order memflags)\<lparr>page_list := page_list d @ [pg..<pg + 2 ^ order]\<rparr>) pg order = d"
proof -
  have "p \<in> set (page_list d @ [pg..<pg + 2 ^ order])" if "p \<in> chunk pg order" for p using that by (simp add: chunk_def)
  then have "filter (\<lambda>p. p \<notin> chunk pg order \<or> p \<in> set (page_list d @ [pg..<pg + 2 ^ order])) (relmem_list d) = relmem_list d"
    by (auto simp: filter_id_conv)
  moreover have "filter (\<lambda>p. p \<notin> chunk pg order) (page_list d) = page_list d" "filter (\<lambda>p. p \<notin> chunk pg order) [pg..<pg + 2 ^ order] = []"
    using assms(2) by (auto simp: filter_id_conv filter_empty_conv chunk_def)
  ultimately show ?thesis using assms(1) by (simp add: discharged_def charged_def Let_def)
qed

section \<open>A domain\<close>

definition small_domain :: mem_domain where
  "small_domain = \<lparr>domain_id = 1, is_dying = False, tot_pages = 0, max_pages = 8, xenheap_pages = 0, page_list = [], xenpage_list = [],
     relmem_list = [], refcnt = 1, physaddr_bitsize = 16, home_node = 0\<rparr>"

definition domain_heap :: heap_state where
  "domain_heap = small_heap\<lparr>mem_domains := [5 \<mapsto> small_domain]\<rparr>"

definition served_heap :: heap_state where
  "served_heap = fst (the (alloc_domheap_pages small_env domain_heap (Some 5) 2 0))"

lemma domain_heap:
  "heap_inv small_env domain_heap" "mem_domains domain_heap 5 = Some small_domain"
  using small_heap(2) heap_inv_cong [of domain_heap small_heap small_env] by (simp_all add: domain_heap_def)

lemma served_heap: "alloc_domheap_pages small_env domain_heap (Some 5) 2 0 = Some (served_heap, Some 4)"
proof -
  have "map_option snd (alloc_domheap_pages small_env domain_heap (Some 5) 2 0) = Some (Some 4)" by code_simp
  then show ?thesis by (auto simp: served_heap_def)
qed

lemma small_domain_limits: "accepts small_domain 2 0" "physaddr_bitsize small_domain = 16" "5 \<noteq> dom_cow small_env"
  by code_simp+

lemma served_node: "node_ok small_env (domain_node (Some small_domain) 0)" by code_simp

lemma served_gives: "gives small_env domain_heap 5 small_domain 4 2 0 served_heap"
  using alloc_domheap_spec [OF domain_heap _ small_zones(2), of 0] served_node by (auto simp: served_heap)

section \<open>Properties\<close>

text \<open>
  C16: allocating pages for a domain never crashes when the node that the flags ask for (or the home node of the domain, if they ask for
  none) is one of the \<^verbatim>\<open>MAX_NUMNODES\<close> nodes; \<open>domheap_bad_node\<close> is the other case.  It succeeds only for a domain that is not dying and stays within its limit, with
  an aligned block of free pages below the domain's address width; each page is then owned by the domain with the one reference of
  the allocation, the domain's list and count grow by exactly these pages, and no other page changes.
  When it fails, the free pages, the pages in use and all accounts are as before.
\<close>
theorem alloc_domheap_pages_correct:
  assumes "heap_inv env s" "mem_domains s a = Some d" "a \<noteq> 0" "order \<le> MAX_ORDER" "\<not> opt_tmem env"
    "tmem_relinquish_pages env order memflags = None" "node_ok env (domain_node (Some d) memflags)"
  shows "case alloc_domheap_pages env s (Some a) order memflags of None \<Rightarrow> False
    | Some (s', None) \<Rightarrow> heap_inv env s' \<and> (\<forall>p. free_page s' p \<longleftrightarrow> free_page s p) \<and>
        (\<forall>p. \<not> free_page s p \<longrightarrow> frame_table s' p = frame_table s p) \<and> mem_domains s' = mem_domains s
    | Some (s', Some pg) \<Rightarrow> accepts d order memflags \<and> gives env s a d pg order memflags s' \<and>
        (physaddr_bitsize d \<noteq> 0 \<longrightarrow> (\<forall>p \<in> chunk pg order. p < 2 ^ (physaddr_bitsize d - PAGE_SHIFT)))"
proof -
  obtain s' r where run: "alloc_domheap_pages env s (Some a) order memflags = Some (s', r)"
    and r: "case r of None \<Rightarrow> heap_inv env s' \<and> (\<forall>p. free_page s' p \<longleftrightarrow> free_page s p) \<and>
        (\<forall>p. \<not> free_page s p \<longrightarrow> frame_table s' p = frame_table s p) \<and> mem_domains s' = mem_domains s
     | Some pg \<Rightarrow> accepts d order memflags \<and> gives env s a d pg order memflags s' \<and>
        zone_of pg \<le> bits_to_zone (domain_bits (Some d) memflags) \<and> 0 < bits_to_zone (domain_bits (Some d) memflags)"
    using alloc_domheap_spec [OF assms] by blast
  show ?thesis
  proof (cases r)
    case (Some pg)
    then have g: "gives env s a d pg order memflags s'" and z: "zone_of pg \<le> bits_to_zone (domain_bits (Some d) memflags)"
      "0 < bits_to_zone (domain_bits (Some d) memflags)" and acc: "accepts d order memflags" using r by simp_all
    have al: "2 ^ order dvd pg" and "free_page s pg" using g chunk_simps(1) [of pg order] unfolding gives_def by blast+
    then have "0 < pg" using assms(1) chunks_okD(6) by (auto simp: heap_inv_def managed_def)
    then have "p < 2 ^ (physaddr_bitsize d - PAGE_SHIFT)" if "physaddr_bitsize d \<noteq> 0" "p \<in> chunk pg order" for p
      using chunk_below [OF al _ z that(2) domain_bits_le [OF that(1)]] by blast
    then show ?thesis using run g acc Some by simp
  qed (use run r in simp)
qed

theorem alloc_domheap_pages_correct_witness:
  "alloc_domheap_pages small_env domain_heap (Some 5) 2 0 = Some (served_heap, Some 4) \<and>
   gives small_env domain_heap 5 small_domain 4 2 0 served_heap"
  using alloc_domheap_pages_correct [OF domain_heap _ small_zones(2), of 0] served_node by (simp add: served_heap)

text \<open>
  C18: taking a block of pages back from a domain never crashes, whether they are still on its list of pages or on that of the pages
  it has relinquished: the pages leave the lists and the count of the domain and become free, each marked for a TLB flush; if the
  domain is dying, every page is scrubbed before it is freed, for the log records it with the entry of the frame table it had when the
  call was made, in use and owned by the domain; otherwise no page is scrubbed.  The reference that the pages held on the domain
  is dropped with its last page.
\<close>
theorem free_domheap_pages_correct:
  assumes "heap_inv env s" "freeable env s pg order" "mem_domains s a = Some d" "a \<noteq> dom_cow env" "owned_block s a d pg order"
  shows "case free_domheap_pages env s pg order of None \<Rightarrow> False
    | Some s' \<Rightarrow> heap_inv env s' \<and> (\<forall>p. free_page s' p \<longleftrightarrow> free_page s p \<or> p \<in> chunk pg order) \<and>
        (\<forall>p \<in> chunk pg order. need_tlbflush (frame_table s' p) \<and> tlbflush_timestamp (frame_table s' p) = tlbflush_current_time env) \<and>
        (\<forall>p. \<not> free_page s p \<and> p \<notin> chunk pg order \<longrightarrow> frame_table s' p = frame_table s p) \<and>
        mem_domains s' = (mem_domains s)(a \<mapsto> discharged d pg order) \<and>
        scrubbed s' = scrubbed s @ (if is_dying d then map (\<lambda>p. (p, frame_table s p)) [pg..<pg + 2 ^ order] else [])"
  using free_domheap_spec [OF assms] by (elim exE conjE) simp

theorem free_domheap_pages_correct_witness:
  "\<exists>s'. free_domheap_pages small_env served_heap 4 2 = Some s' \<and> heap_inv small_env s' \<and> free_page s' 4 \<and>
     mem_domains s' 5 = Some small_domain"
proof -
  have g: "gives small_env domain_heap 5 small_domain 4 2 0 served_heap" by (rule served_gives)
  then have m: "heap_inv small_env served_heap"
    "mem_domains served_heap 5 = Some ((charged small_domain 2 0)\<lparr>page_list := page_list small_domain @ [4..<4 + 2 ^ 2]\<rparr>)"
    by (simp_all add: gives_def)
  have "distinct (page_list small_domain)" "\<forall>p \<in> set (page_list small_domain). \<not> free_page domain_heap p" by (simp_all add: small_domain_def)
  note b = gives_block [OF domain_heap(1) g small_zones(2) this]
  have "discharged ((charged small_domain 2 0)\<lparr>page_list := page_list small_domain @ [4..<4 + 2 ^ 2]\<rparr>) 4 2 = small_domain"
    by (rule charged_discharged) (simp_all add: small_domain_def)
  then show ?thesis using free_domheap_pages_correct [OF m(1) b(1) m(2) small_domain_limits(3) b(2)]
    by (auto simp: chunk_def split: option.splits)
qed

text \<open>
  C23: pages given to a domain and taken back leave everything as it was: the same free pages in the same chunks, and the
  same accounts of every domain.
\<close>
theorem domheap_roundtrip:
  assumes "heap_inv env s" "mem_domains s a = Some d" "a \<noteq> 0" "a \<noteq> dom_cow env" "order \<le> MAX_ORDER" "\<not> opt_tmem env"
    "tmem_relinquish_pages env order memflags = None" "memflags AND MEMF_no_refcount = 0" "distinct (page_list d)"
    "\<forall>p \<in> set (page_list d). \<not> free_page s p" "alloc_domheap_pages env s (Some a) order memflags = Some (s1, Some pg)"
  shows "\<exists>s2. free_domheap_pages env s1 pg order = Some s2 \<and> heap_inv env s2 \<and> (\<forall>p. free_page s2 p \<longleftrightarrow> free_page s p) \<and>
    (\<forall>h j. listed s2 h j \<longleftrightarrow> listed s h j) \<and> mem_domains s2 = mem_domains s"
proof -
  let ?d = "(charged d order memflags)\<lparr>page_list := page_list d @ [pg..<pg + 2 ^ order]\<rparr>"
  have "node_ok env (domain_node (Some d) memflags)"
    using domheap_bad_node(1) [of "Some d" s "Some a" env memflags order] assms(2,5,6,11) by auto
  then have g: "gives env s a d pg order memflags s1" using alloc_domheap_spec [OF assms(1-3,5-7)] assms(11) by auto
  then have G: "heap_inv env s1" "mem_domains s1 = (mem_domains s)(a \<mapsto> ?d)" "\<And>p. p \<in> chunk pg order \<Longrightarrow> free_page s p"
    "\<And>p. free_page s1 p \<longleftrightarrow> free_page s p \<and> p \<notin> chunk pg order" unfolding gives_def by blast+
  note b = gives_block [OF assms(1) g assms(5,9,10)]
  have "mem_domains s1 a = Some ?d" using G(2) by simp
  from free_domheap_spec [OF G(1) b(1) this assms(4) b(2)] obtain s2 where
    s2: "free_domheap_pages env s1 pg order = Some s2" "heap_inv env s2"
      "mem_domains s2 = (mem_domains s1)(a \<mapsto> discharged ?d pg order)"
    and f: "\<forall>p. free_page s2 p \<longleftrightarrow> free_page s1 p \<or> p \<in> chunk pg order" by blast
  have free: "free_page s2 p \<longleftrightarrow> free_page s p" for p using f G(3,4) by blast
  have "discharged ?d pg order = d" by (rule charged_discharged [OF assms(8)]) (use assms(10) G(3) in blast)
  then have "mem_domains s2 = mem_domains s" using s2(3) G(2) assms(2) by auto
  moreover have "listed s2 h j \<longleftrightarrow> listed s h j" for h j
    using chunks_determined [OF s2(2) assms(1) free] chunks_determined [OF assms(1) s2(2) free [symmetric]] by blast
  ultimately show ?thesis using s2(1,2) free by blast
qed

theorem domheap_roundtrip_witness:
  "\<exists>s2. free_domheap_pages small_env served_heap 4 2 = Some s2 \<and> heap_inv small_env s2 \<and> mem_domains s2 = mem_domains domain_heap"
  using domheap_roundtrip [OF domain_heap _ small_domain_limits(3) small_zones(2) _ _ _ _ _ served_heap] by (auto simp: small_domain_def)

end
