(* ===== verification/Spec2Isabelle.thy ===== *)
theory Spec2Isabelle
  imports Rangeset Event_Channel_Theorems Timer_Theorems String_Theorems Bitmap_Theorems
    Boot_Theorems Domain_Heap
begin

text \<open>
  The core of the Xen hypervisor (\<^verbatim>\<open>xen/common\<close>, x86-64): event channels and polling, timers, the page allocator, the sets of
  I/O capabilities, and the bitmap and string functions below them.

  \<^bold>\<open>The program.\<close>  A guest domain enters the hypervisor by a hypercall or is interrupted.  Its virtual CPUs
  wait for events (\<^verbatim>\<open>schedule.c\<close>); an event arrives on a port of the domain (\<^verbatim>\<open>event_channel.c\<close>), sent by another
  domain, by an interrupt or by the hypervisor, or the wait ends with a timer (\<^verbatim>\<open>timer.c\<close>).  The interrupts that a domain
  may bind are in a set of ranges (\<^verbatim>\<open>rangeset.c\<close>, \<^verbatim>\<open>iocap.h\<close>).  The memory of domains and of the hypervisor
  comes from the buddy allocator (\<^verbatim>\<open>page_alloc.c\<close>), which at boot is preceded by an allocator of page regions.
  \<^verbatim>\<open>bitmap.c\<close>, \<^verbatim>\<open>bitops.h\<close>, \<^verbatim>\<open>string.c\<close> and \<^verbatim>\<open>vsprintf.c\<close> serve all of them.

  \<^bold>\<open>Conventions.\<close>  \<open>Xen_Prelude\<close> has the machine types, the error numbers and the facts that all theories
  share.  An operation is a function from the state to \<open>None\<close>, which is a crash, an access outside an object, behaviour
  that C leaves undefined, or a loop that does not end, or to the new state and the returned value.  Error codes are
  negative integers.  Machine words are words of 64, 32, 16 or 8 bits where an overflow can happen or bits are meant; indices
  and frame numbers are natural numbers.  What lies outside the modelled files (the outcome of memory allocation, the
  security module, the memory map, the timer hardware, callbacks, other processors while no lock is held) is an
  argument, usually the record \<open>env\<close>, \<open>tenv\<close> or \<open>mem_env\<close>.  A critical section is one step.

  \<^bold>\<open>Rangesets\<close> (\<^verbatim>\<open>xen/common/rangeset.c\<close>, \<^verbatim>\<open>xen/include/xen/iocap.h\<close>): theory \<open>Rangeset\<close>.  The linked list of ranges
  is a list, a pointer into it a position.  Adding, querying and removing are union, inclusion and, within stated limits,
  difference on sets of numbers; the exact result of a removal, which can add numbers, is a theorem of its own.  The locale
  \<open>capability_set\<close> derives the rights to interrupts from these laws.

  \<^bold>\<open>Event channels\<close> (\<^verbatim>\<open>xen/common/event_channel.c\<close>, \<^verbatim>\<open>asm-x86/event.h\<close>, and parts of \<^verbatim>\<open>schedule.c\<close>, \<^verbatim>\<open>domain.c\<close>, \<^verbatim>\<open>sched.h\<close>).
  \<open>Domain_State\<close> has the fields of a domain and of its VCPUs, and the functions that wake a VCPU; \<open>Event_Channel\<close> has
  every operation in the order of the file, the hypercall that dispatches them, and \<^verbatim>\<open>do_block\<close> and \<^verbatim>\<open>do_poll\<close>.
  \<open>Event_Channel_Spec\<close> has abstract tables of channels with their invariant, \<open>Event_Channel_Inv\<close> reads these tables off
  a domain, and \<open>Event_Channel_Sched\<close>, \<open>Event_Channel_Ops\<close>, \<open>Event_Channel_Close\<close> and \<open>Event_Channel_Props\<close> show that the
  operations refine changes of the tables and do not crash.  \<open>Event_Channel_Steps\<close> is the transition system of hypercalls,
  interrupts, guest writes and domain life, an instance of the locale \<open>invariant_steps\<close>, and \<open>Event_Channel_Theorems\<close> has
  the properties: the invariant of reachable states, safety of every entry point, what binding, sending, closing and
  destroying do, no lost wake-up in polling, and two ways to leave the invariant: a failed security label, and
  a domain that has channels before it has VCPUs.  They assume that other processors keep the invariant
  (\<open>tame\<close>; met by processors that only make calls of the component, lemma \<open>tame_calls\<close>), that labels can be allocated
  (\<open>labels_ok\<close>), and that a domain has VCPU 0 from the start.  \<^verbatim>\<open>pirq_guest_bind\<close> and \<^verbatim>\<open>pirq_guest_unbind\<close> are seen as changes of
  the set \<open>pirq_bound\<close>.

  \<^bold>\<open>Timers\<close> (\<^verbatim>\<open>xen/common/timer.c\<close>): \<open>Timer\<close> has the per-CPU heaps and overflow lists, every operation and the softirq
  handler.  \<open>Timer_Heap\<close> shows the heap operations correct (locale \<open>min_heap\<close>), \<open>Timer_Ops\<close> that the operations refine
  a table of armed timers, \<open>Timer_Softirq\<close> that the handler ends and serves all due timers.  \<open>Timer_Theorems\<close> has the
  properties, with the transition system in which no armed timer is missed.  Callbacks must keep the queues well-formed and
  arm no timer that is already due (\<open>callbacks_ok\<close>): otherwise the handler need not end.

  \<^bold>\<open>Page allocator\<close> (\<^verbatim>\<open>xen/common/page_alloc.c\<close>, \<^verbatim>\<open>asm-x86/mm.h\<close>).  \<open>Page_Alloc\<close> has the buddy allocator, offlining, and the Xen and
  domain heaps.  \<open>Buddy_Facts\<close>, \<open>Buddy_Alloc\<close>, \<open>Buddy_Search\<close>, \<open>Buddy_Ops\<close> and \<open>Buddy_Free\<close> prove the invariant \<open>heap_inv\<close>
  (free pages are partitioned into aligned, merged chunks with exact counters) and the effect of allocating and freeing;
  \<open>Buddy_Offline\<close> treats blocks with a page that goes offline.  \<open>Page_Theorems\<close> has the properties of the heap, again an
  instance of \<open>invariant_steps\<close>, and what offlining breaks; \<open>Domain_Heap\<close> those of giving pages to domains and
  taking them back.  Nodes must be below \<^verbatim>\<open>MAX_NUMNODES\<close> (\<open>node_ok\<close>), which the code does not check.

  \<^bold>\<open>Boot allocator\<close> (the first part of \<^verbatim>\<open>page_alloc.c\<close>): \<open>Boot_Alloc\<close>, \<open>Boot_Facts\<close> and \<open>Boot_Theorems\<close>, with the numbers
  of \<open>Vsprintf\<close> (\<^verbatim>\<open>xen/common/vsprintf.c\<close>) for the option \<^verbatim>\<open>badpage=\<close>.  Its regions are a set of free pages.  Assumed: a
  free slot in the table, an alignment that is a power of two, and no region that ends below the number of pages asked for.

  \<^bold>\<open>Bitmaps\<close> (\<^verbatim>\<open>xen/common/bitmap.c\<close>, \<^verbatim>\<open>xen/bitmap.h\<close>, \<^verbatim>\<open>xen/bitops.h\<close>): \<open>Bitmap\<close> on a memory of words, so that operands may overlap.
  \<open>Bitmap_Facts\<close> (locale \<open>word_test\<close>, an instance for each bitwise test), \<open>Bitmap_Ops\<close>, \<open>Bitmap_Shift\<close>, \<open>Bitmap_Regions\<close> and
  \<open>Bit_Search\<close> show that bitmaps implement finite sets; \<open>Bitmap_Theorems\<close> has the properties and the deviations.  The search for
  a free region needs a number of bits that the size of the region divides.

  \<^bold>\<open>Strings\<close> (\<^verbatim>\<open>xen/common/string.c\<close>, \<^verbatim>\<open>xen/ctype.h\<close>): \<open>String_Lib\<close> on a memory of bytes; \<open>String_Facts\<close>, \<open>String_Search\<close> and
  \<open>String_Theorems\<close> show what is copied, compared and found.  \<^verbatim>\<open>memset\<close>, \<^verbatim>\<open>memcpy\<close> and \<^verbatim>\<open>memmove\<close> are the portable bodies,
  which x86 replaces.

  \<^bold>\<open>Loops.\<close>  No definition has fuel.  Loops are structural recursions or have a measure (the rest of the memory, of
  the list, or of the orders); the loops that may run forever (executing timers, waiting for a timer to finish, the heap
  descent, the boot options) are partial functions for which not returning is \<open>None\<close>.  The theorems about timers and
  regions state that they return; nothing is claimed of the loop over \<^verbatim>\<open>badpage=\<close>.

  \<^bold>\<open>Not modelled.\<close>  Schedulers, run queues and the context switch; grant tables, memory hypercalls and the
  architecture's paging and traps, which work on page tables; transcendent memory; the small-object
  allocator, of which only success or failure is seen; locks, RCU and softirq dispatch, which are what makes a step atomic;
  everything that only prints (console dumps, \<^verbatim>\<open>bitmap_scnprintf\<close>, \<^verbatim>\<open>vsnprintf\<close>); the initialisation of a node's heap and
  \<^verbatim>\<open>scrub_heap_pages\<close>; the device model, tools, firmware and guest kernels outside \<^verbatim>\<open>xen/\<close>.  \<^verbatim>\<open>do_poll\<close> is one step: an
  event that another processor sends comes before or after it, not between its writes, and setting its timer is left
  to the timer component.
\<close>

end
